(* ===== verification/Prelude.thy ===== *)
theory Prelude
  imports Main "HOL-Library.Word"
begin

text \<open>
  What the component theories share.

  \<^item> \<open>fault\<close> names the ways in which the C++ code leaves defined behaviour or stops the
    process (a failed \<open>assert\<close>, \<open>abort()\<close>, a dereferenced end iterator, a null \<open>char*\<close>
    given to \<open>std::string\<close>, \<dots>). A routine that can do so returns \<open>fault + 'a\<close>.
  \<^item> C integer conversions on an LP64 target, written out as \<open>mod\<close> on \<open>int\<close>.
  \<^item> The parts of the C library that the sources call on strings: \<open>c_str\<close>, \<open>isspace\<close>,
    \<open>atoi\<close>.
  \<^item> The locale \<open>transition_system\<close>: reachable states and the invariant rule that every
    concurrent component of the development uses. The locale \<open>simulation\<close> relates such a
    system to an abstract one; \<open>functional_refinement\<close> does so for a sequential component.
\<close>

named_theorems cpp_conv \<open>C integer conversions, unfolded\<close>
named_theorems inv_defs \<open>definitions of the component invariants\<close>
named_theorems step_simps \<open>step functions of the components, unfolded\<close>

section \<open>Faults and results\<close>

datatype fault =
    Assert_Fail        \<comment> \<open>\<open>assert\<close> with a false argument\<close>
  | Abort_Call         \<comment> \<open>\<open>abort()\<close>\<close>
  | Deref_End          \<comment> \<open>an end iterator of an empty container is dereferenced\<close>
  | Bad_Iterator       \<comment> \<open>an iterator that does not point into its container\<close>
  | Null_String        \<comment> \<open>\<open>std::string(nullptr)\<close>\<close>
  | Bad_Range          \<comment> \<open>an iterator range whose end precedes its begin\<close>
  | Out_Of_Bounds      \<comment> \<open>a read or write outside an array\<close>
  | Null_Deref         \<comment> \<open>a null \<open>shared_ptr\<close> is dereferenced\<close>
  | Bad_Pointer        \<comment> \<open>a pointer that was never set is dereferenced\<close>
  | Empty_Call         \<comment> \<open>an empty \<open>std::function\<close> is called\<close>
  | Div_By_Zero        \<comment> \<open>\<open>%\<close> with a zero divisor\<close>
  | Int_Overflow       \<comment> \<open>a signed integer overflows\<close>
  | Spin               \<comment> \<open>a loop none of whose branches changes the state\<close>

type_synonym 'a result = "fault + 'a"

primrec rbind :: "'a result \<Rightarrow> ('a \<Rightarrow> 'b result) \<Rightarrow> 'b result" where
  "rbind (Inl e) f = Inl e"
| "rbind (Inr x) f = f x"

lemma rbind_Inr_iff [simp]: "rbind r f = Inr y \<longleftrightarrow> (\<exists>x. r = Inr x \<and> f x = Inr y)"
  by (cases r) auto

lemma rbind_Inl_iff: "rbind r f = Inl e \<longleftrightarrow> r = Inl e \<or> (\<exists>x. r = Inr x \<and> f x = Inl e)"
  by (cases r) auto

section \<open>C integers (LP64)\<close>

definition to_int32 :: "int \<Rightarrow> int" where
  "to_int32 x = (x + 2 ^ 31) mod 2 ^ 32 - 2 ^ 31"

definition to_uint32 :: "int \<Rightarrow> int" where
  "to_uint32 x = x mod 2 ^ 32"

definition to_long :: "int \<Rightarrow> int" where
  "to_long x = (x + 2 ^ 63) mod 2 ^ 64 - 2 ^ 63"

definition to_size_t :: "int \<Rightarrow> int" where
  "to_size_t x = x mod 2 ^ 64"

lemma to_int32_id [cpp_conv]: "- (2 ^ 31) \<le> x \<Longrightarrow> x < 2 ^ 31 \<Longrightarrow> to_int32 x = x"
  by (simp add: to_int32_def)

lemma to_uint32_id [cpp_conv]: "0 \<le> x \<Longrightarrow> x < 2 ^ 32 \<Longrightarrow> to_uint32 x = x"
  by (simp add: to_uint32_def)

lemma to_long_id [cpp_conv]: "- (2 ^ 63) \<le> x \<Longrightarrow> x < 2 ^ 63 \<Longrightarrow> to_long x = x"
  by (simp add: to_long_def)

lemma to_size_t_id [cpp_conv]: "0 \<le> x \<Longrightarrow> x < 2 ^ 64 \<Longrightarrow> to_size_t x = x"
  by (simp add: to_size_t_def)

lemma to_uint32_range: "0 \<le> to_uint32 x" "to_uint32 x < 2 ^ 32"
  by (simp_all add: to_uint32_def)

lemma to_int32_range: "- (2 ^ 31) \<le> to_int32 x" "to_int32 x < 2 ^ 31"
proof -
  have "0 \<le> (x + 2 ^ 31) mod 2 ^ 32" and "(x + 2 ^ 31) mod 2 ^ 32 < 2 ^ 32"
    by simp_all
  then show "- (2 ^ 31) \<le> to_int32 x" and "to_int32 x < 2 ^ 31"
    unfolding to_int32_def by simp_all
qed

section \<open>C strings\<close>

text \<open>\<open>std::string::c_str()\<close> read by a C function stops at the first NUL.\<close>

definition NUL :: char where
  "NUL = CHR 0x00"

definition c_str :: "string \<Rightarrow> string" where
  "c_str s = takeWhile (\<lambda>c. c \<noteq> NUL) s"

lemma c_str_id: "NUL \<notin> set s \<Longrightarrow> c_str s = s"
  by (auto simp: c_str_def takeWhile_eq_all_conv)

lemma c_str_append: "NUL \<notin> set s \<Longrightarrow> c_str (s @ t) = s @ c_str t"
  by (induction s) (auto simp: c_str_def)

definition isspace :: "char \<Rightarrow> bool" where
  "isspace c \<longleftrightarrow> c \<in> {CHR 0x09, CHR 0x0A, CHR 0x0B, CHR 0x0C, CHR 0x0D, CHR '' ''}"

definition digit_val :: "char \<Rightarrow> nat" where
  "digit_val c = of_char c - 48"

definition isdigit :: "char \<Rightarrow> bool" where
  "isdigit c \<longleftrightarrow> c \<in> set ''0123456789''"

fun digits_val :: "nat \<Rightarrow> string \<Rightarrow> nat" where
  "digits_val n [] = n"
| "digits_val n (c # cs) = (if isdigit c then digits_val (10 * n + digit_val c) cs else n)"

text \<open>
  \<open>atoi(p)\<close> is \<open>(int) strtol(p, NULL, 10)\<close>: leading white space, an optional sign, the
  longest run of digits; \<open>strtol\<close> saturates at the range of \<open>long\<close> and the cast to
  \<open>int\<close> keeps the low 32 bits.
\<close>

definition strtol10 :: "string \<Rightarrow> int" where
  "strtol10 s =
     (let t = dropWhile isspace s;
          v = (case t of
                 [] \<Rightarrow> 0
               | c # cs \<Rightarrow>
                   if c = CHR ''-'' then - int (digits_val 0 cs)
                   else if c = CHR ''+'' then int (digits_val 0 cs)
                   else int (digits_val 0 t))
      in max (- (2 ^ 63)) (min (2 ^ 63 - 1) v))"

definition atoi :: "string \<Rightarrow> int" where
  "atoi s = to_int32 (strtol10 s)"

text \<open>The decimal numeral that \<open>std::to_string\<close> prints.\<close>

definition digit_chr :: "nat \<Rightarrow> char" where
  "digit_chr d = ''0123456789'' ! d"

fun to_string_nat :: "nat \<Rightarrow> string" where
  "to_string_nat n =
     (if n < 10 then [digit_chr n] else to_string_nat (n div 10) @ [digit_chr (n mod 10)])"

declare to_string_nat.simps [simp del]

lemma isdigit_not_space: "isdigit c \<Longrightarrow> \<not> isspace c \<and> c \<noteq> CHR ''-'' \<and> c \<noteq> CHR ''+''"
  by (auto simp: isdigit_def isspace_def)

lemma digit_chr: "d < 10 \<Longrightarrow> isdigit (digit_chr d) \<and> digit_val (digit_chr d) = d"
proof -
  assume "d < 10"
  then have "d \<in> {0, 1, 2, 3, 4, 5, 6, 7, 8, 9}" by auto
  then show ?thesis
    by (elim insertE emptyE) (simp_all add: isdigit_def digit_val_def digit_chr_def)
qed

lemma digits_val_append:
  "\<forall>c \<in> set ds. isdigit c \<Longrightarrow> digits_val n (ds @ t) = digits_val (digits_val n ds) t"
  by (induction ds arbitrary: n) auto

lemma to_string_nat_digits: "\<forall>c \<in> set (to_string_nat n). isdigit c"
proof (induction n rule: to_string_nat.induct)
  case (1 n)
  then show ?case
    by (subst to_string_nat.simps) (auto simp: digit_chr)
qed

lemma digit_not_NUL: "NUL \<notin> set (to_string_nat n)"
proof
  assume "NUL \<in> set (to_string_nat n)"
  then have "isdigit NUL" using to_string_nat_digits [of n] by blast
  then show False by (simp add: isdigit_def NUL_def)
qed

lemma to_string_nat_nonempty: "to_string_nat n \<noteq> []"
  by (subst to_string_nat.simps) simp

lemma digits_val_to_string: "digits_val 0 (to_string_nat n) = n"
proof (induction n rule: to_string_nat.induct)
  case (1 n)
  then show ?case
    by (subst to_string_nat.simps)
      (simp add: digit_chr digits_val_append to_string_nat_digits)
qed

lemma to_string_nat_inject: "to_string_nat m = to_string_nat n \<longleftrightarrow> m = n"
  by (metis digits_val_to_string)

lemma digits_val_stop: "(case t of [] \<Rightarrow> True | c # _ \<Rightarrow> \<not> isdigit c) \<Longrightarrow> digits_val n t = n"
  by (cases t) auto

text \<open>\<open>atoi\<close> reads back what \<open>to_string\<close> prints, behind white space and before a non-digit.\<close>

lemma atoi_to_string:
  assumes "\<forall>c \<in> set ws. isspace c" and "n < 2 ^ 31"
    and "case t of [] \<Rightarrow> True | c # _ \<Rightarrow> \<not> isdigit c"
  shows "atoi (ws @ to_string_nat n @ t) = int n"
proof -
  obtain d ds where d: "to_string_nat n = d # ds"
    using to_string_nat_nonempty by (cases "to_string_nat n") auto
  have "isdigit d" using to_string_nat_digits [of n] d by simp
  then have drop: "dropWhile isspace (ws @ to_string_nat n @ t) = d # ds @ t"
    using assms(1) d isdigit_not_space by (simp add: dropWhile_append2)
  have "digits_val 0 (to_string_nat n @ t) = n"
    using digits_val_append [OF to_string_nat_digits]
    by (simp add: digits_val_to_string digits_val_stop assms(3))
  then have val: "digits_val 0 (d # ds @ t) = n" using d by simp
  have "strtol10 (ws @ to_string_nat n @ t) = int n"
    unfolding strtol10_def drop Let_def
    using assms(2) isdigit_not_space [OF \<open>isdigit d\<close>] val
    by (simp del: digits_val.simps)
  then show ?thesis
    using assms(2) by (simp add: atoi_def to_int32_id)
qed

text \<open>\<open>std::string(first, last)\<close> of two positions in a text.\<close>

definition range_str :: "string \<Rightarrow> nat \<Rightarrow> nat \<Rightarrow> string" where
  "range_str buf a b = take (b - a) (drop a buf)"

text \<open>Text up to a separator that does not occur in it.\<close>

lemma takeWhile_sep: "x \<notin> set k \<Longrightarrow> takeWhile (\<lambda>c. c \<noteq> x) (k @ x # v) = k"
  by (induction k) auto

lemma dropWhile_sep: "x \<notin> set k \<Longrightarrow> dropWhile (\<lambda>c. c \<noteq> x) (k @ x # v) = x # v"
  by (induction k) auto

section \<open>Runs of a sequential component\<close>

text \<open>
  A component is called again and again, each time with an argument of its own; the answers are
  collected, and the first fault ends the run.
\<close>

fun run_ops :: "('o \<Rightarrow> 's \<Rightarrow> ('a \<times> 's) result) \<Rightarrow> 'o list \<Rightarrow> 's \<Rightarrow> ('a list \<times> 's) result" where
  "run_ops f [] s = Inr ([], s)"
| "run_ops f (op # ops) s =
     rbind (f op s) (\<lambda>(a, s'). rbind (run_ops f ops s') (\<lambda>(as, t). Inr (a # as, t)))"

text \<open>
  A functional refinement: on states that satisfy the invariant a call gives the answer, or the
  fault, of the specified call on the abstract state. The same then holds of whole runs.
\<close>

locale functional_refinement =
  fixes inv :: "'s \<Rightarrow> bool"
    and abs :: "'s \<Rightarrow> 'b"
    and impl :: "'o \<Rightarrow> 's \<Rightarrow> ('a \<times> 's) result"
    and spec :: "'o \<Rightarrow> 'b \<Rightarrow> ('a \<times> 'b) result"
  assumes commutes: "inv s \<Longrightarrow> spec op (abs s) = map_sum id (map_prod id abs) (impl op s)"
    and keeps: "inv s \<Longrightarrow> impl op s = Inr (a, s') \<Longrightarrow> inv s'"
begin

lemma run_keeps: "inv s \<Longrightarrow> run_ops impl ops s = Inr (as, t) \<Longrightarrow> inv t"
proof (induction ops arbitrary: s as)
  case (Cons op ops)
  then show ?case by (auto intro: keeps)
qed simp

lemma run_commutes:
  "inv s \<Longrightarrow> run_ops spec ops (abs s) = map_sum id (map_prod id abs) (run_ops impl ops s)"
proof (induction ops arbitrary: s)
  case (Cons op ops)
  show ?case
  proof (cases "impl op s")
    case (Inl e)
    then show ?thesis using commutes [OF Cons.prems, of op] by simp
  next
    case (Inr r)
    then obtain a s' where r: "impl op s = Inr (a, s')" by (cases r) auto
    then have "run_ops spec ops (abs s') = map_sum id (map_prod id abs) (run_ops impl ops s')"
      using Cons keeps by blast
    then show ?thesis
      using r commutes [OF Cons.prems, of op] by (cases "run_ops impl ops s'") auto
  qed
qed simp

end

section \<open>Transition systems\<close>

text \<open>
  The concurrent components (the shared memory cache, the process mutex, the task queue)
  are step relations. Each interprets this locale with its initial states, its steps and
  its invariant; the rule that reachable states satisfy the invariant is proved here once.
\<close>

inductive reach :: "('s \<Rightarrow> bool) \<Rightarrow> ('s \<Rightarrow> 's \<Rightarrow> bool) \<Rightarrow> 's \<Rightarrow> bool"
  for init :: "'s \<Rightarrow> bool" and step :: "'s \<Rightarrow> 's \<Rightarrow> bool" where
  reach_init: "init s \<Longrightarrow> reach init step s"
| reach_step: "reach init step s \<Longrightarrow> step s t \<Longrightarrow> reach init step t"

locale transition_system =
  fixes init :: "'s \<Rightarrow> bool"
    and step :: "'s \<Rightarrow> 's \<Rightarrow> bool"
    and inv :: "'s \<Rightarrow> bool"
  assumes init_inv: "init s \<Longrightarrow> inv s"
    and step_inv: "inv s \<Longrightarrow> step s t \<Longrightarrow> inv t"
begin

lemma reach_inv: "reach init step s \<Longrightarrow> inv s"
  by (induction rule: reach.induct) (auto intro: init_inv step_inv)

lemma steps_inv: "step\<^sup>*\<^sup>* s t \<Longrightarrow> inv s \<Longrightarrow> inv t"
  by (induction rule: rtranclp_induct) (auto intro: step_inv)

end

text \<open>
  A simulation: every step of the system is a step of an abstract one, or leaves the abstract
  state as it is. Reachable states are then related to reachable abstract states.
\<close>

locale simulation = transition_system init step inv
  for init :: "'s \<Rightarrow> bool" and step :: "'s \<Rightarrow> 's \<Rightarrow> bool" and inv :: "'s \<Rightarrow> bool" +
  fixes rel :: "'s \<Rightarrow> 'a \<Rightarrow> bool"
    and ainit :: "'a \<Rightarrow> bool"
    and astep :: "'a \<Rightarrow> 'a \<Rightarrow> bool"
  assumes init_sim: "init s \<Longrightarrow> \<exists>a. rel s a \<and> ainit a"
    and step_sim: "inv s \<Longrightarrow> rel s a \<Longrightarrow> step s t \<Longrightarrow> \<exists>a'. rel t a' \<and> (a' = a \<or> astep a a')"
begin

lemma reach_sim: "reach init step s \<Longrightarrow> \<exists>a. rel s a \<and> reach ainit astep a"
proof (induction rule: reach.induct)
  case (reach_init s)
  then obtain a where a: "rel s a" "ainit a" using init_sim by blast
  then show ?case using reach.reach_init [of ainit a astep] by auto
next
  case (reach_step s t)
  then obtain a where a: "rel s a" "reach ainit astep a" by blast
  obtain a' where "rel t a'" "a' = a \<or> astep a a'"
    using step_sim [OF reach_inv [OF reach_step(1)] a(1) reach_step(2)] by blast
  then show ?case using a(2) reach.reach_step [of ainit astep a a'] by auto
qed

lemma steps_sim: "step\<^sup>*\<^sup>* s t \<Longrightarrow> inv s \<Longrightarrow> rel s a \<Longrightarrow> \<exists>a'. rel t a' \<and> astep\<^sup>*\<^sup>* a a'"
proof (induction rule: rtranclp_induct)
  case (step t u)
  then obtain a1 where a1: "rel t a1" "astep\<^sup>*\<^sup>* a a1" by blast
  have "inv t" using steps_inv [OF step(1) step.prems(1)] .
  then obtain a2 where "rel u a2" "a2 = a1 \<or> astep a1 a2" using step_sim [OF _ a1(1) step(2)] by blast
  then show ?case using a1(2) by (blast intro: rtranclp.rtrancl_into_rtrancl)
qed blast

end

text \<open>
  Steps that each use up one unit of a finite amount of work, and are possible while there is
  work: every run ends after exactly this many steps, in whatever order they come.
\<close>

locale counted_steps =
  fixes step :: "'s \<Rightarrow> 's \<Rightarrow> bool" and inv :: "'s \<Rightarrow> bool" and work :: "'s \<Rightarrow> nat"
  assumes keeps: "inv s \<Longrightarrow> step s t \<Longrightarrow> inv t"
    and uses_one: "inv s \<Longrightarrow> step s t \<Longrightarrow> work s = Suc (work t)"
    and enabled: "inv s \<Longrightarrow> 0 < work s \<Longrightarrow> \<exists>t. step s t"
begin

lemma count: "(step ^^ n) s t \<Longrightarrow> inv s \<Longrightarrow> inv t \<and> work s = work t + n"
proof (induction n arbitrary: t)
  case (Suc n)
  then obtain u where "(step ^^ n) s u" "step u t" by auto
  then show ?case using Suc.IH [of u] Suc.prems(2) keeps [of u t] uses_one [of u t] by auto
qed simp

lemma goes_on: "(step ^^ n) s t \<Longrightarrow> inv s \<Longrightarrow> n < work s \<Longrightarrow> \<exists>u. step t u"
  using count [of n s t] enabled [of t] by simp

lemma stops: "(step ^^ n) s t \<Longrightarrow> inv s \<Longrightarrow> n \<le> work s"
  using count [of n s t] by simp

lemma run_exists: "inv s \<Longrightarrow> n \<le> work s \<Longrightarrow> \<exists>t. (step ^^ n) s t"
proof (induction n)
  case (Suc n)
  then obtain t where "(step ^^ n) s t" by auto
  then show ?case using goes_on [of n s t] Suc.prems by auto
qed auto

end

end
