(* ===== verification/Acceptor.thy ===== *)
theory Acceptor
  imports Prelude
begin

text \<open>
  \<open>class Acceptor\<close> of \<open>src/ModifiedMuduo/Acceptor.h\<close>, \<open>Acceptor.cpp\<close>: the listening socket
  of a server, modified so that listening can be switched off and on again.

  The channel is the flag that says whether the event loop reports the socket as readable.
  The results of the system calls that \<open>handleRead\<close> makes are its arguments; what it does to
  descriptors and which connection it hands to the server are its output.
\<close>

record Acceptor =
  ac_listenning :: bool
  ac_startListenTime :: int
  ac_idleFd :: int
  ac_socketListens :: bool     \<comment> \<open>\<open>acceptSocket_.listen()\<close> was called\<close>
  ac_reading :: bool           \<comment> \<open>\<open>acceptChannel_\<close> is enabled for reading\<close>
  ac_hasCallback :: bool

datatype fd_action =
    New_Connection int    \<comment> \<open>\<open>newConnectionCallback_(connfd, peerAddr)\<close>\<close>
  | Close_Fd int
  | Accepted_Fd int
  | Opened_Fd int

definition Acceptor_new :: "int \<Rightarrow> Acceptor result" where
  "Acceptor_new idle =
     (if idle < 0 then Inl Assert_Fail
      else Inr \<lparr>ac_listenning = False, ac_startListenTime = -1, ac_idleFd = idle,
                ac_socketListens = False, ac_reading = False, ac_hasCallback = False\<rparr>)"

definition setNewConnectionCallback :: "Acceptor \<Rightarrow> Acceptor" where
  "setNewConnectionCallback a = a\<lparr>ac_hasCallback := True\<rparr>"

definition listenning :: "Acceptor \<Rightarrow> bool" where
  [simp]: "listenning a = ac_listenning a"

definition Acceptor_listen :: "int \<Rightarrow> Acceptor \<Rightarrow> Acceptor" where
  "Acceptor_listen now a =
     (let a1 = a\<lparr>ac_listenning := True\<rparr>;
          a2 = (if ac_startListenTime a1 = -1 then a1\<lparr>ac_socketListens := True\<rparr> else a1)
      in a2\<lparr>ac_reading := True, ac_startListenTime := now\<rparr>)"

definition Acceptor_enableListen :: "Acceptor \<Rightarrow> Acceptor" where
  "Acceptor_enableListen a = a\<lparr>ac_listenning := True, ac_reading := True\<rparr>"

definition Acceptor_disableListen :: "Acceptor \<Rightarrow> Acceptor" where
  "Acceptor_disableListen a = a\<lparr>ac_listenning := False, ac_reading := False\<rparr>"

definition EMFILE :: int where
  "EMFILE = 24"

definition Acceptor_handleRead :: "int \<Rightarrow> int \<Rightarrow> int \<Rightarrow> int \<Rightarrow> Acceptor \<Rightarrow> fd_action list \<times> Acceptor" where
  "Acceptor_handleRead connfd errno accepted opened a =
     (if 0 \<le> connfd
      then (if ac_hasCallback a then ([New_Connection connfd], a) else ([Close_Fd connfd], a))
      else if errno = EMFILE
           then ([Close_Fd (ac_idleFd a), Accepted_Fd accepted, Close_Fd accepted, Opened_Fd opened],
                 a\<lparr>ac_idleFd := opened\<rparr>)
           else ([], a))"

definition Acceptor_delete :: "Acceptor \<Rightarrow> fd_action list \<times> Acceptor" where
  "Acceptor_delete a = ([Close_Fd (ac_idleFd a)], a\<lparr>ac_reading := False\<rparr>)"

section \<open>Descriptors\<close>

text \<open>The descriptors of the process after some actions; a failed call gives a negative number.\<close>

fun fds_after :: "fd_action list \<Rightarrow> int set \<Rightarrow> int set" where
  "fds_after [] D = D"
| "fds_after (New_Connection fd # as) D = fds_after as (insert fd D)"
| "fds_after (Close_Fd fd # as) D = fds_after as (D - {fd})"
| "fds_after (Accepted_Fd fd # as) D = fds_after as (if 0 \<le> fd then insert fd D else D)"
| "fds_after (Opened_Fd fd # as) D = fds_after as (if 0 \<le> fd then insert fd D else D)"

text \<open>The invariant of the class: the two notions of listening agree, and the spare is open.\<close>

definition acceptor_inv :: "int set \<Rightarrow> Acceptor \<Rightarrow> bool" where
  [inv_defs]: "acceptor_inv D a \<longleftrightarrow> ac_listenning a = ac_reading a \<and> 0 \<le> ac_idleFd a \<and> ac_idleFd a \<in> D"

lemma listen_inv: "acceptor_inv D a \<Longrightarrow> acceptor_inv D (Acceptor_listen now a)"
  by (simp add: acceptor_inv_def Acceptor_listen_def Let_def)

lemma enableListen_inv: "acceptor_inv D a \<Longrightarrow> acceptor_inv D (Acceptor_enableListen a)"
  by (simp add: acceptor_inv_def Acceptor_enableListen_def)

lemma disableListen_inv: "acceptor_inv D a \<Longrightarrow> acceptor_inv D (Acceptor_disableListen a)"
  by (simp add: acceptor_inv_def Acceptor_disableListen_def)

text \<open>
  Running out of descriptors does not wedge the acceptor. When \<open>accept\<close> fails with
  \<open>EMFILE\<close>, the spare descriptor is given up for the pending connection (which is closed) and
  got back: if the system calls give the lowest free descriptor, the process has exactly the
  descriptors it had, the spare is open again, and no connection reaches the server.
\<close>

lemma acceptor_emfile:
  assumes "acceptor_inv D a" and "Acceptor_handleRead connfd EMFILE accepted opened a = (as, a')"
    and "connfd < 0" and "accepted = ac_idleFd a" and "opened = ac_idleFd a"
  shows "fds_after as D = D \<and> acceptor_inv (fds_after as D) a' \<and> a' = a \<and>
    (\<forall>fd. New_Connection fd \<notin> set as) \<and> Close_Fd accepted \<in> set as"
proof -
  have "as = [Close_Fd (ac_idleFd a), Accepted_Fd (ac_idleFd a), Close_Fd (ac_idleFd a), Opened_Fd (ac_idleFd a)]"
    and a': "a' = a\<lparr>ac_idleFd := ac_idleFd a\<rparr>"
    using assms(2-5) by (auto simp: Acceptor_handleRead_def)
  then show ?thesis using assms(1,4) by (cases a) (auto simp: acceptor_inv_def)
qed

lemma acceptor_emfile_example:
  "\<exists>as a'. Acceptor_handleRead (-1) EMFILE 9 9 \<lparr>ac_listenning = True, ac_startListenTime = 5, ac_idleFd = 9,
      ac_socketListens = True, ac_reading = True, ac_hasCallback = True\<rparr> = (as, a') \<and> fds_after as {3, 9} = {3, 9}"
proof -
  let ?a = "\<lparr>ac_listenning = True, ac_startListenTime = 5, ac_idleFd = 9,
      ac_socketListens = True, ac_reading = True, ac_hasCallback = True\<rparr>"
  obtain as a' where h: "Acceptor_handleRead (-1) EMFILE 9 9 ?a = (as, a')" by (metis surj_pair)
  then show ?thesis
    using acceptor_emfile [of "{3, 9}" ?a "-1" 9 9 as a'] by (auto simp: acceptor_inv_def)
qed

end
