(* ===== verification/Round_Robin.thy ===== *)
theory Round_Robin
  imports Prelude
begin

text \<open>
  Round-robin selection, the contract that the event-loop pool (\<open>getNextLoop\<close>) and the
  master process (\<open>notify\<close>) have in common: \<open>pick\<close> gives the item under the cursor and moves
  the cursor on, around the end of the list. \<open>allowed n s\<close> says that \<open>n\<close> further picks are
  defined (a counter of a machine type does not overflow). Each component interprets the
  locale on its own operation.
\<close>

locale round_robin =
  fixes pick :: "'s \<Rightarrow> ('a \<times> 's) result"
    and items :: "'s \<Rightarrow> 'a list"
    and cursor :: "'s \<Rightarrow> nat"
    and allowed :: "nat \<Rightarrow> 's \<Rightarrow> bool"
  assumes cursor_bound: "allowed n s \<Longrightarrow> cursor s < length (items s)"
    and pick_step: "allowed (Suc n) s \<Longrightarrow>
          \<exists>s'. pick s = Inr (items s ! cursor s, s') \<and> items s' = items s \<and>
               cursor s' = (cursor s + 1) mod length (items s) \<and> allowed n s'"
begin

fun picks :: "nat \<Rightarrow> 's \<Rightarrow> ('a list \<times> 's) result" where
  "picks 0 s = Inr ([], s)"
| "picks (Suc n) s = rbind (pick s) (\<lambda>(x, s1). rbind (picks n s1) (\<lambda>(xs, s2). Inr (x # xs, s2)))"

lemma picks_run:
  "allowed n s \<Longrightarrow> \<exists>s'. picks n s =
     Inr (map (\<lambda>k. items s ! ((cursor s + k) mod length (items s))) [0..<n], s') \<and>
     items s' = items s \<and> cursor s' = (cursor s + n) mod length (items s)"
proof (induction n arbitrary: s)
  case 0
  then show ?case using cursor_bound by simp
next
  case (Suc n)
  let ?l = "length (items s)"
  obtain s1 where s1: "pick s = Inr (items s ! cursor s, s1)" "items s1 = items s"
      "cursor s1 = (cursor s + 1) mod ?l" "allowed n s1"
    using pick_step [OF Suc.prems] by blast
  obtain s2 where s2: "picks n s1 =
      Inr (map (\<lambda>k. items s1 ! ((cursor s1 + k) mod length (items s1))) [0..<n], s2)"
      "items s2 = items s1" "cursor s2 = (cursor s1 + n) mod length (items s1)"
    using Suc.IH [OF s1(4)] by blast
  have "map (\<lambda>k. items s1 ! ((cursor s1 + k) mod length (items s1))) [0..<n] =
      map (\<lambda>k. items s ! ((cursor s + k) mod ?l)) (map Suc [0..<n])"
    using s1(2,3) by (simp add: mod_add_left_eq)
  moreover have "[0..<Suc n] = 0 # map Suc [0..<n]"
    by (simp add: upt_conv_Cons map_Suc_upt del: upt_Suc)
  moreover have "cursor s mod ?l = cursor s" using cursor_bound [OF Suc.prems] by simp
  moreover have "(cursor s1 + n) mod ?l = (cursor s + Suc n) mod ?l"
    using s1(3) by (simp add: mod_add_left_eq)
  ultimately show ?case using s1 s2 by (simp del: upt_Suc)
qed

text \<open>From the first item on, whole rounds give the whole list again and again.\<close>

lemma map_cycle:
  assumes "xs \<noteq> []"
  shows "map (\<lambda>k. xs ! (k mod length xs)) [0..<r * length xs] = concat (replicate r xs)"
proof (induction r)
  case (Suc r)
  have "[0..<Suc r * length xs] = [0..<r * length xs] @ map (\<lambda>k. k + r * length xs) [0..<length xs]"
    using upt_add_eq_append [of 0 "r * length xs" "length xs"] by (simp add: map_add_upt add.commute)
  moreover have "map (\<lambda>k. xs ! ((k + r * length xs) mod length xs)) [0..<length xs] = xs"
    by (rule nth_equalityI) simp_all
  moreover have "concat (replicate (Suc r) xs) = concat (replicate r xs) @ xs"
    by (induction r) simp_all
  ultimately show ?case using Suc.IH by (simp add: comp_def)
qed simp

lemma picks_rounds:
  assumes "allowed (r * length (items s)) s" and "cursor s = 0"
  shows "\<exists>s'. picks (r * length (items s)) s = Inr (concat (replicate r (items s)), s') \<and>
    items s' = items s \<and> cursor s' = 0"
proof -
  have "items s \<noteq> []" using cursor_bound [OF assms(1)] by auto
  then show ?thesis
    using picks_run [OF assms(1)] assms(2) map_cycle [of "items s" r] by simp
qed

end

end
