(* ===== verification/Event_Loop_Pool.thy ===== *)
theory Event_Loop_Pool
  imports Round_Robin
begin

text \<open>
  \<open>EventLoopThread\<close> and \<open>EventLoopThreadPool\<close> of \<open>src/ModifiedMuduo\<close>: the IO threads of a
  server, the choice of a loop for a new connection, and the map from loops to producers.

  An \<open>EventLoop*\<close> and a \<open>Producer*\<close> are addresses (\<open>nat\<close>). Each thread's loop lives on that
  thread's stack; its address is given from outside, as is the value that the uninitialised
  member \<open>producer_\<close> has. The callback that a thread runs first acts on a world \<open>'w\<close> and gets
  the pointers by value. All calls are made in the base loop's thread
  (\<open>assertInLoopThread\<close>).
\<close>

section \<open>A thread with a loop\<close>

type_synonym loop_ptr = nat

type_synonym producer_ptr = nat

type_synonym 'w thread_init = "producer_ptr \<Rightarrow> loop_ptr \<Rightarrow> 'w \<Rightarrow> 'w"

record EventLoopThread =
  et_loop :: "loop_ptr option"
  et_producer :: producer_ptr
  et_exiting :: bool
  et_started :: bool

text \<open>The constructors leave \<open>producer_\<close> as it is.\<close>

definition EventLoopThread_new :: "producer_ptr \<Rightarrow> EventLoopThread" where
  "EventLoopThread_new junk =
     \<lparr>et_loop = None, et_producer = junk, et_exiting = False, et_started = False\<rparr>"

text \<open>\<open>threadFunc\<close> up to \<open>loop.loop()\<close>, and after it.\<close>

definition threadFunc :: "'w thread_init option \<Rightarrow> loop_ptr \<Rightarrow> EventLoopThread \<Rightarrow> 'w \<Rightarrow> EventLoopThread \<times> 'w" where
  "threadFunc initCallback lp t w =
     (let w1 = (case initCallback of None \<Rightarrow> w | Some cb \<Rightarrow> cb (et_producer t) lp w)
      in (t\<lparr>et_loop := Some lp\<rparr>, w1))"

definition threadFunc_return :: "EventLoopThread \<Rightarrow> EventLoopThread" where
  "threadFunc_return t = t\<lparr>et_loop := None\<rparr>"

text \<open>\<open>startLoop\<close> starts the thread and waits until \<open>loop_\<close> is set.\<close>

definition startLoop :: "'w thread_init option \<Rightarrow> loop_ptr \<Rightarrow> EventLoopThread \<Rightarrow> 'w
    \<Rightarrow> (loop_ptr \<times> EventLoopThread \<times> 'w) result" where
  "startLoop initCallback lp t w =
     (if et_started t then Inl Assert_Fail
      else let (t1, w1) = threadFunc initCallback lp (t\<lparr>et_started := True\<rparr>) w
           in (case et_loop t1 of None \<Rightarrow> Inl Spin | Some l \<Rightarrow> Inr (l, t1, w1)))"

text \<open>The destructor asks a running loop to quit and waits for the thread to end.\<close>

definition EventLoopThread_delete :: "EventLoopThread \<Rightarrow> EventLoopThread" where
  "EventLoopThread_delete t =
     (let t1 = t\<lparr>et_exiting := True\<rparr>
      in if et_loop t1 \<noteq> None then threadFunc_return t1 else t1)"

definition EventLoopThread_getProducer :: "EventLoopThread \<Rightarrow> producer_ptr" where
  "EventLoopThread_getProducer t = et_producer t"

section \<open>The pool\<close>

record EventLoopThreadPool =
  ep_baseLoop :: loop_ptr
  ep_name :: string
  ep_started :: bool
  ep_numThreads :: int
  ep_next :: nat
  ep_threads :: "EventLoopThread list"
  ep_loops :: "loop_ptr list"
  ep_ProducerMap :: "loop_ptr \<rightharpoonup> producer_ptr"

definition EventLoopThreadPool_new :: "loop_ptr \<Rightarrow> string \<Rightarrow> EventLoopThreadPool" where
  "EventLoopThreadPool_new base nm = \<lparr>ep_baseLoop = base, ep_name = nm, ep_started = False,
     ep_numThreads = 0, ep_next = 0, ep_threads = [], ep_loops = [], ep_ProducerMap = Map.empty\<rparr>"

definition pool_setThreadNum :: "int \<Rightarrow> EventLoopThreadPool \<Rightarrow> EventLoopThreadPool" where
  "pool_setThreadNum n p = p\<lparr>ep_numThreads := n\<rparr>"

text \<open>
  The bodies of the two loops of \<open>start\<close>. \<open>addr\<close> and \<open>junk\<close> give the address of the i-th
  thread's loop and the value that its \<open>producer_\<close> has; only the overload that takes a
  callback with a producer fills the map.
\<close>

definition start_thread :: "bool \<Rightarrow> 'w thread_init option \<Rightarrow> (nat \<Rightarrow> loop_ptr) \<Rightarrow> (nat \<Rightarrow> producer_ptr) \<Rightarrow> nat
    \<Rightarrow> EventLoopThreadPool \<Rightarrow> 'w \<Rightarrow> (EventLoopThreadPool \<times> 'w) result" where
  "start_thread with_producer cb addr junk i p w =
     rbind (startLoop cb (addr i) (EventLoopThread_new (junk i)) w) (\<lambda>(l, t, w1).
       let p1 = p\<lparr>ep_threads := ep_threads p @ [t], ep_loops := ep_loops p @ [l]\<rparr>
       in Inr (if with_producer
               then p1\<lparr>ep_ProducerMap := (ep_ProducerMap p1)(l \<mapsto> EventLoopThread_getProducer t)\<rparr>
               else p1, w1))"

fun start_threads :: "bool \<Rightarrow> 'w thread_init option \<Rightarrow> (nat \<Rightarrow> loop_ptr) \<Rightarrow> (nat \<Rightarrow> producer_ptr) \<Rightarrow> nat list
    \<Rightarrow> EventLoopThreadPool \<Rightarrow> 'w \<Rightarrow> (EventLoopThreadPool \<times> 'w) result" where
  "start_threads b cb addr junk [] p w = Inr (p, w)"
| "start_threads b cb addr junk (i # is) p w =
     rbind (start_thread b cb addr junk i p w) (\<lambda>(p1, w1). start_threads b cb addr junk is p1 w1)"

text \<open>
  \<open>start(const ThreadInitCallback&)\<close>: the threads store the callback in \<open>callback_\<close>, which
  \<open>threadFunc\<close> does not look at; with no threads it is called for the base loop.
\<close>

definition pool_start_plain :: "(loop_ptr \<Rightarrow> 'w \<Rightarrow> 'w) option \<Rightarrow> (nat \<Rightarrow> loop_ptr) \<Rightarrow> (nat \<Rightarrow> producer_ptr)
    \<Rightarrow> EventLoopThreadPool \<Rightarrow> 'w \<Rightarrow> (EventLoopThreadPool \<times> 'w) result" where
  "pool_start_plain cb addr junk p w =
     (if ep_started p then Inl Assert_Fail
      else rbind (start_threads False None addr junk [0..<nat (ep_numThreads p)] (p\<lparr>ep_started := True\<rparr>) w)
        (\<lambda>(p1, w1). Inr (p1, if ep_numThreads p = 0
                               then (case cb of None \<Rightarrow> w1 | Some f \<Rightarrow> f (ep_baseLoop p) w1) else w1)))"

text \<open>\<open>start(const ThreadInitWithProducerCallback&)\<close>: with no threads the callback is not called.\<close>

definition pool_start :: "'w thread_init option \<Rightarrow> (nat \<Rightarrow> loop_ptr) \<Rightarrow> (nat \<Rightarrow> producer_ptr)
    \<Rightarrow> EventLoopThreadPool \<Rightarrow> 'w \<Rightarrow> (EventLoopThreadPool \<times> 'w) result" where
  "pool_start cb addr junk p w =
     (if ep_started p then Inl Assert_Fail
      else start_threads True cb addr junk [0..<nat (ep_numThreads p)] (p\<lparr>ep_started := True\<rparr>) w)"

definition getNextLoop :: "EventLoopThreadPool \<Rightarrow> (loop_ptr \<times> EventLoopThreadPool) result" where
  "getNextLoop p =
     (if \<not> ep_started p then Inl Assert_Fail
      else if ep_loops p = [] then Inr (ep_baseLoop p, p)
      else if length (ep_loops p) \<le> ep_next p then Inl Out_Of_Bounds
      else Inr (ep_loops p ! ep_next p,
                p\<lparr>ep_next := if length (ep_loops p) \<le> Suc (ep_next p) then 0 else Suc (ep_next p)\<rparr>))"

definition getLoopForHash :: "nat \<Rightarrow> EventLoopThreadPool \<Rightarrow> loop_ptr" where
  "getLoopForHash hashCode p =
     (if ep_loops p = [] then ep_baseLoop p else ep_loops p ! (hashCode mod length (ep_loops p)))"

definition getAllLoops :: "EventLoopThreadPool \<Rightarrow> loop_ptr list result" where
  "getAllLoops p =
     (if \<not> ep_started p then Inl Assert_Fail
      else Inr (if ep_loops p = [] then [ep_baseLoop p] else ep_loops p))"

definition pool_started :: "EventLoopThreadPool \<Rightarrow> bool" where
  [simp]: "pool_started p = ep_started p"

definition pool_name :: "EventLoopThreadPool \<Rightarrow> string" where
  [simp]: "pool_name p = ep_name p"

definition pool_getProducer :: "loop_ptr \<Rightarrow> EventLoopThreadPool \<Rightarrow> producer_ptr option" where
  "pool_getProducer l p = ep_ProducerMap p l"

section \<open>What \<open>start\<close> builds\<close>

definition run_init :: "'w thread_init option \<Rightarrow> (nat \<Rightarrow> loop_ptr) \<Rightarrow> (nat \<Rightarrow> producer_ptr) \<Rightarrow> nat \<Rightarrow> 'w \<Rightarrow> 'w" where
  "run_init cb addr junk i w = (case cb of None \<Rightarrow> w | Some f \<Rightarrow> f (junk i) (addr i) w)"

definition started_thread :: "(nat \<Rightarrow> loop_ptr) \<Rightarrow> (nat \<Rightarrow> producer_ptr) \<Rightarrow> nat \<Rightarrow> EventLoopThread" where
  "started_thread addr junk i =
     \<lparr>et_loop = Some (addr i), et_producer = junk i, et_exiting = False, et_started = True\<rparr>"

lemma start_thread_run:
  "start_thread b cb addr junk i p w =
    Inr (p\<lparr>ep_threads := ep_threads p @ [started_thread addr junk i], ep_loops := ep_loops p @ [addr i],
           ep_ProducerMap := if b then (ep_ProducerMap p)(addr i \<mapsto> junk i) else ep_ProducerMap p\<rparr>,
         run_init cb addr junk i w)"
  by (cases p) (simp add: start_thread_def startLoop_def threadFunc_def EventLoopThread_new_def
      EventLoopThread_getProducer_def started_thread_def run_init_def Let_def split: option.split)

lemma start_threads_run:
  "\<exists>p'. start_threads b cb addr junk is p w = Inr (p', fold (run_init cb addr junk) is w) \<and>
    ep_loops p' = ep_loops p @ map addr is \<and> length (ep_threads p') = length (ep_threads p) + length is \<and>
    ep_ProducerMap p' =
      (if b then fold (\<lambda>i m. m(addr i \<mapsto> junk i)) is (ep_ProducerMap p) else ep_ProducerMap p) \<and>
    ep_baseLoop p' = ep_baseLoop p \<and> ep_started p' = ep_started p \<and> ep_next p' = ep_next p"
proof (induction "is" arbitrary: p w)
  case (Cons i "is")
  show ?case
    using Cons.IH [of "p\<lparr>ep_threads := ep_threads p @ [started_thread addr junk i], ep_loops := ep_loops p @ [addr i],
           ep_ProducerMap := if b then (ep_ProducerMap p)(addr i \<mapsto> junk i) else ep_ProducerMap p\<rparr>"
        "run_init cb addr junk i w"]
    by (auto simp: start_thread_run)
qed simp

lemma fold_map_upd:
  assumes "inj_on addr (set is)"
  shows "fold (\<lambda>i m. m(addr i \<mapsto> junk i)) is m l =
    (if l \<in> addr ` set is then Some (junk (the_inv_into (set is) addr l)) else m l)"
  using assms
proof (induction "is" rule: rev_induct)
  case (snoc i "is")
  then have inj: "inj_on addr (set is)" by (simp add: inj_on_def)
  show ?case
  proof (cases "l = addr i")
    case True
    then show ?thesis using snoc.prems the_inv_into_f_f [OF snoc.prems, of i] by simp
  next
    case False
    have "the_inv_into (set is) addr (addr j) = the_inv_into (set (is @ [i])) addr (addr j)" if "j \<in> set is" for j
      using that the_inv_into_f_f [OF snoc.prems, of j] the_inv_into_f_f [OF inj, of j] by simp
    then show ?thesis using False snoc.IH [OF inj] by auto
  qed
qed simp

definition fresh_pool :: "loop_ptr \<Rightarrow> string \<Rightarrow> nat \<Rightarrow> EventLoopThreadPool" where
  "fresh_pool base nm n = pool_setThreadNum (int n) (EventLoopThreadPool_new base nm)"

lemma pool_start_fresh:
  "\<exists>p. pool_start cb addr junk (fresh_pool base nm n) w = Inr (p, fold (run_init cb addr junk) [0..<n] w) \<and>
    ep_loops p = map addr [0..<n] \<and> ep_started p \<and> ep_next p = 0 \<and> ep_baseLoop p = base \<and>
    ep_ProducerMap p = fold (\<lambda>i m. m(addr i \<mapsto> junk i)) [0..<n] Map.empty"
  using start_threads_run [of True cb addr junk "[0..<n]" "(fresh_pool base nm n)\<lparr>ep_started := True\<rparr>" w]
  by (auto simp: pool_start_def fresh_pool_def pool_setThreadNum_def EventLoopThreadPool_new_def)

section \<open>Round robin\<close>

definition pool_ready :: "EventLoopThreadPool \<Rightarrow> bool" where
  [inv_defs]: "pool_ready p \<longleftrightarrow> ep_started p \<and> ep_next p < length (ep_loops p)"

interpretation rr: round_robin getNextLoop ep_loops ep_next "\<lambda>n. pool_ready"
  by unfold_locales (auto simp: pool_ready_def getNextLoop_def mod_Suc)

text \<open>The loops of \<open>n\<close> new connections.\<close>

fun next_loops :: "nat \<Rightarrow> EventLoopThreadPool \<Rightarrow> (loop_ptr list \<times> EventLoopThreadPool) result" where
  "next_loops 0 p = Inr ([], p)"
| "next_loops (Suc n) p =
     rbind (getNextLoop p) (\<lambda>(l, p1). rbind (next_loops n p1) (\<lambda>(ls, p2). Inr (l # ls, p2)))"

lemma next_loops_picks: "next_loops n p = rr.picks n p"
  by (induction n arbitrary: p) simp_all

section \<open>Properties\<close>

text \<open>
  C29: Connections are spread evenly. A new pool with \<open>n > 0\<close> threads starts, whatever its
  callback does, and the first \<open>r * n\<close> connections get the loops of its threads in order, \<open>r\<close>
  times over; every loop that is chosen by hash is one of them as well.
\<close>

theorem pool_round_robin:
  assumes "0 < n"
  shows "\<exists>p w' p'. pool_start cb addr junk (fresh_pool base nm n) w = Inr (p, w') \<and>
    next_loops (r * n) p = Inr (concat (replicate r (map addr [0..<n])), p') \<and>
    getAllLoops p = Inr (map addr [0..<n]) \<and> (\<forall>h. getLoopForHash h p = addr (h mod n))"
proof -
  obtain p w' where p: "pool_start cb addr junk (fresh_pool base nm n) w = Inr (p, w')"
      "ep_loops p = map addr [0..<n]" "ep_started p" "ep_next p = 0"
    using pool_start_fresh [of cb addr junk base nm n w] by blast
  then have "pool_ready p" using assms by (simp add: pool_ready_def)
  then have "\<exists>p'. next_loops (r * n) p = Inr (concat (replicate r (map addr [0..<n])), p')"
    using rr.picks_rounds [of p r] p(2,4) by (auto simp: next_loops_picks)
  then show ?thesis
    using p assms by (auto simp: getAllLoops_def getLoopForHash_def)
qed

theorem pool_round_robin_witness:
  "\<exists>p w' p'. pool_start (Some (\<lambda>pr l w. l # w)) (\<lambda>i. 100 + i) (\<lambda>i. 0) (fresh_pool 7 ''proxy'' 2) [5] = Inr (p, w') \<and>
    next_loops (3 * 2) p = Inr (concat (replicate 3 (map (\<lambda>i. 100 + i) [0..<2])), p') \<and>
    getAllLoops p = Inr (map (\<lambda>i. 100 + i) [0..<2]) \<and> (\<forall>h. getLoopForHash h p = 100 + h mod 2)"
  using pool_round_robin [of 2 "Some (\<lambda>pr l w. l # w)" "\<lambda>i. 100 + i" "\<lambda>i. 0" 7 "''proxy''" "[5]" 3] by simp

text \<open>
  No loop gets a producer. The callback receives the pointer \<open>producer_\<close> by value, so
  whatever it does, the pool's map gives for each loop the value that the uninitialised member
  had, and nothing for any other loop; with no threads it is empty, and no loop has a producer.
\<close>

lemma pool_producers_unset:
  assumes "inj_on addr {..<n}"
  shows "\<exists>p w'. pool_start cb addr junk (fresh_pool base nm n) w = Inr (p, w') \<and>
    (\<forall>i<n. pool_getProducer (addr i) p = Some (junk i)) \<and>
    (\<forall>l. l \<notin> addr ` {..<n} \<longrightarrow> pool_getProducer l p = None)"
proof -
  obtain p w' where p: "pool_start cb addr junk (fresh_pool base nm n) w = Inr (p, w')"
      "ep_ProducerMap p = fold (\<lambda>i m. m(addr i \<mapsto> junk i)) [0..<n] Map.empty"
    using pool_start_fresh [of cb addr junk base nm n w] by blast
  have inj: "inj_on addr (set [0..<n])" using assms by (simp add: lessThan_atLeast0)
  show ?thesis
    using p fold_map_upd [OF inj, of junk Map.empty] the_inv_into_f_f [OF inj]
    by (auto simp: pool_getProducer_def)
qed

lemma pool_producers_unset_example:
  "\<exists>p w'. pool_start (Some (\<lambda>pr l w. w)) (\<lambda>i. 100 + i) (\<lambda>i. 3) (fresh_pool 7 ''proxy'' 2) () = Inr (p, w') \<and>
    (\<forall>i<2. pool_getProducer (100 + i) p = Some 3) \<and>
    (\<forall>l. l \<notin> (\<lambda>i. 100 + i) ` {..<2} \<longrightarrow> pool_getProducer l p = None)"
  using pool_producers_unset [of "\<lambda>i. 100 + i" 2 "Some (\<lambda>pr l w. w)" "\<lambda>i. 3" 7 "''proxy''" "()"]
  by (simp add: inj_on_def)

end
