(* ===== verification/Tcp_Server.thy ===== *)
theory Tcp_Server
  imports Acceptor Event_Loop_Pool "HOL-Library.List_Lexorder" "HOL-Library.Char_ord"
begin

text \<open>
  \<open>class TcpServer\<close> of \<open>src/ModifiedMuduo/TcpServer.h\<close>, \<open>TcpServer.cpp\<close>: it owns the
  acceptor, the pool of IO loops and the map of connections, and hands the task of accepting
  to another worker when it has too many connections.

  A connection is represented by its IO loop; the map \<open>connections_\<close> is a list of pairs with
  distinct names. What a call makes the rest of the program do (a connection established, with
  the callbacks it is given, or destroyed in its loop, the function that notifies another worker)
  is the list of actions it returns. That function is a value of type \<open>'h\<close>; the callbacks of
  connections are known by what was bound, those of threads are functions on a world \<open>'w\<close>, as in
  the pool. \<open>None\<close> is the empty \<open>std::function\<close>. The calls are made in the loop's thread, where
  \<open>runInLoop\<close> runs its argument at once.
\<close>

datatype conn_callback =
    Default_Callback            \<comment> \<open>\<open>defaultConnectionCallback\<close>, \<open>defaultMessageCallback\<close>\<close>
  | Bound_Callback string       \<comment> \<open>a bound method, by its name\<close>

record conn_callbacks =
  cc_connection :: "conn_callback option"
  cc_message :: "conn_callback option"
  cc_writeComplete :: "conn_callback option"
  cc_close :: "conn_callback option"

datatype 'h ts_action =
    Established string loop_ptr conn_callbacks
  | Destroyed string loop_ptr
  | Notify 'h

record ('h, 'w) TcpServer =
  ts_loop :: loop_ptr
  ts_ipPort :: string
  ts_name :: string
  ts_acceptor :: Acceptor
  ts_threadPool :: EventLoopThreadPool
  ts_connectionCallback :: "conn_callback option"
  ts_messageCallback :: "conn_callback option"
  ts_writeCompleteCallback :: "conn_callback option"
  ts_threadInitCallback :: "(loop_ptr \<Rightarrow> 'w \<Rightarrow> 'w) option"
  ts_threadInitWithProducerCallback :: "'w thread_init option"
  ts_notifyOther :: "'h option"
  ts_started :: bool
  ts_nextConnId :: int
  ts_connections :: "(string \<times> loop_ptr) list"
  ts_startListenTime :: int

definition MAX_CONNECTIONS_NUM :: nat where
  "MAX_CONNECTIONS_NUM = 512"

text \<open>\<open>startListenTime\<close> is not initialised: it has the value \<open>junk\<close>.\<close>

definition TcpServer_new :: "int \<Rightarrow> loop_ptr \<Rightarrow> string \<Rightarrow> string \<Rightarrow> int \<Rightarrow> ('h, 'w) TcpServer result" where
  "TcpServer_new junk loop ipPort nm idle =
     rbind (Acceptor_new idle) (\<lambda>a.
       Inr \<lparr>ts_loop = loop, ts_ipPort = ipPort, ts_name = nm, ts_acceptor = setNewConnectionCallback a,
            ts_threadPool = EventLoopThreadPool_new loop nm,
            ts_connectionCallback = Some Default_Callback, ts_messageCallback = Some Default_Callback,
            ts_writeCompleteCallback = None, ts_threadInitCallback = None,
            ts_threadInitWithProducerCallback = None, ts_notifyOther = None,
            ts_started = False, ts_nextConnId = 1, ts_connections = [], ts_startListenTime = junk\<rparr>)"

definition TcpServer_setThreadNum :: "int \<Rightarrow> ('h, 'w) TcpServer \<Rightarrow> ('h, 'w) TcpServer result" where
  "TcpServer_setThreadNum n s =
     (if n < 0 then Inl Assert_Fail
      else Inr (s\<lparr>ts_threadPool := pool_setThreadNum n (ts_threadPool s)\<rparr>))"

definition setThreadInitCallback :: "(loop_ptr \<Rightarrow> 'w \<Rightarrow> 'w) \<Rightarrow> ('h, 'w) TcpServer \<Rightarrow> ('h, 'w) TcpServer" where
  "setThreadInitCallback cb s = s\<lparr>ts_threadInitCallback := Some cb\<rparr>"

definition setThreadInitWithProducerCallback :: "'w thread_init \<Rightarrow> ('h, 'w) TcpServer \<Rightarrow> ('h, 'w) TcpServer" where
  "setThreadInitWithProducerCallback cb s = s\<lparr>ts_threadInitWithProducerCallback := Some cb\<rparr>"

definition setConnectionCallback :: "conn_callback \<Rightarrow> ('h, 'w) TcpServer \<Rightarrow> ('h, 'w) TcpServer" where
  "setConnectionCallback cb s = s\<lparr>ts_connectionCallback := Some cb\<rparr>"

definition setMessageCallback :: "conn_callback \<Rightarrow> ('h, 'w) TcpServer \<Rightarrow> ('h, 'w) TcpServer" where
  "setMessageCallback cb s = s\<lparr>ts_messageCallback := Some cb\<rparr>"

definition setWriteCompleteCallback :: "conn_callback \<Rightarrow> ('h, 'w) TcpServer \<Rightarrow> ('h, 'w) TcpServer" where
  "setWriteCompleteCallback cb s = s\<lparr>ts_writeCompleteCallback := Some cb\<rparr>"

definition setSchedulCallback :: "'h \<Rightarrow> ('h, 'w) TcpServer \<Rightarrow> ('h, 'w) TcpServer" where
  "setSchedulCallback h s = s\<lparr>ts_notifyOther := Some h\<rparr>"

definition TcpServer_ipPort :: "('h, 'w) TcpServer \<Rightarrow> string" where
  [simp]: "TcpServer_ipPort s = ts_ipPort s"

definition TcpServer_name :: "('h, 'w) TcpServer \<Rightarrow> string" where
  [simp]: "TcpServer_name s = ts_name s"

definition TcpServer_getLoop :: "('h, 'w) TcpServer \<Rightarrow> loop_ptr" where
  [simp]: "TcpServer_getLoop s = ts_loop s"

definition TcpServer_threadPool :: "('h, 'w) TcpServer \<Rightarrow> EventLoopThreadPool" where
  [simp]: "TcpServer_threadPool s = ts_threadPool s"

text \<open>\<open>start\<close> gives the pool the callback with a producer; it never looks at the other one.\<close>

definition TcpServer_start :: "(nat \<Rightarrow> loop_ptr) \<Rightarrow> (nat \<Rightarrow> producer_ptr) \<Rightarrow> int
    \<Rightarrow> ('h, 'w) TcpServer \<Rightarrow> 'w \<Rightarrow> (('h, 'w) TcpServer \<times> 'w) result" where
  "TcpServer_start addr junk now s w =
     (if ts_started s then Inr (s, w)
      else rbind (pool_start (ts_threadInitWithProducerCallback s) addr junk (ts_threadPool s) w) (\<lambda>(p, w1).
        if listenning (ts_acceptor s) then Inl Assert_Fail
        else Inr (s\<lparr>ts_started := True, ts_threadPool := p,
                    ts_acceptor := Acceptor_listen now (ts_acceptor s)\<rparr>, w1)))"

definition acceptorSchedulingHandler :: "int \<Rightarrow> ('h, 'w) TcpServer \<Rightarrow> ('h, 'w) TcpServer" where
  "acceptorSchedulingHandler now s =
     (if listenning (ts_acceptor s)
      then s\<lparr>ts_acceptor := Acceptor_disableListen (ts_acceptor s)\<rparr>
      else s\<lparr>ts_acceptor := Acceptor_enableListen (ts_acceptor s), ts_startListenTime := now\<rparr>)"

text \<open>\<open>snprintf\<close> into 64 bytes, behind the name of the server.\<close>

definition to_string_int :: "int \<Rightarrow> string" where
  "to_string_int i = (if i < 0 then CHR ''-'' # to_string_nat (nat (- i)) else to_string_nat (nat i))"

definition conn_name :: "('h, 'w) TcpServer \<Rightarrow> string" where
  "conn_name s = ts_name s @ take 63 (''-'' @ c_str (ts_ipPort s) @ ''#'' @ to_string_int (ts_nextConnId s))"

definition store_conn :: "string \<Rightarrow> loop_ptr \<Rightarrow> (string \<times> loop_ptr) list \<Rightarrow> (string \<times> loop_ptr) list" where
  "store_conn nm l cs = (nm, l) # filter (\<lambda>c. fst c \<noteq> nm) cs"

text \<open>The callbacks that a new connection gets; its close callback is always the server's.\<close>

definition callbacks_of :: "('h, 'w) TcpServer \<Rightarrow> conn_callbacks" where
  "callbacks_of s = \<lparr>cc_connection = ts_connectionCallback s, cc_message = ts_messageCallback s,
     cc_writeComplete = ts_writeCompleteCallback s, cc_close = Some (Bound_Callback ''removeConnection'')\<rparr>"

definition newConnection :: "int \<Rightarrow> ('h, 'w) TcpServer \<Rightarrow> ('h ts_action list \<times> ('h, 'w) TcpServer) result" where
  "newConnection now s =
     rbind (getNextLoop (ts_threadPool s)) (\<lambda>(ioLoop, p).
       let connName = conn_name s;
           s1 = s\<lparr>ts_threadPool := p, ts_nextConnId := ts_nextConnId s + 1,
                  ts_connections := store_conn connName ioLoop (ts_connections s)\<rparr>
       in if ts_nextConnId s = 2 ^ 31 - 1 then Inl Int_Overflow
          else if MAX_CONNECTIONS_NUM < length (ts_connections s1) \<and> 10 < now - ts_startListenTime s1
          then let s2 = acceptorSchedulingHandler now s1
               in (case ts_notifyOther s2 of
                     None \<Rightarrow> Inl Empty_Call
                   | Some h \<Rightarrow> Inr ([Established connName ioLoop (callbacks_of s1), Notify h], s2))
          else Inr ([Established connName ioLoop (callbacks_of s1)], s1))"

definition removeConnectionInLoop :: "string \<Rightarrow> loop_ptr \<Rightarrow> ('h, 'w) TcpServer \<Rightarrow> ('h ts_action list \<times> ('h, 'w) TcpServer) result" where
  "removeConnectionInLoop nm ioLoop s =
     (let cs = filter (\<lambda>c. fst c \<noteq> nm) (ts_connections s);
          n = length (ts_connections s) - length cs
      in if n \<noteq> 1 then Inl Assert_Fail
         else Inr ([Destroyed nm ioLoop], s\<lparr>ts_connections := cs\<rparr>))"

text \<open>The destructor goes over the map, in the order of the names.\<close>

definition TcpServer_delete :: "('h, 'w) TcpServer \<Rightarrow> 'h ts_action list" where
  "TcpServer_delete s = map (\<lambda>(nm, l). Destroyed nm l) (sort_key fst (ts_connections s))"

lemma callbacks_of_fields [simp]:
  "callbacks_of (s\<lparr>ts_threadPool := p\<rparr>) = callbacks_of s" "callbacks_of (s\<lparr>ts_nextConnId := i\<rparr>) = callbacks_of s"
  "callbacks_of (s\<lparr>ts_connections := cs\<rparr>) = callbacks_of s"
  by (simp_all add: callbacks_of_def)

section \<open>Names and the connection map\<close>

definition name_at :: "('h, 'w) TcpServer \<Rightarrow> nat \<Rightarrow> string" where
  "name_at s i = conn_name (s\<lparr>ts_nextConnId := int i\<rparr>)"

text \<open>
  Every stored connection has the name of an id that was given out, and no name is stored
  twice; the pool is started and its cursor is in range.
\<close>

definition tcp_inv :: "('h, 'w) TcpServer \<Rightarrow> bool" where
  [inv_defs]: "tcp_inv s \<longleftrightarrow>
     0 < ts_nextConnId s \<and> ts_nextConnId s < 2 ^ 31 \<and>
     length (ts_ipPort s) \<le> 40 \<and> NUL \<notin> set (ts_ipPort s) \<and>
     distinct (map fst (ts_connections s)) \<and>
     fst ` set (ts_connections s) \<subseteq> name_at s ` {i. int i < ts_nextConnId s} \<and>
     (ep_started (ts_threadPool s) \<and> ep_loops (ts_threadPool s) \<noteq> [] \<longrightarrow>
       ep_next (ts_threadPool s) < length (ep_loops (ts_threadPool s)))"

lemma length_to_string_nat: "n < 10 ^ Suc k \<Longrightarrow> length (to_string_nat n) \<le> Suc k"
proof (induction k arbitrary: n)
  case 0
  then show ?case by (subst to_string_nat.simps) simp
next
  case (Suc k)
  have "n div 10 < 10 ^ Suc k" using Suc.prems by (simp add: less_mult_imp_div_less mult.commute)
  then have "length (to_string_nat (n div 10)) \<le> Suc k" by (rule Suc.IH)
  then show ?case by (subst to_string_nat.simps) simp
qed

lemma conn_name_eq:
  assumes "0 \<le> ts_nextConnId s" and "ts_nextConnId s < 2 ^ 31" and "length (ts_ipPort s) \<le> 40"
    and "NUL \<notin> set (ts_ipPort s)"
  shows "conn_name s = ts_name s @ ''-'' @ ts_ipPort s @ ''#'' @ to_string_nat (nat (ts_nextConnId s))"
proof -
  let ?t = "''-'' @ ts_ipPort s @ ''#'' @ to_string_nat (nat (ts_nextConnId s))"
  have "nat (ts_nextConnId s) < 10 ^ Suc 9" using assms(2) by simp
  then have "length (to_string_nat (nat (ts_nextConnId s))) \<le> Suc 9" by (rule length_to_string_nat)
  then have len: "length ?t \<le> 63" using assms(3) by simp
  have "c_str (ts_ipPort s) = ts_ipPort s" using assms(4) by (rule c_str_id)
  then show ?thesis using assms(1) len by (simp add: conn_name_def to_string_int_def)
qed

lemma name_at_fields [simp]:
  "name_at (s\<lparr>ts_nextConnId := i\<rparr>) = name_at s" "name_at (s\<lparr>ts_connections := cs\<rparr>) = name_at s"
  "name_at (s\<lparr>ts_threadPool := p\<rparr>) = name_at s" "name_at (s\<lparr>ts_acceptor := a\<rparr>) = name_at s"
  "name_at (s\<lparr>ts_startListenTime := t\<rparr>) = name_at s"
  by (simp_all add: name_at_def conn_name_def fun_eq_iff)

lemma name_at_inject:
  assumes "length (ts_ipPort s) \<le> 40" and "NUL \<notin> set (ts_ipPort s)"
    and "int i < 2 ^ 31" and "int j < 2 ^ 31" and "name_at s i = name_at s j"
  shows "i = j"
  using assms conn_name_eq [of "s\<lparr>ts_nextConnId := int i\<rparr>"] conn_name_eq [of "s\<lparr>ts_nextConnId := int j\<rparr>"]
  by (simp add: name_at_def to_string_nat_inject)

lemma conn_name_at: "0 \<le> ts_nextConnId s \<Longrightarrow> conn_name s = name_at s (nat (ts_nextConnId s))"
  by (simp add: name_at_def)

lemma name_not_given_out:
  assumes "tcp_inv s"
  shows "conn_name s \<notin> name_at s ` {i. int i < ts_nextConnId s}"
proof
  assume "conn_name s \<in> name_at s ` {i. int i < ts_nextConnId s}"
  then obtain i where i: "int i < ts_nextConnId s" "name_at s (nat (ts_nextConnId s)) = name_at s i"
    using assms conn_name_at [of s] by (auto simp: tcp_inv_def)
  then have "nat (ts_nextConnId s) = i"
    using assms by (intro name_at_inject [of s]) (auto simp: tcp_inv_def)
  then show False using i(1) by simp
qed

lemma conn_name_fresh: "tcp_inv s \<Longrightarrow> conn_name s \<notin> fst ` set (ts_connections s)"
  using name_not_given_out [of s] by (auto simp: tcp_inv_def)

lemma filter_fresh: "nm \<notin> fst ` set cs \<Longrightarrow> filter (\<lambda>c. fst c \<noteq> nm) cs = cs"
  by (auto intro: filter_True)

lemma scheduling_fields [simp]:
  "ts_connections (acceptorSchedulingHandler now s) = ts_connections s"
  "ts_nextConnId (acceptorSchedulingHandler now s) = ts_nextConnId s"
  "ts_threadPool (acceptorSchedulingHandler now s) = ts_threadPool s"
  "ts_ipPort (acceptorSchedulingHandler now s) = ts_ipPort s"
  "ts_notifyOther (acceptorSchedulingHandler now s) = ts_notifyOther s"
  "name_at (acceptorSchedulingHandler now s) = name_at s"
  by (simp_all add: acceptorSchedulingHandler_def)

text \<open>What every successful \<open>newConnection\<close> does, handover or not.\<close>

lemma newConnection_core:
  assumes "tcp_inv s" and "newConnection now s = Inr (acts, s')"
  obtains l p where "getNextLoop (ts_threadPool s) = Inr (l, p)"
    and "hd acts = Established (conn_name s) l (callbacks_of s)"
    and "ts_connections s' = (conn_name s, l) # ts_connections s"
    and "ts_nextConnId s' = ts_nextConnId s + 1" and "ts_nextConnId s \<noteq> 2 ^ 31 - 1"
    and "ts_threadPool s' = p" and "ts_ipPort s' = ts_ipPort s" and "name_at s' = name_at s"
proof -
  obtain l p where lp: "getNextLoop (ts_threadPool s) = Inr (l, p)"
    using assms(2) by (auto simp: newConnection_def)
  have "store_conn (conn_name s) l (ts_connections s) = (conn_name s, l) # ts_connections s"
    using conn_name_fresh [OF assms(1)] by (simp add: store_conn_def filter_fresh)
  then show ?thesis
    using assms(2) lp by (intro that [of l p])
      (auto simp: newConnection_def Let_def split: if_splits option.splits)
qed

lemma getNextLoop_cursor:
  assumes "getNextLoop p = Inr (l, p')"
  shows "ep_started p' = ep_started p \<and> ep_loops p' = ep_loops p \<and>
    (ep_loops p \<noteq> [] \<longrightarrow> ep_next p' < length (ep_loops p'))"
  using assms by (auto simp: getNextLoop_def split: if_splits)

lemma newConnection_inv:
  assumes "tcp_inv s" and "newConnection now s = Inr (acts, s')"
  shows "tcp_inv s'"
proof -
  obtain l p where lp: "getNextLoop (ts_threadPool s) = Inr (l, p)"
    and c: "ts_connections s' = (conn_name s, l) # ts_connections s"
    and i: "ts_nextConnId s' = ts_nextConnId s + 1" "ts_nextConnId s \<noteq> 2 ^ 31 - 1"
    and e: "ts_threadPool s' = p" "ts_ipPort s' = ts_ipPort s" "name_at s' = name_at s"
    using newConnection_core [OF assms] by metis
  have id: "0 < ts_nextConnId s" "ts_nextConnId s < 2 ^ 31" using assms(1) by (simp_all add: tcp_inv_def)
  note old = assms(1) [unfolded tcp_inv_def]
  show ?thesis
    unfolding tcp_inv_def
  proof (intro conjI)
    show "0 < ts_nextConnId s'" and "ts_nextConnId s' < 2 ^ 31" using i id by simp_all
    show "length (ts_ipPort s') \<le> 40" and "NUL \<notin> set (ts_ipPort s')" using old e by simp_all
    show "distinct (map fst (ts_connections s'))"
      using old conn_name_fresh [OF assms(1)] by (simp add: c)
    have "conn_name s \<in> name_at s ` {i. int i < ts_nextConnId s'}"
      using conn_name_at [of s] id i(1) by (intro image_eqI [of _ _ "nat (ts_nextConnId s)"]) simp_all
    moreover have "name_at s ` {i. int i < ts_nextConnId s} \<subseteq> name_at s ` {i. int i < ts_nextConnId s'}"
      using i(1) by (intro image_mono) auto
    ultimately show "fst ` set (ts_connections s') \<subseteq> name_at s' ` {i. int i < ts_nextConnId s'}"
      using old unfolding c e(3) by (simp only: list.set image_insert fst_conv insert_subset) blast
    show "ep_started (ts_threadPool s') \<and> ep_loops (ts_threadPool s') \<noteq> [] \<longrightarrow>
        ep_next (ts_threadPool s') < length (ep_loops (ts_threadPool s'))"
      using getNextLoop_cursor [OF lp] e(1) by auto
  qed
qed

lemma removeConnection_inv:
  assumes "tcp_inv s" and "removeConnectionInLoop nm l s = Inr (acts, s')"
  shows "tcp_inv s'"
proof -
  let ?cs = "filter (\<lambda>c. fst c \<noteq> nm) (ts_connections s)"
  have s': "s' = s\<lparr>ts_connections := ?cs\<rparr>"
    using assms(2) by (auto simp: removeConnectionInLoop_def Let_def split: if_splits)
  have "fst ` set ?cs \<subseteq> fst ` set (ts_connections s)" by auto
  then show ?thesis
    using assms(1) unfolding tcp_inv_def s' by (simp add: distinct_map_filter) blast
qed

lemma newConnection_runs:
  assumes "ep_started (ts_threadPool s)" and "tcp_inv s"
  shows "\<exists>l p. getNextLoop (ts_threadPool s) = Inr (l, p)"
  using assms by (auto simp: getNextLoop_def tcp_inv_def)

lemma remove_fresh:
  "nm \<notin> fst ` set cs \<Longrightarrow> ts_connections s = (nm, l) # cs \<Longrightarrow>
    removeConnectionInLoop nm l s = Inr ([Destroyed nm l], s\<lparr>ts_connections := cs\<rparr>)"
  by (simp add: removeConnectionInLoop_def filter_fresh)

lemma newConnection_quiet:
  assumes "tcp_inv s" and "ep_started (ts_threadPool s)" and "ts_nextConnId s < 2 ^ 31 - 1"
    and "\<not> (512 \<le> length (ts_connections s) \<and> 10 < now - ts_startListenTime s)"
  shows "\<exists>l s'. newConnection now s = Inr ([Established (conn_name s) l (callbacks_of s)], s') \<and>
    ts_acceptor s' = ts_acceptor s"
proof -
  obtain l p where lp: "getNextLoop (ts_threadPool s) = Inr (l, p)"
    using newConnection_runs [OF assms(2,1)] by blast
  have "store_conn (conn_name s) l (ts_connections s) = (conn_name s, l) # ts_connections s"
    using conn_name_fresh [OF assms(1)] by (simp add: store_conn_def filter_fresh)
  then show ?thesis
    using assms(3,4) lp by (auto simp: newConnection_def Let_def MAX_CONNECTIONS_NUM_def)
qed

text \<open>\<open>start\<close> may be called again: the second call does nothing.\<close>

lemma TcpServer_start_again:
  "TcpServer_start addr junk now s w = Inr (s1, w1) \<Longrightarrow>
    TcpServer_start addr' junk' now' s1 w2 = Inr (s1, w2)"
  by (auto simp: TcpServer_start_def split: if_splits)

text \<open>The destructor destroys every connection of the map once.\<close>

lemma TcpServer_delete_all:
  assumes "tcp_inv s"
  shows "distinct (TcpServer_delete s) \<and>
    set (TcpServer_delete s) = (\<lambda>(nm, l). Destroyed nm l) ` set (ts_connections s)"
proof -
  have "distinct (ts_connections s)" using assms by (simp add: tcp_inv_def distinct_map)
  moreover have "inj_on (\<lambda>(nm, l). Destroyed nm l) (set (ts_connections s))" by (auto simp: inj_on_def)
  ultimately show ?thesis by (simp add: TcpServer_delete_def distinct_map)
qed

text \<open>A server that is started on one thread.\<close>

definition demo_server :: "(nat, nat) TcpServer" where
  "demo_server = \<lparr>ts_loop = 1, ts_ipPort = ''127.0.0.1:6666'', ts_name = ''proxy'',
     ts_acceptor = \<lparr>ac_listenning = True, ac_startListenTime = 5, ac_idleFd = 9, ac_socketListens = True,
                    ac_reading = True, ac_hasCallback = True\<rparr>,
     ts_threadPool = (EventLoopThreadPool_new 1 ''proxy'')\<lparr>ep_started := True, ep_loops := [4, 5]\<rparr>,
     ts_connectionCallback = Some Default_Callback, ts_messageCallback = Some Default_Callback,
     ts_writeCompleteCallback = None, ts_threadInitCallback = None, ts_threadInitWithProducerCallback = None,
     ts_notifyOther = None, ts_started = True, ts_nextConnId = 1, ts_connections = [], ts_startListenTime = 0\<rparr>"

lemma demo_server_inv: "tcp_inv demo_server" "ep_started (ts_threadPool demo_server)"
  by (simp_all add: tcp_inv_def demo_server_def EventLoopThreadPool_new_def NUL_def)

section \<open>Properties\<close>

text \<open>
  The life of a connection. In a started server every new connection gets a name that no
  stored connection has, one of the loops of the pool and the callbacks that were set last, and
  is added to the map; the invariant is kept. Removing it later, with whatever was accepted before it still there,
  passes the assertion that exactly one entry was erased and leads back to the same map.
\<close>

lemma tcp_connection_lifecycle:
  assumes "tcp_inv s" and "newConnection now s = Inr (acts, s')"
  shows "\<exists>l. hd acts = Established (conn_name s) l (callbacks_of s) \<and> conn_name s \<notin> fst ` set (ts_connections s) \<and>
    ts_connections s' = (conn_name s, l) # ts_connections s \<and> tcp_inv s' \<and>
    removeConnectionInLoop (conn_name s) l s' =
      Inr ([Destroyed (conn_name s) l], s'\<lparr>ts_connections := ts_connections s\<rparr>) \<and>
    tcp_inv (s'\<lparr>ts_connections := ts_connections s\<rparr>)"
proof -
  obtain l p where l: "hd acts = Established (conn_name s) l (callbacks_of s)"
      "ts_connections s' = (conn_name s, l) # ts_connections s"
    using newConnection_core [OF assms] by metis
  note fresh = conn_name_fresh [OF assms(1)] and inv = newConnection_inv [OF assms]
  from remove_fresh [OF fresh l(2)] removeConnection_inv [OF inv] show ?thesis
    using l fresh inv by blast
qed

lemma tcp_connection_lifecycle_example:
  "\<exists>acts s' l. newConnection 3 demo_server = Inr (acts, s') \<and>
    ts_connections s' = [(conn_name demo_server, l)] \<and> tcp_inv s'"
proof -
  have "ts_nextConnId demo_server < 2 ^ 31 - 1" "ts_connections demo_server = []"
    by (simp_all add: demo_server_def)
  then obtain acts s' where n: "newConnection 3 demo_server = Inr (acts, s')"
    using newConnection_quiet [OF demo_server_inv] by fastforce
  from tcp_connection_lifecycle [OF demo_server_inv(1) n] show ?thesis
    using n \<open>ts_connections demo_server = []\<close> by auto
qed

text \<open>
  C31: The handover. While a server has at most 512 connections, or no more than ten seconds
  have passed, accepting notifies nobody. With more it stops listening, and then notifies the
  callback exactly once when one is set; when none is set, the empty function is called.
\<close>

theorem tcp_handover:
  assumes "tcp_inv s" and "ep_started (ts_threadPool s)" and "ts_nextConnId s < 2 ^ 31 - 1"
    and "ac_listenning (ts_acceptor s)"
  shows "if 512 \<le> length (ts_connections s) \<and> 10 < now - ts_startListenTime s
    then (case ts_notifyOther s of
            None \<Rightarrow> newConnection now s = Inl Empty_Call
          | Some h \<Rightarrow> \<exists>l s'. newConnection now s = Inr ([Established (conn_name s) l (callbacks_of s), Notify h], s') \<and>
              \<not> ac_listenning (ts_acceptor s') \<and> \<not> ac_reading (ts_acceptor s'))
    else \<exists>l s'. newConnection now s = Inr ([Established (conn_name s) l (callbacks_of s)], s') \<and>
      ts_acceptor s' = ts_acceptor s"
proof (cases "512 \<le> length (ts_connections s) \<and> 10 < now - ts_startListenTime s")
  case False
  show ?thesis using newConnection_quiet [OF assms(1-3) False] False by auto
next
  case True
  obtain l p where lp: "getNextLoop (ts_threadPool s) = Inr (l, p)"
    using newConnection_runs [OF assms(2,1)] by blast
  have st: "store_conn (conn_name s) l (ts_connections s) = (conn_name s, l) # ts_connections s"
    using conn_name_fresh [OF assms(1)] by (simp add: store_conn_def filter_fresh)
  have "ts_nextConnId s \<noteq> 2 ^ 31 - 1" using assms(3) by simp
  then show ?thesis
    using assms(4) lp st True
    by (simp add: newConnection_def Let_def MAX_CONNECTIONS_NUM_def acceptorSchedulingHandler_def
        Acceptor_disableListen_def split: option.split)
qed

definition full_server :: "(nat, nat) TcpServer" where
  "full_server = demo_server\<lparr>ts_nextConnId := 600,
     ts_connections := map (\<lambda>i. (name_at demo_server i, 4)) [1..<599]\<rparr>"

lemma full_server_inv: "tcp_inv full_server"
proof -
  have "i = j" if "i < 599" "j < 599" "name_at demo_server i = name_at demo_server j" for i j
    using that name_at_inject [of demo_server i j] demo_server_inv(1) by (simp add: tcp_inv_def)
  then have "inj_on (name_at demo_server) (set [1..<599])"
    by (intro inj_onI) auto
  then have "distinct (map (name_at demo_server) [1..<599])" by (simp add: distinct_map)
  moreover have "name_at demo_server ` set [1..<599] \<subseteq> name_at demo_server ` {i. int i < 600}" by auto
  ultimately show ?thesis
    using demo_server_inv(1)
    by (simp add: full_server_def tcp_inv_def comp_def image_image del: upt_rec_numeral set_upt)
qed

theorem tcp_handover_witness: "newConnection 1000 full_server = Inl Empty_Call"
proof -
  have "ts_notifyOther full_server = None" "ac_listenning (ts_acceptor full_server)"
    "ts_nextConnId full_server < 2 ^ 31 - 1" "ts_startListenTime full_server = 0"
    "length (ts_connections full_server) = 598" "ep_started (ts_threadPool full_server)"
    by (simp_all add: full_server_def demo_server_def del: upt_rec_numeral)
  then show ?thesis using tcp_handover [OF full_server_inv, of 1000] by simp
qed

end
