(* ===== verification/Std_List.thy ===== *)
theory Std_List
  imports Prelude
begin

text \<open>
  The part of \<open>std::list\<close> that \<open>src/cache/LRU.h\<close> uses. What matters there is that an
  iterator stays valid while other elements are added, erased or spliced: the hash map of
  the LRU cache stores iterators into the list. A list is therefore a sequence of cells, a
  cell carries its identity (the iterator that points to it), and the identities are
  handed out by a counter. The locale \<open>iterator_list\<close> is the contract the LRU cache relies
  on; it is interpreted below on the operations of this theory.
\<close>

type_synonym iter = nat

record 'a std_list =
  cells :: "(iter \<times> 'a) list"
  fresh :: nat

definition sl_empty :: "'a std_list" where
  "sl_empty = \<lparr>cells = [], fresh = 0\<rparr>"

definition sl_size :: "'a std_list \<Rightarrow> nat" where
  "sl_size l = length (cells l)"

definition sl_values :: "'a std_list \<Rightarrow> 'a list" where
  "sl_values l = map snd (cells l)"

definition sl_push_back :: "'a \<Rightarrow> 'a std_list \<Rightarrow> 'a std_list" where
  "sl_push_back x l = l\<lparr>cells := cells l @ [(fresh l, x)], fresh := Suc (fresh l)\<rparr>"

text \<open>\<open>begin()\<close> and \<open>--end()\<close>; \<open>None\<close> where the list is empty (\<open>begin() == end()\<close>).\<close>

definition sl_begin :: "'a std_list \<Rightarrow> iter option" where
  "sl_begin l = (case cells l of [] \<Rightarrow> None | c # _ \<Rightarrow> Some (fst c))"

definition sl_last :: "'a std_list \<Rightarrow> iter option" where
  "sl_last l = (if cells l = [] then None else Some (fst (last (cells l))))"

definition sl_deref :: "'a std_list \<Rightarrow> iter \<Rightarrow> 'a option" where
  "sl_deref l it = map_of (cells l) it"

definition sl_store :: "iter \<Rightarrow> 'a \<Rightarrow> 'a std_list \<Rightarrow> 'a std_list" where
  "sl_store it x l = l\<lparr>cells := map (\<lambda>c. if fst c = it then (it, x) else c) (cells l)\<rparr>"

definition sl_erase :: "iter \<Rightarrow> 'a std_list \<Rightarrow> 'a std_list" where
  "sl_erase it l = l\<lparr>cells := filter (\<lambda>c. fst c \<noteq> it) (cells l)\<rparr>"

text \<open>\<open>l.splice(l.end(), l, it)\<close>: the cell moves to the end and keeps its identity.\<close>

definition sl_splice_end :: "iter \<Rightarrow> 'a std_list \<Rightarrow> 'a std_list" where
  "sl_splice_end it l =
     l\<lparr>cells := filter (\<lambda>c. fst c \<noteq> it) (cells l) @ filter (\<lambda>c. fst c = it) (cells l)\<rparr>"

text \<open>Copy assignment allocates new cells: the copy has iterators of its own.\<close>

definition sl_copy :: "'a std_list \<Rightarrow> 'a std_list" where
  "sl_copy l = \<lparr>cells = zip [0..<sl_size l] (sl_values l), fresh = sl_size l\<rparr>"

definition sl_wf :: "'a std_list \<Rightarrow> bool" where
  "sl_wf l \<longleftrightarrow> distinct (map fst (cells l)) \<and> (\<forall>c \<in> set (cells l). fst c < fresh l)"

section \<open>Library facts on cells\<close>

lemma distinct_fst_filter: "distinct (map fst xs) \<Longrightarrow> distinct (map fst (filter P xs))"
  by (induction xs) auto

lemma filter_fst_unique:
  "distinct (map fst xs) \<Longrightarrow> (i, x) \<in> set xs \<Longrightarrow> filter (\<lambda>c. fst c = i) xs = [(i, x)]"
proof (induction xs)
  case Nil
  then show ?case by simp
next
  case (Cons c xs)
  show ?case
  proof (cases "fst c = i")
    case True
    then have "i \<notin> fst ` set xs" using Cons.prems(1) by auto
    then have none: "filter (\<lambda>d. fst d = i) xs = []"
      by (auto simp: filter_empty_conv)
    have "c = (i, x)"
      using Cons.prems True \<open>i \<notin> fst ` set xs\<close> by (cases c) force
    with none show ?thesis by simp
  next
    case False
    with Cons show ?thesis by auto
  qed
qed

lemma map_of_filter_neq:
  "map_of (filter (\<lambda>c. fst c \<noteq> i) xs) j = (if j = i then None else map_of xs j)"
  by (induction xs) auto

lemma map_of_filter_eq:
  "map_of (filter (\<lambda>c. fst c = i) xs) j = (if j = i then map_of xs j else None)"
  by (induction xs) auto

lemma map_of_map_store:
  "map_of (map (\<lambda>c. if fst c = i then (i, x) else c) xs) j =
   (if j = i \<and> map_of xs i \<noteq> None then Some x else map_of xs j)"
  by (induction xs) auto

section \<open>The contract of the list\<close>

locale iterator_list =
  fixes wf :: "'l \<Rightarrow> bool"
    and vals :: "'l \<Rightarrow> 'a list"
    and deref :: "'l \<Rightarrow> iter \<Rightarrow> 'a option"
    and push :: "'a \<Rightarrow> 'l \<Rightarrow> 'l"
    and lst :: "'l \<Rightarrow> iter option"
    and erase :: "iter \<Rightarrow> 'l \<Rightarrow> 'l"
    and splice :: "iter \<Rightarrow> 'l \<Rightarrow> 'l"
    and store :: "iter \<Rightarrow> 'a \<Rightarrow> 'l \<Rightarrow> 'l"
  assumes wf_push: "wf l \<Longrightarrow> wf (push x l)"
    and wf_erase: "wf l \<Longrightarrow> wf (erase i l)"
    and wf_splice: "wf l \<Longrightarrow> wf (splice i l)"
    and wf_store: "wf l \<Longrightarrow> wf (store i x l)"
    and deref_push: "wf l \<Longrightarrow> \<exists>i. lst (push x l) = Some i \<and> deref l i = None \<and>
          deref (push x l) = (deref l)(i \<mapsto> x)"
    and deref_erase: "wf l \<Longrightarrow> deref (erase i l) = (deref l)(i := None)"
    and deref_splice: "wf l \<Longrightarrow> deref (splice i l) = deref l"
    and deref_store: "wf l \<Longrightarrow> deref l i \<noteq> None \<Longrightarrow> deref (store i x l) = (deref l)(i \<mapsto> x)"
    and vals_push: "wf l \<Longrightarrow> vals (push x l) = vals l @ [x]"
    and vals_deref: "wf l \<Longrightarrow> deref l i = Some x \<Longrightarrow> x \<in> set (vals l)"
begin

text \<open>Iterator stability: what happens to one element leaves the iterators of the others valid.\<close>

lemma stable_erase: "wf l \<Longrightarrow> j \<noteq> i \<Longrightarrow> deref (erase i l) j = deref l j"
  by (simp add: deref_erase)

lemma stable_push: "wf l \<Longrightarrow> deref l j = Some y \<Longrightarrow> deref (push x l) j = Some y"
  using deref_push [of l x] by auto

lemma stable_touch:
  "wf l \<Longrightarrow> deref l i \<noteq> None \<Longrightarrow> deref (splice i (store i x l)) = (deref l)(i \<mapsto> x)"
  by (simp add: deref_splice deref_store wf_store)

lemma push_back_deref:
  "wf l \<Longrightarrow> lst (push x l) = Some i \<Longrightarrow> deref (push x l) i = Some x"
  using deref_push [of l x] by auto

end

lemma sl_fresh_deref: "sl_wf l \<Longrightarrow> sl_deref l (fresh l) = None"
  by (auto simp: sl_wf_def sl_deref_def map_of_eq_None_iff)

lemma sl_wf_splice: "sl_wf l \<Longrightarrow> sl_wf (sl_splice_end i l)"
  by (auto simp: sl_wf_def sl_splice_end_def distinct_fst_filter)

lemma map_fst_store: "map fst (map (\<lambda>c. if fst c = i then (i, x) else c) xs) = map fst xs"
  by (induction xs) auto

lemma sl_wf_store: "sl_wf l \<Longrightarrow> sl_wf (sl_store i x l)"
  unfolding sl_wf_def sl_store_def using map_fst_store [of i x "cells l"]
  by (auto simp del: map_map)

lemma sl_deref_splice: "sl_wf l \<Longrightarrow> sl_deref (sl_splice_end i l) = sl_deref l"
  by (auto simp: sl_deref_def sl_splice_end_def map_of_filter_neq map_of_filter_eq map_add_def
      split: option.splits)

lemma sl_deref_push: "sl_wf l \<Longrightarrow> sl_deref (sl_push_back x l) = (sl_deref l)(fresh l \<mapsto> x)"
proof
  fix j
  assume "sl_wf l"
  from sl_fresh_deref [OF this]
  show "sl_deref (sl_push_back x l) j = ((sl_deref l)(fresh l \<mapsto> x)) j"
    by (auto simp: sl_deref_def sl_push_back_def map_add_def split: option.splits)
qed

lemma sl_last_push [simp]: "sl_last (sl_push_back x l) = Some (fresh l)"
  by (simp add: sl_last_def sl_push_back_def)

lemma sl_deref_Some_iff: "sl_wf l \<Longrightarrow> sl_deref l i = Some x \<longleftrightarrow> (i, x) \<in> set (cells l)"
  by (simp add: sl_wf_def sl_deref_def map_of_eq_Some_iff)

interpretation sl: iterator_list sl_wf sl_values sl_deref sl_push_back sl_last sl_erase
  sl_splice_end sl_store
proof
  fix l :: "'a std_list" and x i
  assume wf: "sl_wf l"
  show "sl_wf (sl_push_back x l)"
    using wf by (auto simp: sl_wf_def sl_push_back_def)
  show "sl_wf (sl_erase i l)"
    using wf by (auto simp: sl_wf_def sl_erase_def distinct_fst_filter)
  show "sl_wf (sl_splice_end i l)"
    using wf by (rule sl_wf_splice)
  show "sl_wf (sl_store i x l)"
    using wf by (rule sl_wf_store)
  show "\<exists>i. sl_last (sl_push_back x l) = Some i \<and> sl_deref l i = None \<and>
      sl_deref (sl_push_back x l) = (sl_deref l)(i \<mapsto> x)"
    using wf by (simp add: sl_deref_push sl_fresh_deref)
  show "sl_deref (sl_erase i l) = (sl_deref l)(i := None)"
    by (auto simp: sl_deref_def sl_erase_def map_of_filter_neq)
  show "sl_deref (sl_splice_end i l) = sl_deref l"
    using wf by (rule sl_deref_splice)
  show "sl_values (sl_push_back x l) = sl_values l @ [x]"
    by (simp add: sl_values_def sl_push_back_def)
  assume "sl_deref l i \<noteq> None"
  then show "sl_deref (sl_store i x l) = (sl_deref l)(i \<mapsto> x)"
    by (auto simp: sl_deref_def sl_store_def map_of_map_store)
next
  fix l :: "'a std_list" and i x
  assume "sl_wf l" and "sl_deref l i = Some x"
  then show "x \<in> set (sl_values l)"
    by (force simp: sl_deref_Some_iff sl_values_def)
qed

lemma sl_copy_values [simp]: "sl_values (sl_copy l) = sl_values l"
  by (simp add: sl_copy_def sl_values_def sl_size_def)

lemma sl_copy_wf [simp]: "sl_wf (sl_copy l)"
  by (auto simp: sl_copy_def sl_wf_def sl_values_def sl_size_def dest: set_zip_leftD)

lemma sl_empty_wf [simp]: "sl_wf sl_empty"
  by (simp add: sl_empty_def sl_wf_def)

end
