(* ===== verification/Lru.thy ===== *)
theory Lru
  imports Std_List
begin

text \<open>
  \<open>class Lru\<close> of \<open>src/cache/LRU.h\<close>: a \<open>std::list\<close> of (url, content) pairs in order of use
  and a hash map from a url to a node (time of storing, iterator into the list).
  \<open>time(nullptr)\<close> is the argument \<open>now\<close>; \<open>size_t\<close> and \<open>unsigned long\<close> are 64-bit words.
  The invariant \<open>lru_inv\<close> ties the map to the list; \<open>lru_entries\<close> is the abstraction, the
  sequence of pairs, least recently used first.
\<close>

unbundle bit_operations_syntax

section \<open>Data\<close>

record Node =
  time :: "64 word"
  position :: iter

record Lru =
  lru_maxSize :: "64 word"
  lru_expiredTime :: "64 word"
  lru_size :: "64 word"
  lru_list :: "(string \<times> string) std_list"
  lru_map :: "string \<rightharpoonup> Node"

definition INT_MAX :: "64 word" where
  "INT_MAX = 2147483647"

text \<open>The constructor leaves \<open>size_\<close> uninitialised: its first value is the argument \<open>junk\<close>.\<close>

definition Lru_new :: "64 word \<Rightarrow> 64 word \<Rightarrow> Lru" where
  "Lru_new junk n = \<lparr>lru_maxSize = n, lru_expiredTime = INT_MAX, lru_size = junk,
     lru_list = sl_empty, lru_map = Map.empty\<rparr>"

text \<open>
  The copy constructor: the list is copied (new cells), the map is rebuilt by a walk over
  the copy, every node stamped with the current time; \<open>expiredTime_\<close> gets its default.
\<close>

fun rebuild_map :: "64 word \<Rightarrow> (iter \<times> string \<times> string) list \<Rightarrow> (string \<rightharpoonup> Node)
    \<Rightarrow> (string \<rightharpoonup> Node)" where
  "rebuild_map now [] m = m"
| "rebuild_map now ((it, url, content) # cs) m =
     rebuild_map now cs (m(url \<mapsto> \<lparr>time = now, position = it\<rparr>))"

definition getMap :: "Lru \<Rightarrow> (string \<rightharpoonup> Node)" where
  [simp]: "getMap s = lru_map s"

definition getList :: "Lru \<Rightarrow> (string \<times> string) std_list" where
  [simp]: "getList s = lru_list s"

definition getSize :: "Lru \<Rightarrow> 64 word" where
  [simp]: "getSize s = lru_size s"

definition getMaxSize :: "Lru \<Rightarrow> 64 word" where
  [simp]: "getMaxSize s = lru_maxSize s"

definition Lru_copy :: "64 word \<Rightarrow> Lru \<Rightarrow> Lru" where
  "Lru_copy now s =
     (let l = sl_copy (getList s)
      in \<lparr>lru_maxSize = getMaxSize s, lru_expiredTime = INT_MAX, lru_size = getSize s,
          lru_list = l, lru_map = rebuild_map now (cells l) Map.empty\<rparr>)"

section \<open>Operations\<close>

text \<open>
  The eviction loop of \<open>put\<close>. Its guard reads \<open>sizeNow\<close>, an \<open>int\<close> that the body does not
  change; compared with a \<open>size_t\<close> it is sign-extended to 64 bits. Dereferencing
  \<open>begin()\<close> of an empty list is the fault \<open>Deref_End\<close>.
\<close>

function evict_loop :: "32 word \<Rightarrow> Lru \<Rightarrow> Lru result" where
  "evict_loop sizeNow s =
     (if lru_maxSize s < scast sizeNow then
        (case sl_begin (lru_list s) of
           None \<Rightarrow> Inl Deref_End
         | Some it \<Rightarrow>
             (case sl_deref (lru_list s) it of
                None \<Rightarrow> Inl Bad_Iterator
              | Some e \<Rightarrow>
                  evict_loop sizeNow
                    (s\<lparr>lru_map := (lru_map s)(fst e := None),
                       lru_list := sl_erase it (lru_list s)\<rparr>)))
      else Inr s)"
  by pat_completeness auto
termination
proof (relation "measure (\<lambda>(n, s). sl_size (lru_list s))")
  show "wf (measure (\<lambda>(n, s). sl_size (lru_list s)))" by simp
next
  fix sizeNow :: "32 word" and s :: Lru and it e
  assume "sl_begin (lru_list s) = Some it"
  then have "\<exists>c \<in> set (cells (lru_list s)). fst c = it"
    by (auto simp: sl_begin_def split: list.splits)
  then have "length (filter (\<lambda>c. fst c \<noteq> it) (cells (lru_list s))) < length (cells (lru_list s))"
    by (auto simp: length_filter_less)
  then show "((sizeNow, s\<lparr>lru_map := (lru_map s)(fst e := None),
      lru_list := sl_erase it (lru_list s)\<rparr>), sizeNow, s)
    \<in> measure (\<lambda>(n, s). sl_size (lru_list s))"
    by (simp add: sl_erase_def sl_size_def)
qed

declare evict_loop.simps [simp del]

definition Lru_put :: "64 word \<Rightarrow> string \<Rightarrow> string \<Rightarrow> Lru \<Rightarrow> Lru result" where
  "Lru_put now url content s =
     (case lru_map s url of
        None \<Rightarrow>
          (let l = sl_push_back (url, content) (lru_list s)
           in case sl_last l of
                None \<Rightarrow> Inl Deref_End
              | Some it \<Rightarrow>
                  evict_loop (of_nat (sl_size l))
                    (s\<lparr>lru_list := l, lru_map := (lru_map s)(url \<mapsto> \<lparr>time = now, position = it\<rparr>)\<rparr>))
      | Some n \<Rightarrow>
          (case sl_deref (lru_list s) (position n) of
             None \<Rightarrow> Inl Bad_Iterator
           | Some e \<Rightarrow>
               (let l = sl_splice_end (position n)
                          (sl_store (position n) (fst e, content) (lru_list s))
                in Inr (s\<lparr>lru_list := l, lru_map := (lru_map s)(url \<mapsto> n\<lparr>time := now\<rparr>),
                          lru_size := of_nat (sl_size l)\<rparr>))))"

definition Lru_erase :: "string \<Rightarrow> Lru \<Rightarrow> Lru result" where
  "Lru_erase url s =
     (case lru_map s url of
        None \<Rightarrow> Inr s
      | Some n \<Rightarrow>
          (if sl_deref (lru_list s) (position n) = None then Inl Bad_Iterator
           else Inr (s\<lparr>lru_list := sl_erase (position n) (lru_list s),
                       lru_map := (lru_map s)(url := None)\<rparr>)))"

text \<open>The age \<open>time(nullptr) - node.time\<close> is an unsigned subtraction and wraps around.\<close>

definition Lru_expired :: "64 word \<Rightarrow> Lru \<Rightarrow> Node \<Rightarrow> bool" where
  "Lru_expired now s n \<longleftrightarrow> lru_expiredTime s < now - time n"

definition Lru_get :: "64 word \<Rightarrow> string \<Rightarrow> Lru \<Rightarrow> (string \<times> Lru) result" where
  "Lru_get now url s =
     (case lru_map s url of
        None \<Rightarrow> Inr ([], s)
      | Some n \<Rightarrow>
          (if Lru_expired now s n then rbind (Lru_erase url s) (\<lambda>s'. Inr ([], s'))
           else (case sl_deref (lru_list s) (position n) of
                   None \<Rightarrow> Inl Bad_Iterator
                 | Some e \<Rightarrow>
                     Inr (snd e, s\<lparr>lru_list := sl_splice_end (position n) (lru_list s)\<rparr>))))"

section \<open>Invariant and abstraction\<close>

definition key_index :: "(iter \<times> string \<times> string) list \<Rightarrow> string \<rightharpoonup> iter" where
  "key_index cs = map_of (map (\<lambda>(i, k, v). (k, i)) cs)"

definition lru_entries :: "Lru \<Rightarrow> (string \<times> string) list" where
  "lru_entries s = sl_values (lru_list s)"

definition lru_inv :: "Lru \<Rightarrow> bool" where
  [inv_defs]: "lru_inv s \<longleftrightarrow>
     sl_wf (lru_list s) \<and> distinct (map fst (lru_entries s)) \<and>
     (\<forall>k. map_option position (lru_map s k) = key_index (cells (lru_list s)) k)"

abbreviation drop_key :: "string \<Rightarrow> (string \<times> string) list \<Rightarrow> (string \<times> string) list" where
  "drop_key k \<equiv> filter (\<lambda>e. fst e \<noteq> k)"

section \<open>Cells and keys\<close>

lemma key_index_simps [simp]:
  "key_index [] = Map.empty"
  "key_index ((i, k, v) # cs) = (key_index cs)(k \<mapsto> i)"
  "key_index (cs @ ds) = key_index ds ++ key_index cs"
  by (simp_all add: key_index_def)

lemma key_index_Some:
  "distinct (map (fst \<circ> snd) cs) \<Longrightarrow> key_index cs k = Some i \<longleftrightarrow> (\<exists>v. (i, k, v) \<in> set cs)"
  by (induction cs) force+

lemma key_index_None: "key_index cs k = None \<longleftrightarrow> k \<notin> (fst \<circ> snd) ` set cs"
  by (auto simp: key_index_def map_of_eq_None_iff image_image split_beta)

lemma filter_map_store:
  "filter (\<lambda>c. fst c \<noteq> i) (map (\<lambda>c. if fst c = i then (i, x) else c) cs) =
   filter (\<lambda>c. fst c \<noteq> i) cs"
  by (induction cs) auto

lemma key_index_filter: "key_index (filter (\<lambda>c. fst (snd c) \<noteq> k) cs) = (key_index cs)(k := None)"
  by (induction cs) auto

lemma filter_id_key:
  assumes "distinct (map fst cs)" and "distinct (map (fst \<circ> snd) cs)" and "(i, k, v) \<in> set cs"
  shows "filter (\<lambda>c. fst c \<noteq> i) cs = filter (\<lambda>c. fst (snd c) \<noteq> k) cs"
proof (rule filter_cong [OF refl])
  fix c
  assume "c \<in> set cs"
  with assms show "(fst c \<noteq> i) = (fst (snd c) \<noteq> k)"
    by (metis comp_apply distinct_map fst_conv inj_onD snd_conv)
qed

lemma lru_invD:
  assumes "lru_inv s"
  shows "sl_wf (lru_list s)" and "distinct (map fst (cells (lru_list s)))"
    and "distinct (map (fst \<circ> snd) (cells (lru_list s)))"
    and "map_option position (lru_map s k) = key_index (cells (lru_list s)) k"
  using assms by (auto simp: inv_defs sl_wf_def lru_entries_def sl_values_def)

lemma lru_map_Some:
  assumes "lru_inv s" and "lru_map s k = Some n"
  obtains v where "(position n, k, v) \<in> set (cells (lru_list s))"
    and "sl_deref (lru_list s) (position n) = Some (k, v)"
    and "map_of (lru_entries s) k = Some v"
proof -
  note inv = lru_invD [OF assms(1)]
  have "key_index (cells (lru_list s)) k = Some (position n)"
    using inv(4) [of k] assms(2) by simp
  then obtain v where v: "(position n, k, v) \<in> set (cells (lru_list s))"
    using key_index_Some [OF inv(3)] by blast
  moreover have "sl_deref (lru_list s) (position n) = Some (k, v)"
    using v inv(1) by (simp add: sl_deref_Some_iff)
  moreover have "(k, v) \<in> set (lru_entries s)"
    using v by (force simp: lru_entries_def sl_values_def)
  then have "map_of (lru_entries s) k = Some v"
    using assms(1) by (simp add: inv_defs)
  ultimately show ?thesis by (rule that)
qed

lemma lru_map_None:
  assumes "lru_inv s"
  shows "lru_map s k = None \<longleftrightarrow> map_of (lru_entries s) k = None"
proof -
  have "lru_map s k = None \<longleftrightarrow> key_index (cells (lru_list s)) k = None"
    using lru_invD(4) [OF assms, of k] by (metis map_option_is_None)
  also have "\<dots> \<longleftrightarrow> k \<notin> fst ` set (lru_entries s)"
    by (simp add: key_index_None lru_entries_def sl_values_def image_comp)
  finally show ?thesis by (simp add: map_of_eq_None_iff)
qed

section \<open>Every operation on a cache that satisfies the invariant\<close>

lemma Lru_new_inv: "lru_inv (Lru_new junk n)"
  by (simp add: inv_defs Lru_new_def lru_entries_def sl_values_def sl_empty_def sl_wf_def)

lemma Lru_new_entries [simp]: "lru_entries (Lru_new junk n) = []"
  by (simp add: Lru_new_def lru_entries_def sl_values_def sl_empty_def)

lemma Lru_new_maxSize [simp]: "lru_maxSize (Lru_new junk n) = n"
  by (simp add: Lru_new_def)

text \<open>Moving a cell to the end, with the content it is given, as \<open>put\<close> and \<open>get\<close> do.\<close>

lemma touch_cells:
  assumes "lru_inv s" and "lru_map s k = Some n"
    and "l = sl_splice_end (position n) (sl_store (position n) (k, w) (lru_list s))"
  shows "cells l = filter (\<lambda>c. fst (snd c) \<noteq> k) (cells (lru_list s)) @ [(position n, k, w)]"
proof -
  note inv = lru_invD [OF assms(1)]
  let ?i = "position n" and ?cs = "cells (lru_list s)"
  obtain v where v: "(?i, k, v) \<in> set ?cs"
    using assms(1,2) by (rule lru_map_Some)
  let ?ds = "cells (sl_store ?i (k, w) (lru_list s))"
  have ds: "?ds = map (\<lambda>c. if fst c = ?i then (?i, k, w) else c) ?cs"
    by (simp add: sl_store_def)
  have "distinct (map fst ?ds)"
    using inv(2) unfolding ds map_fst_store .
  moreover have "(?i, k, w) \<in> set ?ds"
    using v unfolding ds by force
  ultimately have last: "filter (\<lambda>c. fst c = ?i) ?ds = [(?i, k, w)]"
    by (rule filter_fst_unique)
  have "filter (\<lambda>c. fst c \<noteq> ?i) ?ds = filter (\<lambda>c. fst c \<noteq> ?i) ?cs"
    unfolding ds by (rule filter_map_store)
  also have "\<dots> = filter (\<lambda>c. fst (snd c) \<noteq> k) ?cs"
    using inv(2,3) v by (rule filter_id_key)
  finally show ?thesis
    using last by (simp add: assms(3) sl_splice_end_def)
qed

lemma touch_inv:
  assumes "lru_inv s" and "lru_map s k = Some n"
    and l: "l = sl_splice_end (position n) (sl_store (position n) (k, w) (lru_list s))"
    and t: "lru_list t = l" "\<And>j. map_option position (lru_map t j) = map_option position (lru_map s j)"
  shows "lru_inv t" and "lru_entries t = drop_key k (lru_entries s) @ [(k, w)]"
proof -
  note inv = lru_invD [OF assms(1)]
  let ?cs = "cells (lru_list s)"
  have cs: "cells l = filter (\<lambda>c. fst (snd c) \<noteq> k) ?cs @ [(position n, k, w)]"
    using assms(1,2) l by (rule touch_cells)
  show entries: "lru_entries t = drop_key k (lru_entries s) @ [(k, w)]"
    by (simp add: lru_entries_def sl_values_def t(1) cs filter_map o_def)
  have wf: "sl_wf l"
    unfolding l by (intro sl.wf_splice sl.wf_store inv(1))
  have idx: "key_index (cells l) j = key_index ?cs j" for j
    using inv(4) [of k] assms(2) by (auto simp: cs key_index_filter map_add_def split: option.splits)
  have "distinct (map fst (lru_entries t))"
    using assms(1) unfolding entries by (auto simp: inv_defs distinct_fst_filter)
  then show "lru_inv t"
    using wf inv(4) by (simp add: inv_defs t idx)
qed

lemma Lru_put_existing:
  assumes "lru_inv s" and "lru_map s url = Some n"
  shows "\<exists>s'. Lru_put now url content s = Inr s' \<and> lru_inv s' \<and>
    lru_entries s' = drop_key url (lru_entries s) @ [(url, content)] \<and>
    lru_map s' = (lru_map s)(url \<mapsto> n\<lparr>time := now\<rparr>) \<and>
    lru_maxSize s' = lru_maxSize s \<and> lru_expiredTime s' = lru_expiredTime s"
proof -
  obtain v where "sl_deref (lru_list s) (position n) = Some (url, v)"
    using assms by (rule lru_map_Some)
  then have put: "Lru_put now url content s =
    Inr (s\<lparr>lru_list := sl_splice_end (position n) (sl_store (position n) (url, content) (lru_list s)),
      lru_map := (lru_map s)(url \<mapsto> n\<lparr>time := now\<rparr>),
      lru_size := of_nat (sl_size (sl_splice_end (position n)
        (sl_store (position n) (url, content) (lru_list s))))\<rparr>)" (is "_ = Inr ?t")
    using assms(2) by (simp add: Lru_put_def Let_def)
  have "lru_inv ?t" and "lru_entries ?t = drop_key url (lru_entries s) @ [(url, content)]"
    using assms(2) touch_inv [OF assms refl, of ?t content] by auto
  then show ?thesis using put by simp
qed

lemma push_inv:
  assumes "lru_inv s" and "lru_map s url = None"
    and t: "t = s\<lparr>lru_list := sl_push_back (url, content) (lru_list s),
      lru_map := (lru_map s)(url \<mapsto> \<lparr>time = now, position = fresh (lru_list s)\<rparr>)\<rparr>"
  shows "lru_inv t" and "lru_entries t = lru_entries s @ [(url, content)]"
proof -
  note inv = lru_invD [OF assms(1)]
  show entries: "lru_entries t = lru_entries s @ [(url, content)]"
    by (simp add: t lru_entries_def sl_values_def sl_push_back_def)
  have "url \<notin> fst ` set (lru_entries s)"
    using assms(1,2) lru_map_None by (simp add: map_of_eq_None_iff)
  then have "distinct (map fst (lru_entries t))"
    using assms(1) by (simp add: entries inv_defs)
  moreover have "key_index (cells (lru_list s)) url = None"
    using inv(4) [of url] assms(2) by simp
  then have "map_option position (lru_map t k) = key_index (cells (lru_list t)) k" for k
    using inv(4) [of k] by (simp add: t sl_push_back_def map_add_def split: option.splits)
  ultimately show "lru_inv t"
    using sl.wf_push [OF inv(1)] by (simp add: inv_defs t)
qed

text \<open>The guard of the eviction loop: within the capacity it stops at once, above it it cannot.\<close>

lemma evict_loop_done: "scast sizeNow \<le> lru_maxSize s \<Longrightarrow> evict_loop sizeNow s = Inr s"
  by (simp add: evict_loop.simps not_less [symmetric])

lemma evict_loop_fault:
  "lru_maxSize s < scast sizeNow \<Longrightarrow> sl_wf (lru_list s) \<Longrightarrow> evict_loop sizeNow s = Inl Deref_End"
proof (induction sizeNow s rule: evict_loop.induct)
  case (1 sizeNow s)
  show ?case
  proof (cases "cells (lru_list s)")
    case Nil
    with "1.prems"(1) show ?thesis
      by (simp add: evict_loop.simps [of sizeNow s] sl_begin_def)
  next
    case (Cons c cs)
    then have hd: "sl_begin (lru_list s) = Some (fst c)"
      "sl_deref (lru_list s) (fst c) = Some (snd c)"
      by (simp_all add: sl_begin_def sl_deref_def)
    have "evict_loop sizeNow (s\<lparr>lru_map := (lru_map s)(fst (snd c) := None),
        lru_list := sl_erase (fst c) (lru_list s)\<rparr>) = Inl Deref_End"
      using "1.prems" by (intro "1.IH" hd) (simp_all add: sl.wf_erase)
    with "1.prems"(1) hd show ?thesis
      by (simp add: evict_loop.simps [of sizeNow s])
  qed
qed

text \<open>
  A new url: \<open>put\<close> is right as long as the entry fits, and leaves defined behaviour when it
  does not. The length bound keeps \<open>int sizeNow\<close> positive.
\<close>

lemma scast_of_nat_int:
  assumes "n < 2 ^ 31"
  shows "(scast (of_nat n :: 32 word) :: 64 word) = of_nat n"
proof -
  have "signed_take_bit 31 (int n) = int n"
    using assms by (intro signed_take_bit_int_eq_self) simp_all
  then show ?thesis by (simp add: signed_of_nat)
qed

lemma of_nat_le_word64: "n < 2 ^ 64 \<Longrightarrow> (of_nat n :: 64 word) \<le> m \<longleftrightarrow> n \<le> unat m"
  by (simp add: word_le_nat_alt unat_of_nat)

lemma lru_size_entries: "sl_size (lru_list s) = length (lru_entries s)"
  by (simp add: sl_size_def lru_entries_def sl_values_def)

lemma Lru_put_new:
  assumes "lru_inv s" and "lru_map s url = None" and "length (lru_entries s) < 2 ^ 31 - 1"
  shows "Lru_put now url content s =
    (let t = s\<lparr>lru_list := sl_push_back (url, content) (lru_list s),
           lru_map := (lru_map s)(url \<mapsto> \<lparr>time = now, position = fresh (lru_list s)\<rparr>)\<rparr>
     in if length (lru_entries s) < unat (lru_maxSize s) then Inr t else Inl Deref_End)"
    (is "_ = (let t = ?t in _)")
proof -
  let ?n = "Suc (length (lru_entries s))"
  have "sl_size (lru_list ?t) = ?n"
    by (simp add: sl_size_def sl_push_back_def lru_entries_def sl_values_def)
  then have put: "Lru_put now url content s = evict_loop (of_nat ?n) ?t"
    using assms(2) by (simp add: Lru_put_def Let_def)
  have cast: "(scast (of_nat ?n :: 32 word) :: 64 word) = of_nat ?n"
    using assms(3) by (intro scast_of_nat_int) simp
  have le: "(of_nat ?n :: 64 word) \<le> lru_maxSize s \<longleftrightarrow> ?n \<le> unat (lru_maxSize s)"
    using assms(3) by (intro of_nat_le_word64) simp
  show ?thesis
  proof (cases "?n \<le> unat (lru_maxSize s)")
    case True
    then have "evict_loop (of_nat ?n) ?t = Inr ?t"
      using le cast by (intro evict_loop_done) simp
    with True put show ?thesis by (simp add: Let_def)
  next
    case False
    have "sl_wf (lru_list ?t)"
      using push_inv(1) [OF assms(1,2) refl] by (rule lru_invD)
    then have "evict_loop (of_nat ?n) ?t = Inl Deref_End"
      using le cast False by (intro evict_loop_fault) (simp_all add: not_le [symmetric])
    with False put show ?thesis by (simp add: Let_def)
  qed
qed

text \<open>Whatever the sizes are: a cache that \<open>put\<close> returns is well-formed.\<close>

lemma Lru_put_inv:
  assumes "lru_inv s" and "Lru_put now url content s = Inr s'"
  shows "lru_inv s'" and "lru_entries s' = drop_key url (lru_entries s) @ [(url, content)]"
proof -
  have "lru_inv s' \<and> lru_entries s' = drop_key url (lru_entries s) @ [(url, content)]"
  proof (cases "lru_map s url")
    case (Some n)
    then show ?thesis
      using Lru_put_existing [OF assms(1) Some, of now content] assms(2) by auto
  next
    case None
    let ?t = "s\<lparr>lru_list := sl_push_back (url, content) (lru_list s),
      lru_map := (lru_map s)(url \<mapsto> \<lparr>time = now, position = fresh (lru_list s)\<rparr>)\<rparr>"
    note t = push_inv [OF assms(1) None refl, where content = content and now = now]
    have "evict_loop (of_nat (sl_size (lru_list ?t))) ?t = Inr s'"
      using assms(2) None by (simp add: Lru_put_def Let_def)
    then have "s' = ?t"
      using evict_loop_fault [OF _ lru_invD(1) [OF t(1)]] evict_loop_done
      by (metis Inl_Inr_False not_le sum.inject(2))
    moreover have "drop_key url (lru_entries s) = lru_entries s"
      using lru_map_None [OF assms(1)] None by (force simp: map_of_eq_None_iff filter_id_conv)
    ultimately show ?thesis using t by simp
  qed
  then show "lru_inv s'" and "lru_entries s' = drop_key url (lru_entries s) @ [(url, content)]"
    by simp_all
qed

lemma Lru_erase_entries:
  assumes "lru_inv s"
  shows "\<exists>s'. Lru_erase url s = Inr s' \<and> lru_inv s' \<and> lru_map s' = (lru_map s)(url := None) \<and>
    lru_entries s' = drop_key url (lru_entries s) \<and>
    lru_maxSize s' = lru_maxSize s \<and> lru_expiredTime s' = lru_expiredTime s"
proof (cases "lru_map s url")
  case None
  then have "url \<notin> fst ` set (lru_entries s)"
    using assms lru_map_None by (simp add: map_of_eq_None_iff)
  then have "drop_key url (lru_entries s) = lru_entries s"
    by (auto simp: filter_id_conv)
  with None assms show ?thesis by (auto simp: Lru_erase_def)
next
  case (Some n)
  note inv = lru_invD [OF assms]
  let ?cs = "cells (lru_list s)"
  obtain v where v: "(position n, url, v) \<in> set ?cs"
    and d: "sl_deref (lru_list s) (position n) = Some (url, v)"
    using assms Some by (rule lru_map_Some)
  let ?t = "s\<lparr>lru_list := sl_erase (position n) (lru_list s), lru_map := (lru_map s)(url := None)\<rparr>"
  have cs: "cells (lru_list ?t) = filter (\<lambda>c. fst (snd c) \<noteq> url) ?cs"
    using filter_id_key [OF inv(2,3) v] by (simp add: sl_erase_def)
  then have entries: "lru_entries ?t = drop_key url (lru_entries s)"
    by (simp add: lru_entries_def sl_values_def filter_map o_def)
  have "lru_inv ?t"
    unfolding inv_defs entries cs key_index_filter
    using assms inv(4) sl.wf_erase [OF inv(1)] by (simp add: inv_defs distinct_fst_filter)
  with d Some entries show ?thesis by (simp add: Lru_erase_def)
qed

lemma Lru_get_hit:
  assumes "lru_inv s" and "lru_map s url = Some n" and "\<not> Lru_expired now s n"
  shows "\<exists>v s'. Lru_get now url s = Inr (v, s') \<and> map_of (lru_entries s) url = Some v \<and> lru_inv s' \<and>
    lru_entries s' = drop_key url (lru_entries s) @ [(url, v)] \<and> lru_map s' = lru_map s \<and>
    lru_maxSize s' = lru_maxSize s \<and> lru_expiredTime s' = lru_expiredTime s"
proof -
  obtain v where v: "(position n, url, v) \<in> set (cells (lru_list s))"
    and d: "sl_deref (lru_list s) (position n) = Some (url, v)"
    and m: "map_of (lru_entries s) url = Some v"
    using assms(1,2) by (rule lru_map_Some)
  let ?t = "s\<lparr>lru_list := sl_splice_end (position n) (lru_list s)\<rparr>"
  have "map (\<lambda>c. if fst c = position n then (position n, url, v) else c) (cells (lru_list s)) =
      cells (lru_list s)"
    using v lru_invD(2) [OF assms(1)] by (intro map_idI) (auto dest: eq_key_imp_eq_value)
  then have same: "sl_store (position n) (url, v) (lru_list s) = lru_list s"
    by (simp add: sl_store_def)
  have "lru_inv ?t" and "lru_entries ?t = drop_key url (lru_entries s) @ [(url, v)]"
    using touch_inv [OF assms(1,2) refl, of ?t v] by (simp_all add: same)
  then show ?thesis
    using assms(2,3) d m by (simp add: Lru_get_def)
qed

lemma Lru_get_expired:
  assumes "lru_inv s" and "lru_map s url = Some n" and "Lru_expired now s n"
  shows "\<exists>s'. Lru_get now url s = Inr ([], s') \<and> lru_inv s' \<and> lru_map s' = (lru_map s)(url := None) \<and>
    lru_entries s' = drop_key url (lru_entries s) \<and>
    lru_maxSize s' = lru_maxSize s \<and> lru_expiredTime s' = lru_expiredTime s"
  using Lru_erase_entries [OF assms(1), of url] assms(2,3) by (auto simp: Lru_get_def)

lemma Lru_get_miss: "lru_map s url = None \<Longrightarrow> Lru_get now url s = Inr ([], s)"
  by (simp add: Lru_get_def)

text \<open>The copy constructor keeps the entries and stamps every node with the current time.\<close>

lemma rebuild_map_eq:
  "distinct (map (fst \<circ> snd) cs) \<Longrightarrow> rebuild_map now cs m k =
     (case key_index cs k of None \<Rightarrow> m k | Some i \<Rightarrow> Some \<lparr>time = now, position = i\<rparr>)"
proof (induction cs arbitrary: m)
  case Nil
  then show ?case by simp
next
  case (Cons c cs)
  obtain i u v where c: "c = (i, u, v)" by (cases c)
  have "key_index cs u = None"
    using Cons.prems by (simp add: c key_index_None)
  then show ?case
    using Cons by (auto simp: c split: option.splits)
qed

lemma Lru_copy_entries:
  assumes "lru_inv s"
  shows "lru_inv (Lru_copy now s)" and "lru_entries (Lru_copy now s) = lru_entries s"
    and "lru_maxSize (Lru_copy now s) = lru_maxSize s"
    and "lru_map (Lru_copy now s) k = Some n \<Longrightarrow> time n = now"
    and "lru_map (Lru_copy now s) k = None \<longleftrightarrow> lru_map s k = None"
proof -
  let ?t = "Lru_copy now s" and ?cs = "cells (sl_copy (lru_list s))"
  show entries: "lru_entries ?t = lru_entries s"
    by (simp add: Lru_copy_def Let_def lru_entries_def)
  have "map fst (map snd ?cs) = map fst (lru_entries s)"
    using sl_copy_values [of "lru_list s"] by (simp add: lru_entries_def sl_values_def del: map_map)
  then have d: "distinct (map (fst \<circ> snd) ?cs)"
    using assms by (simp add: inv_defs)
  have m: "lru_map ?t k = map_option (\<lambda>i. \<lparr>time = now, position = i\<rparr>) (key_index ?cs k)" for k
    by (simp add: Lru_copy_def Let_def rebuild_map_eq [OF d] split: option.splits)
  have l: "lru_list ?t = sl_copy (lru_list s)"
    by (simp add: Lru_copy_def Let_def)
  show inv: "lru_inv ?t"
    unfolding lru_inv_def entries m l using assms
    by (simp add: inv_defs option.map_comp o_def option.map_ident)
  show "lru_maxSize ?t = lru_maxSize s"
    by (simp add: Lru_copy_def Let_def)
  show "lru_map ?t k = Some n \<Longrightarrow> time n = now"
    using m by auto
  show "lru_map ?t k = None \<longleftrightarrow> lru_map s k = None"
    using lru_map_None [OF inv] lru_map_None [OF assms] entries by simp
qed

section \<open>The contract of a recency store\<close>

text \<open>
  What a client of the LRU cache (the memory cache) may rely on: \<open>ents\<close> lists the pairs by
  use, \<open>live now u s\<close> says that \<open>u\<close> is stored and not expired.
\<close>

locale recency_store =
  fixes inv :: "'s \<Rightarrow> bool"
    and ents :: "'s \<Rightarrow> (string \<times> string) list"
    and cap :: "'s \<Rightarrow> nat"
    and live :: "64 word \<Rightarrow> string \<Rightarrow> 's \<Rightarrow> bool"
    and put :: "64 word \<Rightarrow> string \<Rightarrow> string \<Rightarrow> 's \<Rightarrow> 's result"
    and get :: "64 word \<Rightarrow> string \<Rightarrow> 's \<Rightarrow> (string \<times> 's) result"
  assumes keys_distinct: "inv s \<Longrightarrow> distinct (map fst (ents s))"
    and live_stored: "inv s \<Longrightarrow> live now u s \<Longrightarrow> u \<in> fst ` set (ents s)"
    and put_fits: "inv s \<Longrightarrow> length (ents s) < 2 ^ 31 - 1 \<Longrightarrow>
          u \<in> fst ` set (ents s) \<or> length (ents s) < cap s \<Longrightarrow>
          \<exists>s'. put now u c s = Inr s' \<and> inv s' \<and> cap s' = cap s \<and>
               ents s' = drop_key u (ents s) @ [(u, c)] \<and> live now u s'"
    and get_live: "inv s \<Longrightarrow> live now u s \<Longrightarrow>
          \<exists>v s'. get now u s = Inr (v, s') \<and> inv s' \<and> cap s' = cap s \<and>
                 map_of (ents s) u = Some v \<and> ents s' = drop_key u (ents s) @ [(u, v)]"
    and get_dead: "inv s \<Longrightarrow> \<not> live now u s \<Longrightarrow>
          \<exists>s'. get now u s = Inr ([], s') \<and> inv s' \<and> cap s' = cap s \<and>
               ents s' = drop_key u (ents s)"
begin

lemma get_total: "inv s \<Longrightarrow> \<exists>v s'. get now u s = Inr (v, s') \<and> inv s' \<and> cap s' = cap s"
  using get_live [of s now u] get_dead [of s now u] by blast

lemma get_length: "inv s \<Longrightarrow> get now u s = Inr (v, s') \<Longrightarrow> length (ents s') \<le> length (ents s)"
proof (cases "live now u s")
  case True
  assume inv: "inv s" and g: "get now u s = Inr (v, s')"
  from live_stored [OF inv True] have "\<exists>e \<in> set (ents s). fst e = u" by auto
  then have "length (drop_key u (ents s)) < length (ents s)"
    by (auto intro!: length_filter_less)
  with get_live [OF inv True] g show ?thesis by auto
next
  case False
  assume inv: "inv s" and g: "get now u s = Inr (v, s')"
  with get_dead [OF inv False] show ?thesis by auto
qed

lemma get_keys: "inv s \<Longrightarrow> get now u s = Inr (v, s') \<Longrightarrow>
    fst ` set (ents s') \<subseteq> fst ` set (ents s)"
  using get_live [of s now u] get_dead [of s now u] live_stored [of s now u]
  by (cases "live now u s") auto

text \<open>A read right after the write returns what was written.\<close>

lemma put_get:
  assumes "inv s" and "length (ents s) < 2 ^ 31 - 1"
    and "u \<in> fst ` set (ents s) \<or> length (ents s) < cap s"
  shows "\<exists>s' s''. put now u c s = Inr s' \<and> get now u s' = Inr (c, s'') \<and> ents s'' = ents s'"
proof -
  obtain s' where s': "put now u c s = Inr s'" "inv s'" "live now u s'"
    and e: "ents s' = drop_key u (ents s) @ [(u, c)]"
    using put_fits [OF assms] by blast
  obtain v s'' where "get now u s' = Inr (v, s'')" "map_of (ents s') u = Some v"
    "ents s'' = drop_key u (ents s') @ [(u, v)]"
    using get_live [OF s'(2,3)] by blast
  moreover have "map_of (ents s') u = Some c"
    unfolding e by (simp add: map_of_filter_neq map_add_def)
  ultimately show ?thesis using s'(1) e by auto
qed

text \<open>Writing one url does not change what is stored for the others.\<close>

lemma put_other:
  "inv s \<Longrightarrow> put now u c s = Inr s' \<Longrightarrow> length (ents s) < 2 ^ 31 - 1 \<Longrightarrow>
   u \<in> fst ` set (ents s) \<or> length (ents s) < cap s \<Longrightarrow> w \<noteq> u \<Longrightarrow>
   map_of (ents s') w = map_of (ents s) w"
  using put_fits [of s u now c] by (auto simp: map_of_filter_neq map_add_def split: option.splits)

end

definition lru_cap :: "Lru \<Rightarrow> nat" where
  "lru_cap s = unat (lru_maxSize s)"

definition lru_live :: "64 word \<Rightarrow> string \<Rightarrow> Lru \<Rightarrow> bool" where
  "lru_live now u s \<longleftrightarrow> (case lru_map s u of None \<Rightarrow> False | Some n \<Rightarrow> \<not> Lru_expired now s n)"

lemma lru_key_stored: "lru_inv s \<Longrightarrow> u \<in> fst ` set (lru_entries s) \<longleftrightarrow> lru_map s u \<noteq> None"
  using lru_map_None [of s u] by (simp add: map_of_eq_None_iff)

text \<open>The only fault of \<open>put\<close> is the one of the eviction loop.\<close>

lemma Lru_put_fault:
  assumes "lru_inv s" and "Lru_put now url content s = Inl e"
  shows "e = Deref_End"
proof (cases "lru_map s url")
  case (Some n)
  then show ?thesis
    using Lru_put_existing [OF assms(1) Some, of now content] assms(2) by auto
next
  case None
  let ?t = "s\<lparr>lru_list := sl_push_back (url, content) (lru_list s),
    lru_map := (lru_map s)(url \<mapsto> \<lparr>time = now, position = fresh (lru_list s)\<rparr>)\<rparr>"
  have wf: "sl_wf (lru_list ?t)"
    using push_inv(1) [OF assms(1) None refl] by (rule lru_invD)
  have "evict_loop (of_nat (sl_size (lru_list ?t))) ?t = Inl e"
    using assms(2) None by (simp add: Lru_put_def Let_def)
  then show ?thesis
    using evict_loop_fault [OF _ wf] evict_loop_done by (metis Inr_Inl_False not_le sum.inject(1))
qed

lemma lru_put_fits:
  assumes "lru_inv s" and "length (lru_entries s) < 2 ^ 31 - 1"
    and "u \<in> fst ` set (lru_entries s) \<or> length (lru_entries s) < lru_cap s"
  shows "\<exists>s'. Lru_put now u c s = Inr s' \<and> lru_inv s' \<and> lru_cap s' = lru_cap s \<and>
    lru_entries s' = drop_key u (lru_entries s) @ [(u, c)] \<and> lru_live now u s'"
proof (cases "lru_map s u")
  case None
  then have new: "u \<notin> fst ` set (lru_entries s)"
    using lru_key_stored [OF assms(1)] by simp
  then have "drop_key u (lru_entries s) = lru_entries s"
    by (auto simp: filter_id_conv)
  moreover have "length (lru_entries s) < unat (lru_maxSize s)"
    using new assms(3) by (simp add: lru_cap_def)
  ultimately show ?thesis
    using Lru_put_new [OF assms(1) None assms(2), of now c] push_inv [OF assms(1) None refl, where content = c and now = now]
    by (simp add: Let_def lru_cap_def lru_live_def Lru_expired_def)
next
  case (Some n)
  then show ?thesis
    using Lru_put_existing [OF assms(1) Some, of now c]
    by (auto simp: lru_cap_def lru_live_def Lru_expired_def)
qed

interpretation lru: recency_store lru_inv lru_entries lru_cap lru_live Lru_put Lru_get
proof
  fix s now u
  assume inv: "lru_inv s"
  show "distinct (map fst (lru_entries s))" using inv by (simp add: inv_defs)
  show "lru_live now u s \<Longrightarrow> u \<in> fst ` set (lru_entries s)"
    using lru_key_stored [OF inv] by (auto simp: lru_live_def split: option.splits)
  show "lru_live now u s \<Longrightarrow> \<exists>v s'. Lru_get now u s = Inr (v, s') \<and> lru_inv s' \<and> lru_cap s' = lru_cap s \<and>
      map_of (lru_entries s) u = Some v \<and> lru_entries s' = drop_key u (lru_entries s) @ [(u, v)]"
    using Lru_get_hit [OF inv, of u _ now]
    by (fastforce simp: lru_live_def lru_cap_def split: option.splits)
  assume dead: "\<not> lru_live now u s"
  show "\<exists>s'. Lru_get now u s = Inr ([], s') \<and> lru_inv s' \<and> lru_cap s' = lru_cap s \<and>
      lru_entries s' = drop_key u (lru_entries s)"
  proof (cases "lru_map s u")
    case None
    then have "drop_key u (lru_entries s) = lru_entries s"
      using lru_key_stored [OF inv, of u] by (auto simp: filter_id_conv)
    with None inv show ?thesis by (simp add: Lru_get_miss)
  next
    case (Some n)
    with dead Lru_get_expired [OF inv Some, of now] show ?thesis
      by (auto simp: lru_live_def lru_cap_def)
  qed
qed (rule lru_put_fits)

section \<open>Properties\<close>

text \<open>
  C6: \<open>put\<close> implements the abstract recency store. On a well-formed cache, when the url is
  already cached or there is room for one more entry, \<open>put\<close> returns a well-formed cache
  whose sequence of entries is the old one without the url, followed by the new pair (the
  most recently used end), with the capacity unchanged.
\<close>

theorem Lru_put_refines:
  assumes "lru_inv s" and "length (lru_entries s) < 2 ^ 31 - 1"
    and "u \<in> fst ` set (lru_entries s) \<or> length (lru_entries s) < unat (lru_maxSize s)"
  shows "\<exists>s'. Lru_put now u c s = Inr s' \<and> lru_inv s' \<and> lru_maxSize s' = lru_maxSize s \<and>
    lru_entries s' = filter (\<lambda>e. fst e \<noteq> u) (lru_entries s) @ [(u, c)]"
  using lru.put_fits [OF assms(1,2), of u now c] assms(3)
  by (auto simp: lru_cap_def word_unat_eq_iff)

theorem Lru_put_refines_witness:
  "\<exists>s'. Lru_put 5 ''/a'' ''x'' (Lru_new 0 2) = Inr s' \<and> lru_inv s' \<and>
    lru_maxSize s' = lru_maxSize (Lru_new 0 2) \<and> lru_entries s' = [(''/a'', ''x'')]"
  using Lru_put_refines [of "Lru_new 0 2" "''/a''" 5 "''x''"]
  by (simp add: Lru_new_inv)

text \<open>
  Storing a new url in a full cache leaves defined behaviour. The eviction loop tests
  \<open>sizeNow\<close>, which its body never updates, so it erases every entry and then dereferences
  \<open>begin()\<close> of the empty list; no entry survives and no cache is returned.
\<close>

lemma Lru_put_full_faults:
  assumes "lru_inv s" and "length (lru_entries s) < 2 ^ 31 - 1"
    and "u \<notin> fst ` set (lru_entries s)" and "unat (lru_maxSize s) \<le> length (lru_entries s)"
  shows "Lru_put now u c s = Inl Deref_End"
proof -
  have "lru_map s u = None"
    using assms(3) lru_key_stored [OF assms(1)] by simp
  then show ?thesis
    using Lru_put_new [OF assms(1) _ assms(2)] assms(4) by (simp add: Let_def)
qed

lemma Lru_put_full_faults_example: "Lru_put 5 ''/a'' ''x'' (Lru_new 0 0) = Inl Deref_End"
  using Lru_put_full_faults [of "Lru_new 0 0" "''/a''" 5 "''x''"]
  by (simp add: Lru_new_inv)

text \<open>
  C7: \<open>get\<close> on a well-formed cache never faults. A url that is cached and not older than
  \<open>expiredTime_\<close> (the age computed by unsigned subtraction) gives its content and becomes
  the most recently used entry; any other url gives the empty string, and its entry, if it
  had one, is gone.
\<close>

theorem Lru_get_refines:
  assumes "lru_inv s"
  shows "\<exists>r s'. Lru_get now u s = Inr (r, s') \<and> lru_inv s' \<and>
    (case lru_map s u of
       Some n \<Rightarrow> (if now - time n \<le> lru_expiredTime s
                 then map_of (lru_entries s) u = Some r \<and>
                      lru_entries s' = filter (\<lambda>e. fst e \<noteq> u) (lru_entries s) @ [(u, r)]
                 else r = [] \<and> lru_entries s' = filter (\<lambda>e. fst e \<noteq> u) (lru_entries s))
     | None \<Rightarrow> r = [] \<and> s' = s)"
proof (cases "lru_map s u")
  case None
  with assms show ?thesis by (simp add: Lru_get_miss)
next
  case (Some n)
  show ?thesis
  proof (cases "Lru_expired now s n")
    case True
    then show ?thesis
      using Lru_get_expired [OF assms Some True] Some by (auto simp: Lru_expired_def not_le)
  next
    case False
    then show ?thesis
      using Lru_get_hit [OF assms Some False] Some by (auto simp: Lru_expired_def not_less)
  qed
qed

theorem Lru_get_refines_witness:
  "\<exists>r s'. Lru_get 9 ''/a'' (Lru_new 0 2) = Inr (r, s') \<and> lru_inv s' \<and> r = [] \<and> s' = Lru_new 0 2"
  using Lru_get_refines [OF Lru_new_inv, of 9 "''/a''" 0 2] by (auto simp: Lru_new_def)

text \<open>
  Round trip with time: after \<open>put\<close> at time \<open>t\<close> into a cache with room, \<open>get\<close> at time
  \<open>now\<close> returns the stored content exactly when \<open>now - t\<close>, taken modulo \<open>2^64\<close>, is at most
  \<open>expiredTime_\<close>, and the empty string otherwise, also where the clock went backwards.
\<close>

lemma Lru_put_get_time:
  assumes "lru_inv s" and "length (lru_entries s) < 2 ^ 31 - 1"
    and "length (lru_entries s) < unat (lru_maxSize s)"
  shows "\<exists>s' s''. Lru_put t u c s = Inr s' \<and>
    Lru_get now u s' = Inr (if now - t \<le> lru_expiredTime s then c else [], s'')"
proof -
  obtain n where n: "\<And>s'. Lru_put t u c s = Inr s' \<Longrightarrow>
      lru_map s' u = Some n \<and> time n = t \<and> lru_expiredTime s' = lru_expiredTime s"
  proof (cases "lru_map s u")
    case None
    then show ?thesis
      using Lru_put_new [OF assms(1) None assms(2), of t c] assms(3)
      by (intro that [of "\<lparr>time = t, position = fresh (lru_list s)\<rparr>"]) (auto simp: Let_def)
  next
    case (Some n)
    then show ?thesis
      using Lru_put_existing [OF assms(1) Some, of t c]
      by (intro that [of "n\<lparr>time := t\<rparr>"]) auto
  qed
  obtain s' where s': "Lru_put t u c s = Inr s'" "lru_inv s'"
    and e: "lru_entries s' = drop_key u (lru_entries s) @ [(u, c)]"
    using lru.put_fits [OF assms(1,2), of u t c] assms(3) by (auto simp: lru_cap_def)
  note n = n [OF s'(1)]
  have "map_of (lru_entries s') u = Some c"
    by (simp add: e map_of_filter_neq map_add_def)
  then show ?thesis
    using Lru_get_hit [OF s'(2), of u n now] Lru_get_expired [OF s'(2), of u n now] n s'(1)
    by (cases "Lru_expired now s' n") (auto simp: Lru_expired_def not_less not_le)
qed

lemma Lru_put_get_time_example:
  "\<exists>s' s''. Lru_put 7 ''/a'' ''x'' (Lru_new 0 2) = Inr s' \<and> Lru_get 10 ''/a'' s' = Inr (''x'', s'')"
  using Lru_put_get_time [of "Lru_new 0 2" 7 "''/a''" "''x''" 10]
  by (simp add: Lru_new_inv) (simp add: Lru_new_def INT_MAX_def)

end
