(* ===== verification/Memory_Cache.thy ===== *)
theory Memory_Cache
  imports Lru
begin

text \<open>
  \<open>class MemoryCache\<close> of \<open>src/cache/memoryCache.h\<close>: a \<open>shared_ptr<Lru>\<close> and a mutex, shared
  by the threads of the pool. A reader copies the pointer under the mutex and calls \<open>get\<close>
  after it released the mutex; a writer holds the mutex throughout and copies the cache
  first when the pointer is not unique.

  The \<open>Lru\<close> objects live in a store indexed by addresses. A reference count is the number
  of \<open>shared_ptr\<close>s with an address: the member \<open>lru_cache\<close> and the local
  \<open>lru_cache_temp\<close> of each reader. An object whose count drops to zero is freed. The
  critical sections of the two methods are the functions below; the relation \<open>mc_step\<close>
  interleaves them over any number of threads, one rule per atomic section.
\<close>

section \<open>State\<close>

datatype mc_pc =
    MC_Idle
  | MC_Holding string          \<comment> \<open>\<open>readCache\<close> after its critical section, before \<open>get\<close>\<close>
  | MC_Locked string string    \<comment> \<open>\<open>writeCache\<close> after \<open>mx.lock()\<close>\<close>
  | MC_Ready string string     \<comment> \<open>\<open>writeCache\<close> after the copy-on-write test\<close>

record MemoryCache =
  mc_heap :: "nat \<rightharpoonup> Lru"
  mc_next :: nat
  mc_lru_cache :: nat
  mc_mx :: "nat option"
  mc_temps :: "(nat \<times> nat) list"
  mc_pcs :: "nat \<Rightarrow> mc_pc"

definition use_count :: "MemoryCache \<Rightarrow> nat \<Rightarrow> nat" where
  "use_count s a = (if mc_lru_cache s = a then 1 else 0) + length (filter (\<lambda>p. snd p = a) (mc_temps s))"

definition unique :: "MemoryCache \<Rightarrow> bool" where
  "unique s \<longleftrightarrow> use_count s (mc_lru_cache s) = 1"

text \<open>The destructor of a \<open>shared_ptr\<close>, after the pointer itself is gone from the state.\<close>

definition drop_ref :: "nat \<Rightarrow> MemoryCache \<Rightarrow> MemoryCache" where
  "drop_ref a s = (if use_count s a = 0 then s\<lparr>mc_heap := (mc_heap s)(a := None)\<rparr> else s)"

text \<open>\<open>MemoryCache(int n)\<close>: the capacity is sign-extended to \<open>size_t\<close>.\<close>

definition MemoryCache_new :: "64 word \<Rightarrow> 32 word \<Rightarrow> MemoryCache" where
  "MemoryCache_new junk n = \<lparr>mc_heap = [0 \<mapsto> Lru_new junk (scast n)], mc_next = 1,
     mc_lru_cache = 0, mc_mx = None, mc_temps = [], mc_pcs = (\<lambda>_. MC_Idle)\<rparr>"

section \<open>The sections of \<open>readCache\<close> and \<open>writeCache\<close>\<close>

text \<open>Lines 28-33: copy the pointer under the mutex; the assertion is about the copy just made.\<close>

definition readCache_snapshot :: "nat \<Rightarrow> MemoryCache \<Rightarrow> MemoryCache result" where
  "readCache_snapshot t s =
     (let s' = s\<lparr>mc_temps := (t, mc_lru_cache s) # mc_temps s\<rparr>
      in if unique s' then Inl Assert_Fail else Inr s')"

text \<open>Line 34: \<open>get\<close> through the local pointer, which the return destroys.\<close>

definition readCache_get :: "nat \<Rightarrow> 64 word \<Rightarrow> string \<Rightarrow> MemoryCache \<Rightarrow> (string \<times> MemoryCache) result" where
  "readCache_get t now url s =
     (case map_of (mc_temps s) t of
        None \<Rightarrow> Inl Null_Deref
      | Some a \<Rightarrow>
          (case mc_heap s a of
             None \<Rightarrow> Inl Null_Deref
           | Some l \<Rightarrow>
               rbind (Lru_get now url l)
                 (\<lambda>(v, l'). Inr (v, drop_ref a (s\<lparr>mc_heap := (mc_heap s)(a \<mapsto> l'),
                   mc_temps := filter (\<lambda>p. fst p \<noteq> t) (mc_temps s)\<rparr>)))))"

text \<open>Lines 39-43: the copy-on-write.\<close>

definition writeCache_cow :: "64 word \<Rightarrow> MemoryCache \<Rightarrow> MemoryCache result" where
  "writeCache_cow now s =
     (if unique s then Inr s
      else (case mc_heap s (mc_lru_cache s) of
              None \<Rightarrow> Inl Null_Deref
            | Some l \<Rightarrow>
                Inr (drop_ref (mc_lru_cache s)
                  (s\<lparr>mc_heap := (mc_heap s)(mc_next s \<mapsto> Lru_copy now l),
                     mc_next := Suc (mc_next s), mc_lru_cache := mc_next s\<rparr>))))"

text \<open>Lines 44-45: the assertion and the \<open>put\<close>.\<close>

definition writeCache_put :: "64 word \<Rightarrow> string \<Rightarrow> string \<Rightarrow> MemoryCache \<Rightarrow> MemoryCache result" where
  "writeCache_put now url respond s =
     (if \<not> unique s then Inl Assert_Fail
      else (case mc_heap s (mc_lru_cache s) of
              None \<Rightarrow> Inl Null_Deref
            | Some l \<Rightarrow>
                rbind (Lru_put now url respond l)
                  (\<lambda>l'. Inr (s\<lparr>mc_heap := (mc_heap s)(mc_lru_cache s \<mapsto> l')\<rparr>))))"

text \<open>The two methods run by one thread, with nothing in between.\<close>

definition MemoryCache_readCache :: "nat \<Rightarrow> 64 word \<Rightarrow> string \<Rightarrow> MemoryCache
    \<Rightarrow> (string \<times> MemoryCache) result" where
  "MemoryCache_readCache t now url s = rbind (readCache_snapshot t s) (readCache_get t now url)"

definition MemoryCache_writeCache :: "64 word \<Rightarrow> string \<Rightarrow> string \<Rightarrow> MemoryCache
    \<Rightarrow> MemoryCache result" where
  "MemoryCache_writeCache now url respond s =
     rbind (writeCache_cow now s) (writeCache_put now url respond)"

section \<open>Interleavings\<close>

inductive mc_step :: "MemoryCache \<Rightarrow> MemoryCache \<Rightarrow> bool" where
  mc_snapshot: "mc_pcs s t = MC_Idle \<Longrightarrow> mc_mx s = None \<Longrightarrow> readCache_snapshot t s = Inr s' \<Longrightarrow>
     mc_step s (s'\<lparr>mc_pcs := (mc_pcs s)(t := MC_Holding url)\<rparr>)"
| mc_get: "mc_pcs s t = MC_Holding url \<Longrightarrow> readCache_get t now url s = Inr (v, s') \<Longrightarrow>
     mc_step s (s'\<lparr>mc_pcs := (mc_pcs s)(t := MC_Idle)\<rparr>)"
| mc_lock: "mc_pcs s t = MC_Idle \<Longrightarrow> mc_mx s = None \<Longrightarrow>
     mc_step s (s\<lparr>mc_mx := Some t, mc_pcs := (mc_pcs s)(t := MC_Locked url c)\<rparr>)"
| mc_cow: "mc_pcs s t = MC_Locked url c \<Longrightarrow> writeCache_cow now s = Inr s' \<Longrightarrow>
     mc_step s (s'\<lparr>mc_pcs := (mc_pcs s)(t := MC_Ready url c)\<rparr>)"
| mc_put: "mc_pcs s t = MC_Ready url c \<Longrightarrow> writeCache_put now url c s = Inr s' \<Longrightarrow>
     mc_step s (s'\<lparr>mc_mx := None, mc_pcs := (mc_pcs s)(t := MC_Idle)\<rparr>)"

definition mc_init :: "MemoryCache \<Rightarrow> bool" where
  "mc_init s \<longleftrightarrow> (\<exists>junk n. s = MemoryCache_new junk n)"

section \<open>Invariant\<close>

text \<open>An object is allocated exactly while some pointer refers to it, and is well-formed.\<close>

definition mc_heap_inv :: "MemoryCache \<Rightarrow> bool" where
  [inv_defs]: "mc_heap_inv s \<longleftrightarrow>
     (\<forall>a. mc_heap s a \<noteq> None \<longleftrightarrow> 0 < use_count s a) \<and>
     (\<forall>a l. mc_heap s a = Some l \<longrightarrow> lru_inv l) \<and>
     (\<forall>a. mc_next s \<le> a \<longrightarrow> mc_heap s a = None)"

text \<open>
  The locals agree with the program counters, and only the holder of the mutex writes:
  stated over the reading threads, the counters, the mutex and uniqueness.
\<close>

fun reading :: "mc_pc \<Rightarrow> bool" where
  "reading (MC_Holding u) = True"
| "reading _ = False"

fun ready :: "mc_pc \<Rightarrow> bool" where
  "ready (MC_Ready u c) = True"
| "ready _ = False"

fun writing :: "mc_pc \<Rightarrow> bool" where
  "writing (MC_Locked u c) = True"
| "writing (MC_Ready u c) = True"
| "writing _ = False"

definition mc_ctl :: "nat list \<Rightarrow> (nat \<Rightarrow> mc_pc) \<Rightarrow> nat option \<Rightarrow> bool \<Rightarrow> bool" where
  "mc_ctl R p m q \<longleftrightarrow> distinct R \<and> (\<forall>t. t \<in> set R \<longleftrightarrow> reading (p t)) \<and>
     (\<forall>t. writing (p t) \<longleftrightarrow> m = Some t) \<and> (\<forall>t. ready (p t) \<longrightarrow> q)"

definition mc_ctl_inv :: "MemoryCache \<Rightarrow> bool" where
  "mc_ctl_inv s \<longleftrightarrow> mc_ctl (map fst (mc_temps s)) (mc_pcs s) (mc_mx s) (unique s)"

definition mc_inv :: "MemoryCache \<Rightarrow> bool" where
  "mc_inv s \<longleftrightarrow> mc_heap_inv s \<and> mc_ctl_inv s"

section \<open>Reference counts\<close>

lemma use_count_simps [simp]:
  "use_count (s\<lparr>mc_heap := h\<rparr>) a = use_count s a"
  "use_count (s\<lparr>mc_pcs := p\<rparr>) a = use_count s a"
  "use_count (s\<lparr>mc_mx := m\<rparr>) a = use_count s a"
  "use_count (s\<lparr>mc_next := n\<rparr>) a = use_count s a"
  "use_count (drop_ref b s) a = use_count s a"
  by (simp_all add: use_count_def drop_ref_def)

lemma drop_ref_fields [simp]:
  "mc_temps (drop_ref a s) = mc_temps s" "mc_lru_cache (drop_ref a s) = mc_lru_cache s"
  "mc_next (drop_ref a s) = mc_next s" "mc_mx (drop_ref a s) = mc_mx s"
  "mc_pcs (drop_ref a s) = mc_pcs s"
  by (simp_all add: drop_ref_def)

lemma drop_ref_heap:
  "mc_heap (drop_ref a s) b = (if b = a \<and> use_count s a = 0 then None else mc_heap s b)"
  by (simp add: drop_ref_def)

lemma unique_simps [simp]:
  "unique (s\<lparr>mc_heap := h\<rparr>) = unique s" "unique (s\<lparr>mc_pcs := p\<rparr>) = unique s"
  "unique (s\<lparr>mc_mx := m\<rparr>) = unique s" "unique (drop_ref b s) = unique s"
  by (simp_all add: unique_def)

lemma count_cons:
  "use_count (s\<lparr>mc_temps := (t, b) # mc_temps s\<rparr>) a = use_count s a + (if a = b then 1 else 0)"
  by (simp add: use_count_def)

lemma count_remove:
  "distinct (map fst ts) \<Longrightarrow> map_of ts t = Some a \<Longrightarrow>
   length (filter (\<lambda>p. snd p = b) (filter (\<lambda>p. fst p \<noteq> t) ts)) + (if b = a then 1 else 0) =
   length (filter (\<lambda>p. snd p = b) ts)"
proof (induction ts)
  case Nil
  then show ?case by simp
next
  case (Cons p ts)
  show ?case
  proof (cases "fst p = t")
    case True
    then have "t \<notin> fst ` set ts" using Cons.prems(1) by simp
    then have "filter (\<lambda>p. fst p \<noteq> t) ts = ts" by (force simp: filter_id_conv)
    with True Cons.prems(2) show ?thesis by auto
  next
    case False
    with Cons show ?thesis by auto
  qed
qed

lemma held_counts: "(t, a) \<in> set (mc_temps s) \<Longrightarrow> 0 < use_count s a"
  by (force simp: use_count_def filter_empty_conv length_greater_0_conv)

lemma heap_invD:
  assumes "mc_heap_inv s"
  shows "0 < use_count s a \<Longrightarrow> \<exists>l. mc_heap s a = Some l"
    and "use_count s a = 0 \<Longrightarrow> mc_heap s a = None"
    and "mc_heap s a = Some l \<Longrightarrow> lru_inv l"
    and "mc_next s \<le> a \<Longrightarrow> mc_heap s a = None"
proof -
  have "(\<exists>l. mc_heap s a = Some l) = (0 < use_count s a)"
    using assms unfolding mc_heap_inv_def not_None_eq by blast
  then show "0 < use_count s a \<Longrightarrow> \<exists>l. mc_heap s a = Some l"
    and "use_count s a = 0 \<Longrightarrow> mc_heap s a = None" by auto
  show "mc_heap s a = Some l \<Longrightarrow> lru_inv l" and "mc_next s \<le> a \<Longrightarrow> mc_heap s a = None"
    using assms unfolding mc_heap_inv_def by blast+
qed

lemma lru_cache_counts [simp]: "0 < use_count s (mc_lru_cache s)"
  by (simp add: use_count_def)

text \<open>The pointer is unique exactly when no reader holds the current object.\<close>

lemma unique_iff: "unique s \<longleftrightarrow> mc_lru_cache s \<notin> snd ` set (mc_temps s)"
  by (force simp: unique_def use_count_def filter_empty_conv)

lemma lru_cache_allocated:
  assumes "mc_heap_inv s"
  obtains l where "mc_heap s (mc_lru_cache s) = Some l" and "lru_inv l"
  using heap_invD [OF assms] lru_cache_counts [of s] by blast

lemma held_allocated:
  assumes "mc_heap_inv s" and "(t, a) \<in> set (mc_temps s)"
  obtains l where "mc_heap s a = Some l" and "lru_inv l"
  using heap_invD [OF assms(1)] held_counts [OF assms(2)] by blast

section \<open>Each section keeps the heap invariant\<close>

lemma snapshot_ok: "readCache_snapshot t s = Inr (s\<lparr>mc_temps := (t, mc_lru_cache s) # mc_temps s\<rparr>)"
  by (simp add: readCache_snapshot_def Let_def unique_iff)

lemma snapshot_heap_inv: "mc_heap_inv s \<Longrightarrow> readCache_snapshot t s = Inr s' \<Longrightarrow> mc_heap_inv s'"
  using lru_cache_counts [of s]
  by (auto simp: snapshot_ok mc_heap_inv_def count_cons split: if_splits simp del: lru_cache_counts)

lemma get_heap_inv:
  assumes "mc_heap_inv s" and "distinct (map fst (mc_temps s))"
    and "readCache_get t now url s = Inr (v, s')"
  shows "mc_heap_inv s'"
proof -
  obtain a l l' where a: "map_of (mc_temps s) t = Some a" and l: "mc_heap s a = Some l"
    and g: "Lru_get now url l = Inr (v, l')"
    and s': "s' = drop_ref a (s\<lparr>mc_heap := (mc_heap s)(a \<mapsto> l'),
      mc_temps := filter (\<lambda>p. fst p \<noteq> t) (mc_temps s)\<rparr>)"
    using assms(3) by (auto simp: readCache_get_def split: option.splits)
  have "lru_inv l'"
    using assms(1) l g lru.get_total [of l now url] by (auto simp: mc_heap_inv_def)
  have cnt: "use_count s' b + (if b = a then 1 else 0) = use_count s b" for b
    using count_remove [OF assms(2) a, of b] by (simp add: s' use_count_def)
  have heap: "mc_heap s' b = (if b = a then if use_count s' a = 0 then None else Some l' else mc_heap s b)" for b
    by (simp add: s' drop_ref_heap)
  have alloc: "mc_heap s b \<noteq> None \<longleftrightarrow> 0 < use_count s b" for b
    using assms(1) by (simp add: mc_heap_inv_def)
  have nxt: "mc_next s' = mc_next s" by (simp add: s')
  show ?thesis
    unfolding mc_heap_inv_def
  proof (intro conjI allI impI)
    show "mc_heap s' b \<noteq> None \<longleftrightarrow> 0 < use_count s' b" for b
      using cnt [of b] heap [of b] alloc [of b] by (cases "b = a") auto
    show "lru_inv k" if "mc_heap s' b = Some k" for b k
      using that heap [of b] \<open>lru_inv l'\<close> assms(1) by (auto simp: mc_heap_inv_def split: if_splits)
    show "mc_heap s' b = None" if "mc_next s' \<le> b" for b
      using that heap [of b] nxt l assms(1) by (auto simp: mc_heap_inv_def)
  qed
qed

lemma cow_unique_case:
  "writeCache_cow now s = Inr s' \<Longrightarrow> \<not> unique s \<Longrightarrow> \<exists>l. mc_heap s (mc_lru_cache s) = Some l \<and>
   s' = drop_ref (mc_lru_cache s) (s\<lparr>mc_heap := (mc_heap s)(mc_next s \<mapsto> Lru_copy now l),
        mc_next := Suc (mc_next s), mc_lru_cache := mc_next s\<rparr>)"
  by (auto simp: writeCache_cow_def split: option.splits)

lemma next_not_held:
  assumes "mc_heap_inv s"
  shows "mc_next s \<notin> snd ` set (mc_temps s)"
proof
  assume "mc_next s \<in> snd ` set (mc_temps s)"
  then obtain t where "(t, mc_next s) \<in> set (mc_temps s)" by force
  then show False
    using heap_invD(4) [OF assms, of "mc_next s"] assms by (auto elim: held_allocated)
qed

lemma cow_heap_inv:
  assumes "mc_heap_inv s" and "writeCache_cow now s = Inr s'"
  shows "mc_heap_inv s'" and "unique s'"
proof -
  have "mc_heap_inv s' \<and> unique s'"
  proof (cases "unique s")
    case True
    then show ?thesis using assms by (simp add: writeCache_cow_def)
  next
    case False
    let ?n = "mc_next s" and ?p = "mc_lru_cache s"
    obtain l where l: "mc_heap s ?p = Some l"
      and s': "s' = drop_ref ?p (s\<lparr>mc_heap := (mc_heap s)(?n \<mapsto> Lru_copy now l),
        mc_next := Suc ?n, mc_lru_cache := ?n\<rparr>)"
      using cow_unique_case [OF assms(2) False] by blast
    have fresh: "?n \<notin> snd ` set (mc_temps s)" using assms(1) by (rule next_not_held)
    have neq: "?n \<noteq> ?p" using assms(1) l by (auto simp: mc_heap_inv_def)
    have held: "?p \<in> snd ` set (mc_temps s)" using False by (simp add: unique_iff)
    have cnt: "use_count s' b = (if b = ?n then 1 else length (filter (\<lambda>p. snd p = b) (mc_temps s)))" for b
      using fresh by (force simp: s' use_count_def filter_empty_conv)
    have old: "use_count s b = (if b = ?p then 1 else 0) + length (filter (\<lambda>p. snd p = b) (mc_temps s))" for b
      by (simp add: use_count_def)
    have p_pos: "0 < length (filter (\<lambda>p. snd p = ?p) (mc_temps s))"
      using held by (force simp: filter_empty_conv)
    have heap: "mc_heap s' b = (if b = ?n then Some (Lru_copy now l) else mc_heap s b)" for b
      using p_pos neq by (auto simp: s' drop_ref_heap use_count_def)
    have "lru_inv (Lru_copy now l)"
      using assms(1) l Lru_copy_entries(1) by (simp add: mc_heap_inv_def)
    then have "mc_heap_inv s'"
      using assms(1) p_pos unfolding mc_heap_inv_def cnt heap old
      by (auto simp: s' split: if_splits)
    moreover have "unique s'"
      using cnt [of ?n] by (simp add: unique_def s')
    ultimately show ?thesis ..
  qed
  then show "mc_heap_inv s'" and "unique s'" by simp_all
qed

lemma put_heap_inv:
  assumes "mc_heap_inv s" and "writeCache_put now url c s = Inr s'"
  shows "mc_heap_inv s'"
proof -
  obtain l l' where l: "mc_heap s (mc_lru_cache s) = Some l" and p: "Lru_put now url c l = Inr l'"
    and s': "s' = s\<lparr>mc_heap := (mc_heap s)(mc_lru_cache s \<mapsto> l')\<rparr>"
    using assms(2) by (auto simp: writeCache_put_def split: if_splits option.splits)
  have "lru_inv l'"
    using heap_invD(3) [OF assms(1) l] p by (rule Lru_put_inv)
  then show ?thesis
    using assms(1) l by (auto simp: mc_heap_inv_def s')
qed

section \<open>The invariant of the interleavings\<close>

lemma mc_new_inv: "mc_inv (MemoryCache_new junk n)"
  by (auto simp: mc_inv_def MemoryCache_new_def mc_heap_inv_def mc_ctl_inv_def mc_ctl_def
      use_count_def Lru_new_inv split: if_splits)

lemma get_temps:
  "readCache_get t now url s = Inr (v, s') \<Longrightarrow>
   mc_temps s' = filter (\<lambda>p. fst p \<noteq> t) (mc_temps s) \<and> mc_lru_cache s' = mc_lru_cache s \<and> mc_mx s' = mc_mx s"
  by (auto simp: readCache_get_def split: option.splits)

lemma get_unique: "unique s \<Longrightarrow> readCache_get t now url s = Inr (v, s') \<Longrightarrow> unique s'"
  by (force simp: unique_iff dest!: get_temps)

lemma cow_frame:
  "writeCache_cow now s = Inr s' \<Longrightarrow> mc_temps s' = mc_temps s \<and> mc_mx s' = mc_mx s \<and> mc_pcs s' = mc_pcs s"
  by (auto simp: writeCache_cow_def split: if_splits option.splits)

lemma put_frame:
  "writeCache_put now url c s = Inr s' \<Longrightarrow> mc_temps s' = mc_temps s \<and> mc_lru_cache s' = mc_lru_cache s \<and>
   mc_mx s' = mc_mx s \<and> mc_pcs s' = mc_pcs s"
  by (auto simp: writeCache_put_def split: if_splits option.splits)

lemma heap_inv_pcs [simp]:
  "mc_heap_inv (s\<lparr>mc_pcs := p\<rparr>) = mc_heap_inv s" "mc_heap_inv (s\<lparr>mc_mx := m\<rparr>) = mc_heap_inv s"
  by (simp_all add: mc_heap_inv_def)

lemma ready_writing: "ready pc \<Longrightarrow> writing pc"
  by (cases pc) auto

lemma ctl_snapshot:
  "mc_ctl R p None q \<Longrightarrow> p t = MC_Idle \<Longrightarrow> mc_ctl (t # R) (p(t := MC_Holding u)) None q'"
  using ready_writing by (auto simp: mc_ctl_def)

lemma ctl_get:
  "mc_ctl R p m q \<Longrightarrow> p t = MC_Holding u \<Longrightarrow> (q \<Longrightarrow> q') \<Longrightarrow>
   mc_ctl (filter (\<lambda>x. x \<noteq> t) R) (p(t := MC_Idle)) m q'"
  unfolding mc_ctl_def by (auto) (metis writing.simps(4))+

lemma ctl_lock: "mc_ctl R p None q \<Longrightarrow> p t = MC_Idle \<Longrightarrow> mc_ctl R (p(t := MC_Locked u c)) (Some t) q'"
  using ready_writing by (auto simp: mc_ctl_def)

lemma ctl_cow: "mc_ctl R p m q \<Longrightarrow> p t = MC_Locked u c \<Longrightarrow> mc_ctl R (p(t := MC_Ready u c)) m True"
  unfolding mc_ctl_def by auto

lemma ctl_put: "mc_ctl R p m q \<Longrightarrow> p t = MC_Ready u c \<Longrightarrow> mc_ctl R (p(t := MC_Idle)) None q'"
  unfolding mc_ctl_def using ready_writing
  by (auto) (metis option.inject writing.simps(2))+

lemmas ctl_rules = ctl_snapshot ctl_get ctl_lock ctl_cow ctl_put

lemma ctl_distinct: "mc_ctl_inv s \<Longrightarrow> distinct (map fst (mc_temps s))"
  by (simp add: mc_ctl_inv_def mc_ctl_def)

lemma ctl_ready: "mc_ctl_inv s \<Longrightarrow> mc_pcs s t = MC_Ready u c \<Longrightarrow> unique s"
  unfolding mc_ctl_inv_def mc_ctl_def by (metis ready.simps(1))

lemma mc_step_heap: "mc_step s s' \<Longrightarrow> mc_inv s \<Longrightarrow> mc_heap_inv s'"
  by (induction rule: mc_step.induct)
    (auto simp: mc_inv_def dest: ctl_distinct
      intro: snapshot_heap_inv get_heap_inv cow_heap_inv put_heap_inv)

lemma map_fst_filter_neq: "map fst (filter (\<lambda>p. fst p \<noteq> t) ts) = filter (\<lambda>x. x \<noteq> t) (map fst ts)"
  by (induction ts) auto

lemma mc_step_ctl: "mc_step s s' \<Longrightarrow> mc_inv s \<Longrightarrow> mc_ctl_inv s'"
proof (induction rule: mc_step.induct)
  case (mc_snapshot s t s' url)
  then show ?case
    by (auto simp: mc_inv_def mc_ctl_inv_def snapshot_ok intro!: ctl_snapshot)
next
  case (mc_get s t url now v s')
  then show ?case
    using get_temps [OF mc_get(2)] get_unique [OF _ mc_get(2)]
    by (auto simp: mc_inv_def mc_ctl_inv_def map_fst_filter_neq intro!: ctl_get)
next
  case (mc_lock s t url c)
  then show ?case
    by (auto simp: mc_inv_def mc_ctl_inv_def intro!: ctl_lock)
next
  case (mc_cow s t url c now s')
  then have "unique s'" using cow_heap_inv(2) by (auto simp: mc_inv_def)
  then show ?case
    using mc_cow cow_frame [OF mc_cow(2)]
    by (auto simp: mc_inv_def mc_ctl_inv_def intro!: ctl_cow)
next
  case (mc_put s t url c now s')
  then show ?case
    using put_frame [OF mc_put(2)] by (auto simp: mc_inv_def mc_ctl_inv_def intro!: ctl_put)
qed

interpretation mc: transition_system mc_init mc_step mc_inv
proof
  fix s s' :: MemoryCache
  show "mc_init s \<Longrightarrow> mc_inv s" by (auto simp: mc_init_def mc_new_inv)
  show "mc_inv s \<Longrightarrow> mc_step s s' \<Longrightarrow> mc_inv s'"
    using mc_step_heap mc_step_ctl by (simp add: mc_inv_def)
qed

section \<open>Properties\<close>

lemma reach_mc_inv:
  assumes "reach mc_init mc_step s"
  shows "mc_heap_inv s" and "mc_ctl_inv s"
  using mc.reach_inv [OF assms] by (simp_all add: mc_inv_def)

text \<open>A reader that took its snapshot gets an answer.\<close>

lemma get_total_held:
  assumes "mc_inv s" and "mc_pcs s t = MC_Holding u"
  shows "\<exists>v s'. readCache_get t now w s = Inr (v, s')"
proof -
  have inv: "mc_heap_inv s" "mc_ctl_inv s" using assms(1) by (simp_all add: mc_inv_def)
  have "t \<in> fst ` set (mc_temps s)"
    using inv(2) assms(2) unfolding mc_ctl_inv_def mc_ctl_def by (metis list.set_map reading.simps(1))
  then obtain a where a: "map_of (mc_temps s) t = Some a"
    by (metis map_of_eq_None_iff not_None_eq)
  obtain k where "mc_heap s a = Some k" "lru_inv k"
    using inv(1) map_of_SomeD [OF a] by (rule held_allocated)
  then show ?thesis
    using a lru.get_total [of k now w] by (auto simp: readCache_get_def)
qed

text \<open>A run with two readers, for the witnesses.\<close>

definition mc_two_readers :: MemoryCache where
  "mc_two_readers = (MemoryCache_new 0 8)\<lparr>mc_temps := [(2, 0), (1, 0)],
     mc_pcs := (\<lambda>_. MC_Idle)(1 := MC_Holding ''/a'', 2 := MC_Holding ''/a'')\<rparr>"

lemma mc_two_readers_reach: "reach mc_init mc_step mc_two_readers"
proof -
  let ?s0 = "MemoryCache_new 0 8"
  let ?s1 = "?s0\<lparr>mc_temps := [(1, 0)], mc_pcs := (\<lambda>_. MC_Idle)(1 := MC_Holding ''/a'')\<rparr>"
  have "reach mc_init mc_step ?s0"
    by (rule reach_init) (auto simp: mc_init_def)
  moreover have "mc_step ?s0 ?s1"
    using mc_step.mc_snapshot [of ?s0 1 _ "''/a''"]
    by (simp add: snapshot_ok MemoryCache_new_def)
  moreover have "mc_step ?s1 mc_two_readers"
    using mc_step.mc_snapshot [of ?s1 2 _ "''/a''"]
    by (simp add: snapshot_ok MemoryCache_new_def mc_two_readers_def)
  ultimately show ?thesis by (blast intro: reach_step)
qed

text \<open>The same run, with a writer behind the copy-on-write test.\<close>

definition mc_writer :: MemoryCache where
  "mc_writer = (MemoryCache_new 0 8)\<lparr>mc_mx := Some 3, mc_temps := [(2, 0), (1, 0)],
     mc_heap := [0 \<mapsto> Lru_new 0 8, 1 \<mapsto> Lru_copy 9 (Lru_new 0 8)], mc_next := 2, mc_lru_cache := 1,
     mc_pcs := (\<lambda>_. MC_Idle)(1 := MC_Holding ''/a'', 2 := MC_Holding ''/a'', 3 := MC_Ready ''/a'' ''x'')\<rparr>"

lemma mc_writer_reach: "reach mc_init mc_step mc_writer"
proof -
  let ?s1 = "mc_two_readers\<lparr>mc_mx := Some 3,
    mc_pcs := (mc_pcs mc_two_readers)(3 := MC_Locked ''/a'' ''x'')\<rparr>"
  have "mc_step mc_two_readers ?s1"
    by (rule mc_step.mc_lock) (simp_all add: mc_two_readers_def MemoryCache_new_def)
  moreover have "writeCache_cow 9 ?s1 = Inr (mc_writer\<lparr>mc_pcs := mc_pcs ?s1\<rparr>)"
    by (simp add: writeCache_cow_def unique_iff mc_two_readers_def MemoryCache_new_def mc_writer_def
        drop_ref_def use_count_def)
  then have "mc_step ?s1 mc_writer"
    using mc_step.mc_cow [of ?s1 3 "''/a''" "''x''" 9]
    by (simp add: mc_two_readers_def mc_writer_def)
  ultimately show ?thesis using mc_two_readers_reach by (blast intro: reach_step)
qed

text \<open>
  C8: Copy-on-write isolates readers. In every interleaving of readers and writers, the
  object that a reader holds in \<open>lru_cache_temp\<close> is left as it is by a concurrent
  \<open>writeCache\<close>: neither its copy-on-write section nor its \<open>put\<close> changes it.
\<close>

theorem mc_readers_isolated:
  assumes "reach mc_init mc_step s" and "(t, a) \<in> set (mc_temps s)"
    and "mc_pcs s w = MC_Locked u c \<and> writeCache_cow now s = Inr s' \<or>
         mc_pcs s w = MC_Ready u c \<and> writeCache_put now u c s = Inr s'"
  shows "mc_heap s' a = mc_heap s a \<and> mc_heap s a \<noteq> None"
proof -
  note inv = reach_mc_inv [OF assms(1)]
  obtain l where l: "mc_heap s a = Some l" using inv(1) assms(2) by (rule held_allocated)
  from assms(3) show ?thesis
  proof
    assume "mc_pcs s w = MC_Ready u c \<and> writeCache_put now u c s = Inr s'"
    then have "unique s" and put: "writeCache_put now u c s = Inr s'"
      using ctl_ready [OF inv(2)] by blast+
    then have "a \<noteq> mc_lru_cache s"
      using assms(2) by (force simp: unique_iff)
    with put l show ?thesis
      by (auto simp: writeCache_put_def split: if_splits option.splits)
  next
    assume "mc_pcs s w = MC_Locked u c \<and> writeCache_cow now s = Inr s'"
    then have cow: "writeCache_cow now s = Inr s'" ..
    have "a \<noteq> mc_next s"
      using next_not_held [OF inv(1)] assms(2) by force
    moreover have "0 < length (filter (\<lambda>p. snd p = a) (mc_temps s))"
      using assms(2) by (force simp: filter_empty_conv)
    ultimately show ?thesis
      using cow l by (auto simp: writeCache_cow_def drop_ref_heap use_count_def split: if_splits option.splits)
  qed
qed

theorem mc_readers_isolated_witness:
  "\<exists>s'. writeCache_put 9 ''/a'' ''x'' mc_writer = Inr s' \<and>
    mc_heap s' 0 = mc_heap mc_writer 0 \<and> mc_heap mc_writer 0 \<noteq> None"
proof -
  have h: "mc_heap mc_writer 1 = Some (Lru_copy 9 (Lru_new 0 8))" and p: "mc_lru_cache mc_writer = 1"
    by (simp_all add: mc_writer_def)
  obtain l' where "Lru_put 9 ''/a'' ''x'' (Lru_copy 9 (Lru_new 0 8)) = Inr l'"
    using lru.put_fits [of "Lru_copy 9 (Lru_new 0 8)" "''/a''" 9 "''x''"]
      Lru_copy_entries [OF Lru_new_inv, of 9 0 8]
    by (auto simp: lru_cap_def)
  then obtain s' where s': "writeCache_put 9 ''/a'' ''x'' mc_writer = Inr s'"
    using h p by (auto simp: writeCache_put_def unique_iff mc_writer_def)
  have "mc_pcs mc_writer 3 = MC_Ready ''/a'' ''x''" and "(1, 0) \<in> set (mc_temps mc_writer)"
    by (simp_all add: mc_writer_def)
  then show ?thesis
    using mc_readers_isolated [OF mc_writer_reach, of 1 0 3 "''/a''" "''x''" 9 s'] s' by blast
qed





lemma MemoryCache_write_read:
  assumes "mc_heap_inv s" and "mc_heap s (mc_lru_cache s) = Some l"
    and "length (lru_entries l) < 2 ^ 31 - 1"
    and "u \<in> fst ` set (lru_entries l) \<or> length (lru_entries l) < unat (lru_maxSize l)"
  shows "\<exists>s' s''. MemoryCache_writeCache now u c s = Inr s' \<and>
    MemoryCache_readCache t now u s' = Inr (c, s'')"
proof -
  have inv: "lru_inv l" using heap_invD(3) [OF assms(1,2)] .
  have "\<exists>s1. writeCache_cow now s = Inr s1"
    using assms(2) by (simp add: writeCache_cow_def)
  then obtain s1 where cow: "writeCache_cow now s = Inr s1" ..
  note s1 = cow_heap_inv [OF assms(1) cow]
  obtain k where k: "mc_heap s1 (mc_lru_cache s1) = Some k" "lru_inv k"
      and ek: "lru_entries k = lru_entries l" "lru_cap k = unat (lru_maxSize l)"
  proof (cases "unique s")
    case True
    with cow assms(2) inv show ?thesis
      by (intro that [of l]) (simp_all add: writeCache_cow_def lru_cap_def)
  next
    case False
    with cow assms(2) show ?thesis
      using lru_cache_counts [of s1] Lru_copy_entries [OF inv, of now]
      by (intro that [of "Lru_copy now l"])
        (auto simp: writeCache_cow_def drop_ref_heap lru_cap_def)
  qed
  obtain k' k'' where p: "Lru_put now u c k = Inr k'" and g: "Lru_get now u k' = Inr (c, k'')"
    using lru.put_get [OF k(2), of u now c] assms(3,4) ek by auto
  let ?s2 = "s1\<lparr>mc_heap := (mc_heap s1)(mc_lru_cache s1 \<mapsto> k')\<rparr>"
  have "MemoryCache_writeCache now u c s = Inr ?s2"
    using cow s1(2) k(1) p by (simp add: MemoryCache_writeCache_def writeCache_put_def)
  moreover have "\<exists>s''. MemoryCache_readCache t now u ?s2 = Inr (c, s'')"
    using g by (simp add: MemoryCache_readCache_def snapshot_ok readCache_get_def)
  ultimately show ?thesis by blast
qed

text \<open>
  What \<open>writeCache\<close> stores, the next \<open>readCache\<close> returns, whoever else is holding old
  snapshots: when the current cache has the url or has room for it, \<open>writeCache\<close> succeeds
  and a \<open>readCache\<close> of the url in the same second gives the stored response.
\<close>

lemma mc_write_then_read:
  assumes "mc_heap_inv s" and "mc_heap s (mc_lru_cache s) = Some l"
    and "length (lru_entries l) < 2 ^ 31 - 1"
    and "u \<in> fst ` set (lru_entries l) \<or> length (lru_entries l) < unat (lru_maxSize l)"
  shows "\<exists>s' s''. MemoryCache_writeCache now u c s = Inr s' \<and>
    MemoryCache_readCache t now u s' = Inr (c, s'')"
  using assms by (rule MemoryCache_write_read)

lemma mc_write_then_read_example:
  "\<exists>s' s''. MemoryCache_writeCache 9 ''/a'' ''x'' mc_two_readers = Inr s' \<and>
    MemoryCache_readCache 5 9 ''/a'' s' = Inr (''x'', s'')"
proof -
  have "mc_heap mc_two_readers (mc_lru_cache mc_two_readers) = Some (Lru_new 0 8)"
    by (simp add: mc_two_readers_def MemoryCache_new_def)
  then show ?thesis
    using mc_write_then_read [OF reach_mc_inv(1) [OF mc_two_readers_reach], of "Lru_new 0 8"] by simp
qed

text \<open>
  \<open>readCache\<close> calls \<open>get\<close> outside the mutex, and \<open>get\<close> rewrites the list (the splice):
  there is an interleaving in which two threads hold the same object at the same time with
  the mutex free, so both calls of \<open>get\<close> work on one list unsynchronised.
\<close>

lemma mc_readers_share:
  "\<exists>s t t' a. reach mc_init mc_step s \<and> t \<noteq> t' \<and> mc_mx s = None \<and>
     (t, a) \<in> set (mc_temps s) \<and> (t', a) \<in> set (mc_temps s) \<and>
     mc_pcs s t = MC_Holding ''/a'' \<and> mc_pcs s t' = MC_Holding ''/a''"
  by (rule exI [of _ mc_two_readers], rule exI [of _ 1], rule exI [of _ 2], rule exI [of _ 0])
    (simp add: mc_two_readers_reach, simp add: mc_two_readers_def MemoryCache_new_def)

end
