(* ===== verification/Redis.thy ===== *)
theory Redis
  imports Prelude
begin

text \<open>
  \<open>class RedisCache\<close> of \<open>src/Cache/Redis.h\<close>: the second cache level.

  The client library hiredis is not part of the repository. Its two calls with an answer,
  \<open>redisConnect\<close> and \<open>redisCommand\<close>, are functions of a record that every definition takes
  as its argument \<open>H\<close>; they run on a state \<open>'s\<close> of the connections and the server. A null
  pointer is \<open>None\<close>; a context has its \<open>err\<close> flag; of a reply the code reads only \<open>str\<close>,
  which is null for the answers that are no text. The environment \<open>renv\<close> counts the contexts
  and replies that were handed out and not yet freed.
\<close>

section \<open>hiredis\<close>

record redisReply =
  reply_str :: "string option"

record 's hiredis =
  redisConnect :: "string \<Rightarrow> int \<Rightarrow> 's \<Rightarrow> (nat \<times> bool) option \<times> 's"
  redisCommand :: "nat \<Rightarrow> string \<Rightarrow> 's \<Rightarrow> redisReply option \<times> 's"

record 's renv =
  rv_state :: 's
  rv_contexts :: int
  rv_replies :: int

text \<open>A command goes to the server as the C string of the \<open>std::string\<close> that holds it.\<close>

definition run_command :: "'s hiredis \<Rightarrow> nat \<Rightarrow> string \<Rightarrow> 's renv \<Rightarrow> redisReply option \<times> 's renv" where
  "run_command H conn command e =
     (let (reply, s) = redisCommand H conn (c_str command) (rv_state e)
      in (reply, e\<lparr>rv_state := s, rv_replies := rv_replies e + (if reply = None then 0 else 1)\<rparr>))"

definition freeReplyObject :: "'s renv \<Rightarrow> 's renv" where
  "freeReplyObject e = e\<lparr>rv_replies := rv_replies e - 1\<rparr>"

definition redisFree :: "'s renv \<Rightarrow> 's renv" where
  "redisFree e = e\<lparr>rv_contexts := rv_contexts e - 1\<rparr>"

section \<open>The class\<close>

record RedisCache =
  passwd :: string
  ipAddress :: string
  port :: int

definition REDIS_EXPIRED_TIME :: nat where
  "REDIS_EXPIRED_TIME = 30"

definition RedisCache_new :: "string \<Rightarrow> string \<Rightarrow> int \<Rightarrow> RedisCache" where
  "RedisCache_new pw ip pt = \<lparr>passwd = pw, ipAddress = ip, port = pt\<rparr>"

text \<open>A context with its error flag set is dropped without \<open>redisFree\<close>.\<close>

definition Connect :: "'s hiredis \<Rightarrow> RedisCache \<Rightarrow> 's renv \<Rightarrow> nat option \<times> 's renv" where
  "Connect H r e =
     (case redisConnect H (c_str (ipAddress r)) (port r) (rv_state e) of
        (None, s) \<Rightarrow> (None, e\<lparr>rv_state := s\<rparr>)
      | (Some (conn, err), s) \<Rightarrow>
          (if err then None else Some conn, e\<lparr>rv_state := s, rv_contexts := rv_contexts e + 1\<rparr>))"

text \<open>The comparison of the reply with \<open>"OK"\<close> is computed and thrown away.\<close>

definition getAuth :: "'s hiredis \<Rightarrow> RedisCache \<Rightarrow> nat \<Rightarrow> 's renv \<Rightarrow> bool \<times> 's renv" where
  "getAuth H r conn e =
     (case run_command H conn (''auth '' @ passwd r) e of
        (None, e1) \<Rightarrow> (False, e1)
      | (Some reply, e1) \<Rightarrow> (True, freeReplyObject e1))"

text \<open>\<open>freeReplyObject\<close> of a null reply does nothing; a reply that is not null is kept.\<close>

definition commandWrapper :: "'s hiredis \<Rightarrow> nat \<Rightarrow> string \<Rightarrow> 's renv \<Rightarrow> bool \<times> 's renv" where
  "commandWrapper H conn command e =
     (case run_command H conn command e of
        (None, e1) \<Rightarrow> (False, e1)
      | (Some reply, e1) \<Rightarrow> (True, e1))"

definition setnx_command :: "string \<Rightarrow> string \<Rightarrow> string" where
  "setnx_command url response = ''setnx '' @ url @ '' '' @ [CHR 0x22] @ response @ [CHR 0x22]"

definition expire_command :: "string \<Rightarrow> string" where
  "expire_command url = ''expire '' @ url @ '' '' @ to_string_nat REDIS_EXPIRED_TIME"

definition atomicUpdate :: "'s hiredis \<Rightarrow> nat \<Rightarrow> string \<Rightarrow> string \<Rightarrow> 's renv \<Rightarrow> bool \<times> 's renv" where
  "atomicUpdate H conn url response e =
     (let (b1, e1) = commandWrapper H conn ''multi'' e
      in if \<not> b1 then (False, e1)
         else let (b2, e2) = commandWrapper H conn (setnx_command url response) e1
              in if \<not> b2 then (False, e2)
                 else let (b3, e3) = commandWrapper H conn (expire_command url) e2
                      in if \<not> b3 then (False, e3)
                         else commandWrapper H conn ''exec'' e3)"

definition updateRedisCache :: "'s hiredis \<Rightarrow> RedisCache \<Rightarrow> string \<Rightarrow> string \<Rightarrow> 's renv
    \<Rightarrow> string \<times> 's renv" where
  "updateRedisCache H r url response e =
     (case Connect H r e of
        (None, e1) \<Rightarrow> ([], e1)
      | (Some conn, e1) \<Rightarrow>
          (let (auth, e2) = getAuth H r conn e1
           in if \<not> auth then ([], redisFree e2)
              else let (done_all, e3) = atomicUpdate H conn url response e2
                   in (if \<not> done_all then ''FAIL'' else ''OK'', redisFree e3)))"

text \<open>\<open>std::string(res.begin()+1, res.end()-1)\<close>.\<close>

definition strip_ends :: "string \<Rightarrow> string result" where
  "strip_ends res = (if length res < 2 then Inl Bad_Range else Inr (butlast (tl res)))"

definition readRedisCache :: "'s hiredis \<Rightarrow> RedisCache \<Rightarrow> string \<Rightarrow> 's renv
    \<Rightarrow> (string \<times> 's renv) result" where
  "readRedisCache H r url e =
     (case Connect H r e of
        (None, e1) \<Rightarrow> Inr ([], e1)
      | (Some conn, e1) \<Rightarrow>
          (let (auth, e2) = getAuth H r conn e1
           in if \<not> auth then Inr ([], redisFree e2)
              else (case run_command H conn (''get '' @ url) e2 of
                      (None, e3) \<Rightarrow> Inr ([], redisFree e3)
                    | (Some reply, e3) \<Rightarrow>
                        (case reply_str reply of
                           None \<Rightarrow> Inl Null_String
                         | Some str \<Rightarrow>
                             rbind (strip_ends (c_str str))
                               (\<lambda>v. Inr (v, redisFree (freeReplyObject e3)))))))"

section \<open>What a server answers\<close>

text \<open>
  The documented behaviour of the commands that the class sends, for arguments that hiredis
  passes on unchanged (no space, no conversion, no NUL). The server has keys with a value and,
  when \<open>expire\<close> was used, the time from which they are gone, and a clock in seconds that never
  goes back. A connection queues the writes since its \<open>multi\<close>; they take effect together at
  \<open>exec\<close>. \<open>setnx\<close> writes a key only when it is absent or gone, \<open>expire\<close> sets the time of a key
  that is there.
\<close>

record redis_db =
  rd_keys :: "string \<rightharpoonup> string \<times> nat option"
  rd_clock :: nat

datatype queued = Q_Setnx string string | Q_Expire string nat

definition live :: "redis_db \<Rightarrow> string \<Rightarrow> string option" where
  "live d k = (case rd_keys d k of
      None \<Rightarrow> None
    | Some (v, None) \<Rightarrow> Some v
    | Some (v, Some t) \<Rightarrow> if rd_clock d < t then Some v else None)"

fun apply_queued :: "queued \<Rightarrow> redis_db \<Rightarrow> redis_db" where
  "apply_queued (Q_Setnx k v) d =
     (if live d k = None then d\<lparr>rd_keys := (rd_keys d)(k \<mapsto> (v, None))\<rparr> else d)"
| "apply_queued (Q_Expire k n) d =
     (case live d k of
        None \<Rightarrow> d
      | Some v \<Rightarrow> d\<lparr>rd_keys := (rd_keys d)(k \<mapsto> (v, Some (rd_clock d + n)))\<rparr>)"

definition later :: "redis_db \<Rightarrow> redis_db \<Rightarrow> bool" where
  "later d d' \<longleftrightarrow> rd_keys d' = rd_keys d \<and> rd_clock d \<le> rd_clock d'"

lemma later_refl [simp]: "later d d"
  by (simp add: later_def)

lemma later_trans [trans]: "later d d' \<Longrightarrow> later d' d'' \<Longrightarrow> later d d''"
  by (simp add: later_def)

definition plain :: "string \<Rightarrow> bool" where
  "plain k \<longleftrightarrow> k \<noteq> [] \<and> CHR '' '' \<notin> set k \<and> CHR ''%'' \<notin> set k \<and> NUL \<notin> set k"

definition quoted :: "string \<Rightarrow> string" where
  "quoted v = [CHR 0x22] @ v @ [CHR 0x22]"

definition answers :: "'s hiredis \<Rightarrow> nat \<Rightarrow> string \<Rightarrow> 's \<Rightarrow> (redisReply \<Rightarrow> 's \<Rightarrow> bool) \<Rightarrow> bool" where
  "answers H c command s P \<longleftrightarrow> (\<exists>r s'. redisCommand H c command s = (Some r, s') \<and> P r s')"

definition redis_laws :: "'s hiredis \<Rightarrow> ('s \<Rightarrow> redis_db) \<Rightarrow> ('s \<Rightarrow> nat \<Rightarrow> queued list option) \<Rightarrow> bool" where
  "redis_laws H db q \<longleftrightarrow>
     (\<forall>ip port s. \<exists>c s'. redisConnect H ip port s = (Some (c, False), s') \<and> later (db s) (db s') \<and> q s' c = None) \<and>
     (\<forall>c pw s. plain pw \<longrightarrow> q s c = None \<longrightarrow>
        answers H c (''auth '' @ pw) s (\<lambda>r s'. later (db s) (db s') \<and> q s' c = None)) \<and>
     (\<forall>c s. q s c = None \<longrightarrow> answers H c ''multi'' s (\<lambda>r s'. later (db s) (db s') \<and> q s' c = Some [])) \<and>
     (\<forall>c k v s p. plain k \<longrightarrow> plain v \<longrightarrow> q s c = Some p \<longrightarrow>
        answers H c (''setnx '' @ k @ '' '' @ v) s
          (\<lambda>r s'. later (db s) (db s') \<and> q s' c = Some (p @ [Q_Setnx k v]))) \<and>
     (\<forall>c k n s p. plain k \<longrightarrow> q s c = Some p \<longrightarrow>
        answers H c (''expire '' @ k @ '' '' @ to_string_nat n) s
          (\<lambda>r s'. later (db s) (db s') \<and> q s' c = Some (p @ [Q_Expire k n]))) \<and>
     (\<forall>c s p. q s c = Some p \<longrightarrow>
        answers H c ''exec'' s (\<lambda>r s'. (\<exists>d. later (db s) d \<and> db s' = fold apply_queued p d) \<and> q s' c = None)) \<and>
     (\<forall>c k s. plain k \<longrightarrow> q s c = None \<longrightarrow>
        answers H c (''get '' @ k) s (\<lambda>r s'. later (db s) (db s') \<and> reply_str r = live (db s') k \<and> q s' c = None))"

lemma redis_lawsD:
  assumes "redis_laws H db q"
  shows "\<exists>c s'. redisConnect H ip pt s = (Some (c, False), s') \<and> later (db s) (db s') \<and> q s' c = None"
    and "plain pw \<Longrightarrow> q s c = None \<Longrightarrow>
      answers H c (''auth '' @ pw) s (\<lambda>r s'. later (db s) (db s') \<and> q s' c = None)"
    and "q s c = None \<Longrightarrow> answers H c ''multi'' s (\<lambda>r s'. later (db s) (db s') \<and> q s' c = Some [])"
    and "plain k \<Longrightarrow> plain v \<Longrightarrow> q s c = Some p \<Longrightarrow>
      answers H c (''setnx '' @ k @ '' '' @ v) s
        (\<lambda>r s'. later (db s) (db s') \<and> q s' c = Some (p @ [Q_Setnx k v]))"
    and "plain k \<Longrightarrow> q s c = Some p \<Longrightarrow>
      answers H c (''expire '' @ k @ '' '' @ to_string_nat n) s
        (\<lambda>r s'. later (db s) (db s') \<and> q s' c = Some (p @ [Q_Expire k n]))"
    and "q s c = Some p \<Longrightarrow>
      answers H c ''exec'' s (\<lambda>r s'. (\<exists>d. later (db s) d \<and> db s' = fold apply_queued p d) \<and> q s' c = None)"
    and "plain k \<Longrightarrow> q s c = None \<Longrightarrow>
      answers H c (''get '' @ k) s (\<lambda>r s'. later (db s) (db s') \<and> reply_str r = live (db s') k \<and> q s' c = None)"
  using assms unfolding redis_laws_def by (elim conjE; simp)+

text \<open>The two writes of an update: whatever value is there then, it has 30 seconds from now.\<close>

definition updated :: "string \<Rightarrow> string \<Rightarrow> redis_db \<Rightarrow> redis_db" where
  "updated k v d = apply_queued (Q_Expire k REDIS_EXPIRED_TIME) (apply_queued (Q_Setnx k v) d)"

lemma updated_keys:
  "updated k v d = d\<lparr>rd_keys := (rd_keys d)(k \<mapsto>
     (case live d k of None \<Rightarrow> v | Some w \<Rightarrow> w, Some (rd_clock d + REDIS_EXPIRED_TIME)))\<rparr>"
  by (auto simp: updated_def live_def split: option.splits)

lemma updated_live:
  assumes "later (updated k v d) d'"
  shows "live d' k = (if rd_clock d' < rd_clock d + REDIS_EXPIRED_TIME
    then Some (case live d k of None \<Rightarrow> v | Some w \<Rightarrow> w) else None)"
proof -
  have "rd_keys d' k = Some (case live d k of None \<Rightarrow> v | Some w \<Rightarrow> w, Some (rd_clock d + REDIS_EXPIRED_TIME))"
    using assms by (simp add: later_def updated_keys)
  then show ?thesis by (simp add: live_def [of d'])
qed

lemma run_command_answers:
  assumes "answers H c command (rv_state e) P" and "NUL \<notin> set command"
  obtains r s' where "P r s'" and "run_command H c command e =
    (Some r, e\<lparr>rv_state := s', rv_replies := rv_replies e + 1\<rparr>)"
  using assms by (auto simp: answers_def run_command_def c_str_id)

section \<open>Sessions\<close>

lemma plain_quoted: "plain v \<Longrightarrow> plain (quoted v)"
  by (auto simp: plain_def quoted_def NUL_def)

text \<open>The common beginning of both operations: a connection, and \<open>auth\<close>.\<close>

lemma Connect_ok:
  assumes "redis_laws H db q"
  obtains c e1 where "Connect H r e = (Some c, e1)" and "later (db (rv_state e)) (db (rv_state e1))"
    and "q (rv_state e1) c = None" and "rv_contexts e1 = rv_contexts e + 1" and "rv_replies e1 = rv_replies e"
proof -
  obtain c s' where "redisConnect H (c_str (ipAddress r)) (port r) (rv_state e) = (Some (c, False), s')"
      "later (db (rv_state e)) (db s')" "q s' c = None"
    using redis_lawsD(1) [OF assms] by blast
  then show ?thesis
    by (intro that [of c "e\<lparr>rv_state := s', rv_contexts := rv_contexts e + 1\<rparr>"]) (simp_all add: Connect_def)
qed

lemma getAuth_ok:
  assumes "redis_laws H db q" and "plain (passwd r)" and "q (rv_state e) c = None"
  obtains e1 where "getAuth H r c e = (True, e1)" and "later (db (rv_state e)) (db (rv_state e1))"
    and "q (rv_state e1) c = None" and "rv_contexts e1 = rv_contexts e" and "rv_replies e1 = rv_replies e"
proof -
  have "NUL \<notin> set (''auth '' @ passwd r)" using assms(2) by (auto simp: plain_def NUL_def)
  from run_command_answers [OF redis_lawsD(2) [OF assms] this]
  obtain a s' where "later (db (rv_state e)) (db s') \<and> q s' c = None" "run_command H c (''auth '' @ passwd r) e =
      (Some a, e\<lparr>rv_state := s', rv_replies := rv_replies e + 1\<rparr>)" by blast
  then show ?thesis
    by (intro that [of "e\<lparr>rv_state := s'\<rparr>"]) (simp_all add: getAuth_def freeReplyObject_def)
qed

lemma commandWrapper_ok:
  assumes "answers H c command (rv_state e) P" and "NUL \<notin> set command"
  obtains r e1 where "P r (rv_state e1)" and "commandWrapper H c command e = (True, e1)"
    and "rv_contexts e1 = rv_contexts e" and "rv_replies e1 = rv_replies e + 1"
proof -
  from run_command_answers [OF assms]
  obtain r s' where "P r s'" "run_command H c command e =
    (Some r, e\<lparr>rv_state := s', rv_replies := rv_replies e + 1\<rparr>)" by blast
  then show ?thesis
    by (intro that [of r "e\<lparr>rv_state := s', rv_replies := rv_replies e + 1\<rparr>"])
      (simp_all add: commandWrapper_def)
qed

lemma atomicUpdate_ok:
  assumes "redis_laws H db q" and "plain url" and "plain response" and "q (rv_state e) c = None"
  obtains e1 d where "atomicUpdate H c url response e = (True, e1)" and "later (db (rv_state e)) d"
    and "db (rv_state e1) = updated url (quoted response) d"
    and "rv_contexts e1 = rv_contexts e" and "rv_replies e1 = rv_replies e + 4"
proof -
  have nul: "NUL \<notin> set ''multi''" "NUL \<notin> set ''exec''" "NUL \<notin> set (setnx_command url response)"
    "NUL \<notin> set (expire_command url)"
    using assms(2,3) digit_not_NUL
    by (auto simp: NUL_def plain_def setnx_command_def expire_command_def)
  note law = redis_lawsD [OF assms(1)]
  from commandWrapper_ok [OF law(3) [OF assms(4)] nul(1)] obtain e1 where
    e1: "later (db (rv_state e)) (db (rv_state e1))" "q (rv_state e1) c = Some []"
      "commandWrapper H c ''multi'' e = (True, e1)"
      "rv_contexts e1 = rv_contexts e" "rv_replies e1 = rv_replies e + 1"
    by blast
  have "answers H c (setnx_command url response) (rv_state e1)
      (\<lambda>r s'. later (db (rv_state e1)) (db s') \<and> q s' c = Some ([] @ [Q_Setnx url (quoted response)]))"
    using law(4) [OF assms(2) plain_quoted [OF assms(3)] e1(2)]
    by (simp add: setnx_command_def quoted_def)
  from commandWrapper_ok [OF this nul(3)] obtain e2 where
    e2: "later (db (rv_state e1)) (db (rv_state e2))" "q (rv_state e2) c = Some [Q_Setnx url (quoted response)]"
      "commandWrapper H c (setnx_command url response) e1 = (True, e2)"
      "rv_contexts e2 = rv_contexts e1" "rv_replies e2 = rv_replies e1 + 1"
    by auto
  have "answers H c (expire_command url) (rv_state e2) (\<lambda>r s'. later (db (rv_state e2)) (db s') \<and>
      q s' c = Some ([Q_Setnx url (quoted response)] @ [Q_Expire url REDIS_EXPIRED_TIME]))"
    unfolding expire_command_def using assms(2) e2(2) by (rule law(5))
  from commandWrapper_ok [OF this nul(4)] obtain e3 where
    e3: "later (db (rv_state e2)) (db (rv_state e3))"
      "q (rv_state e3) c = Some [Q_Setnx url (quoted response), Q_Expire url REDIS_EXPIRED_TIME]"
      "commandWrapper H c (expire_command url) e2 = (True, e3)"
      "rv_contexts e3 = rv_contexts e2" "rv_replies e3 = rv_replies e2 + 1"
    by auto
  from commandWrapper_ok [OF law(6) [OF e3(2)] nul(2)] obtain e4 d where
    e4: "later (db (rv_state e3)) d"
      "db (rv_state e4) = fold apply_queued [Q_Setnx url (quoted response), Q_Expire url REDIS_EXPIRED_TIME] d"
      "commandWrapper H c ''exec'' e3 = (True, e4)"
      "rv_contexts e4 = rv_contexts e3" "rv_replies e4 = rv_replies e3 + 1"
    by blast
  have "later (db (rv_state e)) d"
    using later_trans [OF e1(1) later_trans [OF e2(1) later_trans [OF e3(1) e4(1)]]] .
  moreover have "db (rv_state e4) = updated url (quoted response) d"
    unfolding e4(2) updated_def by (simp del: apply_queued.simps)
  ultimately show ?thesis
    by (intro that [of e4 d]) (simp_all add: atomicUpdate_def e1 e2 e3 e4)
qed

lemma updateRedisCache_ok:
  assumes "redis_laws H db q" and "plain (passwd r)" and "plain url" and "plain response"
  obtains e1 d where "updateRedisCache H r url response e = (''OK'', e1)"
    and "later (db (rv_state e)) d" and "db (rv_state e1) = updated url (quoted response) d"
proof -
  obtain c e1 where e1: "Connect H r e = (Some c, e1)" "later (db (rv_state e)) (db (rv_state e1))"
      "q (rv_state e1) c = None"
    using Connect_ok [OF assms(1)] by blast
  obtain e2 where e2: "getAuth H r c e1 = (True, e2)" "later (db (rv_state e1)) (db (rv_state e2))"
      "q (rv_state e2) c = None"
    using getAuth_ok [OF assms(1,2) e1(3)] by blast
  obtain e3 d where e3: "atomicUpdate H c url response e2 = (True, e3)" "later (db (rv_state e2)) d"
      "db (rv_state e3) = updated url (quoted response) d"
    using atomicUpdate_ok [OF assms(1,3,4) e2(3)] by blast
  show ?thesis
  proof (rule that [of "redisFree e3" d])
    show "later (db (rv_state e)) d" using later_trans [OF e1(2) later_trans [OF e2(2) e3(2)]] .
  qed (simp_all add: updateRedisCache_def e1 e2 e3 redisFree_def)
qed

text \<open>What \<open>readRedisCache\<close> makes of the answer to its \<open>get\<close>.\<close>

definition read_answer :: "string option \<Rightarrow> string result" where
  "read_answer str = (case str of None \<Rightarrow> Inl Null_String | Some s \<Rightarrow> strip_ends (c_str s))"

lemma read_answer_quoted: "NUL \<notin> set v \<Longrightarrow> read_answer (Some (quoted v)) = Inr v"
proof -
  assume "NUL \<notin> set v"
  then have "c_str (quoted v) = quoted v" by (intro c_str_id) (auto simp: quoted_def NUL_def)
  then show ?thesis by (simp add: read_answer_def strip_ends_def quoted_def)
qed

lemma readRedisCache_run:
  assumes "Connect H r e = (Some c, e1)" and "getAuth H r c e1 = (True, e2)"
    and "run_command H c (''get '' @ url) e2 = (Some reply, e3)"
  shows "readRedisCache H r url e =
    rbind (read_answer (reply_str reply)) (\<lambda>v. Inr (v, redisFree (freeReplyObject e3)))"
  using assms by (simp add: readRedisCache_def read_answer_def split: option.split)

lemma readRedisCache_store:
  assumes "redis_laws H db q" and "plain (passwd r)" and "plain url"
  obtains e1 where "readRedisCache H r url e =
      rbind (read_answer (live (db (rv_state e1)) url)) (\<lambda>v. Inr (v, e1))"
    and "later (db (rv_state e)) (db (rv_state e1))"
    and "rv_contexts e1 = rv_contexts e" and "rv_replies e1 = rv_replies e"
proof -
  obtain c e1 where e1: "Connect H r e = (Some c, e1)" "later (db (rv_state e)) (db (rv_state e1))"
      "q (rv_state e1) c = None" "rv_contexts e1 = rv_contexts e + 1" "rv_replies e1 = rv_replies e"
    using Connect_ok [OF assms(1)] by blast
  obtain e2 where e2: "getAuth H r c e1 = (True, e2)" "later (db (rv_state e1)) (db (rv_state e2))"
      "q (rv_state e2) c = None" "rv_contexts e2 = rv_contexts e1" "rv_replies e2 = rv_replies e1"
    using getAuth_ok [OF assms(1,2) e1(3)] by blast
  have "NUL \<notin> set (''get '' @ url)" using assms(3) by (auto simp: plain_def NUL_def)
  from run_command_answers [OF redis_lawsD(7) [OF assms(1,3) e2(3)] this] obtain reply s' where
    get: "later (db (rv_state e2)) (db s')" "reply_str reply = live (db s') url"
      "run_command H c (''get '' @ url) e2 = (Some reply, e2\<lparr>rv_state := s', rv_replies := rv_replies e2 + 1\<rparr>)"
    by blast
  let ?e = "redisFree (freeReplyObject (e2\<lparr>rv_state := s', rv_replies := rv_replies e2 + 1\<rparr>))"
  have e: "rv_state ?e = s'" "rv_contexts ?e = rv_contexts e" "rv_replies ?e = rv_replies e"
    using e1(4,5) e2(4,5) by (simp_all add: redisFree_def freeReplyObject_def)
  show ?thesis
  proof (rule that [of ?e])
    show "readRedisCache H r url e = rbind (read_answer (live (db (rv_state ?e)) url)) (\<lambda>v. Inr (v, ?e))"
      using readRedisCache_run [OF e1(1) e2(1) get(3)] get(2) e(1) by simp
    show "later (db (rv_state e)) (db (rv_state ?e))"
      unfolding e(1) using later_trans [OF e1(2) later_trans [OF e2(2) get(1)]] .
  qed (use e in simp_all)
qed

text \<open>Contexts and replies that each routine leaves behind.\<close>

lemma commandWrapper_count:
  "commandWrapper H c command e = (b, e1) \<Longrightarrow>
    rv_contexts e1 = rv_contexts e \<and> rv_replies e1 = rv_replies e + (if b then 1 else 0)"
  by (auto simp: commandWrapper_def run_command_def split: prod.splits option.splits)

lemma getAuth_count:
  "getAuth H r c e = (b, e1) \<Longrightarrow> rv_contexts e1 = rv_contexts e \<and> rv_replies e1 = rv_replies e"
  by (auto simp: getAuth_def run_command_def freeReplyObject_def split: prod.splits option.splits)

lemma atomicUpdate_count:
  assumes "atomicUpdate H c url response e = (b, e')"
  shows "rv_contexts e' = rv_contexts e \<and>
    (if b then rv_replies e' = rv_replies e + 4
     else rv_replies e \<le> rv_replies e' \<and> rv_replies e' < rv_replies e + 4)"
proof -
  obtain b1 e1 where w1: "commandWrapper H c ''multi'' e = (b1, e1)" by (metis surj_pair)
  obtain b2 e2 where w2: "commandWrapper H c (setnx_command url response) e1 = (b2, e2)" by (metis surj_pair)
  obtain b3 e3 where w3: "commandWrapper H c (expire_command url) e2 = (b3, e3)" by (metis surj_pair)
  obtain b4 e4 where w4: "commandWrapper H c ''exec'' e3 = (b4, e4)" by (metis surj_pair)
  note n = w1 [THEN commandWrapper_count] w2 [THEN commandWrapper_count]
    w3 [THEN commandWrapper_count] w4 [THEN commandWrapper_count]
  show ?thesis
    using assms n by (auto simp: atomicUpdate_def w1 w2 w3 w4 split: if_splits)
qed

definition connect_err :: "'s hiredis \<Rightarrow> RedisCache \<Rightarrow> 's renv \<Rightarrow> bool" where
  "connect_err H r e \<longleftrightarrow>
     (case fst (redisConnect H (c_str (ipAddress r)) (port r) (rv_state e)) of
        None \<Rightarrow> False | Some (c, err) \<Rightarrow> err)"

lemma Connect_count:
  "Connect H r e = (conn, e1) \<Longrightarrow> rv_replies e1 = rv_replies e \<and>
    rv_contexts e1 = rv_contexts e + (if conn \<noteq> None \<or> connect_err H r e then 1 else 0)"
  by (auto simp: Connect_def connect_err_def split: prod.splits option.splits if_splits)

section \<open>A server for the witnesses\<close>

type_synonym demo_state = "redis_db \<times> (nat \<Rightarrow> queued list option)"

definition demo_redis :: "demo_state hiredis" where
  "demo_redis = \<lparr>redisConnect = (\<lambda>ip pt (m, q). (Some (0, False), (m, q(0 := None)))),
     redisCommand = (\<lambda>c command (m, q).
       let w = takeWhile (\<lambda>x. x \<noteq> CHR '' '') command;
           a = tl (dropWhile (\<lambda>x. x \<noteq> CHR '' '') command);
           k = takeWhile (\<lambda>x. x \<noteq> CHR '' '') a;
           v = tl (dropWhile (\<lambda>x. x \<noteq> CHR '' '') a);
           enqueue = (\<lambda>x. q(c := map_option (\<lambda>p. p @ [x]) (q c)))
       in if w = ''multi'' then (Some \<lparr>reply_str = Some ''OK''\<rparr>, (m, q(c := Some [])))
          else if w = ''setnx'' then (Some \<lparr>reply_str = Some ''QUEUED''\<rparr>, (m, enqueue (Q_Setnx k v)))
          else if w = ''expire'' then
            (Some \<lparr>reply_str = Some ''QUEUED''\<rparr>, (m, enqueue (Q_Expire k (digits_val 0 v))))
          else if w = ''exec'' then
            (Some \<lparr>reply_str = None\<rparr>,
             (case q c of None \<Rightarrow> m | Some p \<Rightarrow> fold apply_queued p m, q(c := None)))
          else if w = ''get'' then (Some \<lparr>reply_str = live m a\<rparr>, (m, q))
          else (Some \<lparr>reply_str = Some ''OK''\<rparr>, (m, q)))\<rparr>"

lemma demo_redis_laws: "redis_laws demo_redis fst snd"
proof -
  have "takeWhile (\<lambda>x. x \<noteq> CHR '' '') (k @ CHR '' '' # v) = k"
    "dropWhile (\<lambda>x. x \<noteq> CHR '' '') (k @ CHR '' '' # v) = CHR '' '' # v" if "plain k" for k v
    using that by (simp_all add: plain_def takeWhile_sep dropWhile_sep)
  moreover have "\<exists>d. later m d \<and> fold apply_queued p m = fold apply_queued p d" for m p
    using later_refl by blast
  ultimately show ?thesis
    unfolding redis_laws_def answers_def
    by (simp add: demo_redis_def digits_val_to_string Let_def split: prod.split)
qed

definition demo_env :: "demo_state renv" where
  "demo_env = \<lparr>rv_state = (\<lparr>rd_keys = [''/a'' \<mapsto> (quoted ''old'', Some 40)], rd_clock = 12\<rparr>, \<lambda>_. None),
     rv_contexts = 0, rv_replies = 0\<rparr>"

definition demo_cfg :: RedisCache where
  "demo_cfg = \<lparr>passwd = ''pw'', ipAddress = ''127.0.0.1'', port = 6379\<rparr>"

section \<open>Updates that keep a value alive\<close>

text \<open>Further updates of a url, each within the time that the one before it gave the key.\<close>

inductive refreshes :: "'s hiredis \<Rightarrow> ('s \<Rightarrow> redis_db) \<Rightarrow> RedisCache \<Rightarrow> string \<Rightarrow> 's renv \<Rightarrow> string list \<Rightarrow> 's renv \<Rightarrow> bool"
  for H :: "'s hiredis" and db :: "'s \<Rightarrow> redis_db" and r :: RedisCache and url :: string where
  rf_end: "refreshes H db r url e [] e"
| rf_next: "updateRedisCache H r url v e = (res, e1) \<Longrightarrow>
     rd_clock (db (rv_state e1)) < rd_clock (db (rv_state e)) + REDIS_EXPIRED_TIME \<Longrightarrow>
     refreshes H db r url e1 vs e2 \<Longrightarrow> refreshes H db r url e (v # vs) e2"

definition fresh_value :: "string \<Rightarrow> string \<Rightarrow> redis_db \<Rightarrow> bool" where
  "fresh_value k w d \<longleftrightarrow> rd_keys d k = Some (w, Some (rd_clock d + REDIS_EXPIRED_TIME))"

lemma updated_fresh:
  "fresh_value k (case live d k of None \<Rightarrow> v | Some w \<Rightarrow> w) (updated k v d)"
  by (simp add: fresh_value_def updated_keys)

lemma refreshes_keep:
  assumes "redis_laws H db q" and "plain (passwd r)" and "plain url"
  shows "refreshes H db r url e vs e' \<Longrightarrow> \<forall>v \<in> set vs. plain v \<Longrightarrow> fresh_value url w (db (rv_state e)) \<Longrightarrow>
    fresh_value url w (db (rv_state e'))"
proof (induction rule: refreshes.induct)
  case (rf_next v e res e1 vs e2)
  obtain d where d: "later (db (rv_state e)) d" "db (rv_state e1) = updated url (quoted v) d"
    using updateRedisCache_ok [OF assms, of v e] rf_next(1,5) by auto
  then have "rd_clock d < rd_clock (db (rv_state e)) + REDIS_EXPIRED_TIME"
    using rf_next(2) by (simp add: updated_keys)
  then have "live d url = Some w"
    using d(1) rf_next(6) by (simp add: live_def fresh_value_def later_def)
  then have "fresh_value url w (db (rv_state e1))"
    using updated_fresh [where k = url and d = d and v = "quoted v"] d(2) by simp
  then show ?case using rf_next by simp
qed

section \<open>Properties\<close>

text \<open>
  C28: The first response that was written is the one that is read. Against a server that
  behaves as documented \<open>updateRedisCache\<close> answers \<open>"OK"\<close>. After it, and after any number of
  further updates of the url with less than 30 seconds between them, \<open>readRedisCache\<close> returns
  the value that was there at the first of them (the response when the key was absent or gone),
  without the quotes that are stored around it: \<open>setnx\<close> never replaces a value, and every update
  gives the old one another 30 seconds. From 30 seconds after the last update on it faults on
  the nil reply.
\<close>

theorem redis_update_read:
  assumes "redis_laws H db q" and "plain (passwd r)" and "plain url" and "plain response"
    and "NUL \<notin> set old"
    and "rd_keys (db (rv_state e)) url = None \<or> (\<exists>t. rd_keys (db (rv_state e)) url = Some (quoted old, t))"
    and "\<forall>v \<in> set vs. plain v"
    and "refreshes H db r url (snd (updateRedisCache H r url response e)) vs e2"
  shows "\<exists>e1 d e3. updateRedisCache H r url response e = (''OK'', e1) \<and> later (db (rv_state e)) d \<and>
    db (rv_state e1) = updated url (quoted response) d \<and> later (db (rv_state e2)) (db (rv_state e3)) \<and>
    readRedisCache H r url e2 =
      (if rd_clock (db (rv_state e3)) < rd_clock (db (rv_state e2)) + 30
       then Inr (if live d url = None then response else old, e3) else Inl Null_String)"
proof -
  obtain e1 d where e1: "updateRedisCache H r url response e = (''OK'', e1)"
      "later (db (rv_state e)) d" "db (rv_state e1) = updated url (quoted response) d"
    using updateRedisCache_ok [OF assms(1-4)] by blast
  let ?v = "if live d url = None then response else old"
  have "live d url = None \<or> live d url = Some (quoted old)"
    using assms(6) e1(2) by (auto simp: live_def later_def split: option.splits)
  then have "fresh_value url (quoted ?v) (db (rv_state e1))"
    using updated_fresh [where k = url and d = d and v = "quoted response"] e1(3) by auto
  then have fresh: "fresh_value url (quoted ?v) (db (rv_state e2))"
    using refreshes_keep [OF assms(1-3), of e1 vs e2] assms(7,8) e1(1) by simp
  obtain e3 where e3: "readRedisCache H r url e2 =
      rbind (read_answer (live (db (rv_state e3)) url)) (\<lambda>v. Inr (v, e3))"
      "later (db (rv_state e2)) (db (rv_state e3))"
    using readRedisCache_store [OF assms(1-3)] by blast
  have "NUL \<notin> set ?v" using assms(4,5) by (simp add: plain_def)
  moreover have "live (db (rv_state e3)) url =
      (if rd_clock (db (rv_state e3)) < rd_clock (db (rv_state e2)) + 30 then Some (quoted ?v) else None)"
    using e3(2) fresh by (simp add: live_def [of "db (rv_state e3)"] fresh_value_def later_def REDIS_EXPIRED_TIME_def)
  ultimately have "readRedisCache H r url e2 =
      (if rd_clock (db (rv_state e3)) < rd_clock (db (rv_state e2)) + 30 then Inr (?v, e3) else Inl Null_String)"
    using e3(1) read_answer_quoted [of ?v] by (simp add: read_answer_def)
  then show ?thesis using e1 e3(2) by blast
qed

lemma demo_read_old:
  "case readRedisCache demo_redis demo_cfg ''/a'' (snd (updateRedisCache demo_redis demo_cfg ''/a'' ''new'' demo_env)) of
    Inl f \<Rightarrow> False | Inr (v, e) \<Rightarrow> v = ''old''"
  by code_simp

theorem redis_update_read_witness:
  "\<exists>e1 e3. updateRedisCache demo_redis demo_cfg ''/a'' ''new'' demo_env = (''OK'', e1) \<and>
    readRedisCache demo_redis demo_cfg ''/a'' e1 = Inr (''old'', e3) \<and>
    rd_clock (fst (rv_state e3)) < rd_clock (fst (rv_state e1)) + 30"
proof -
  let ?e1 = "snd (updateRedisCache demo_redis demo_cfg ''/a'' ''new'' demo_env)"
  have *: "rd_keys (fst (rv_state demo_env)) ''/a'' = None \<or>
      (\<exists>t. rd_keys (fst (rv_state demo_env)) ''/a'' = Some (quoted ''old'', t))"
    by (simp add: demo_env_def)
  have pl: "plain (passwd demo_cfg)" "plain ''/a''" "plain ''new''" "NUL \<notin> set ''old''" "\<forall>v \<in> set []. plain v"
    by (simp_all add: demo_cfg_def plain_def NUL_def)
  from redis_update_read [OF demo_redis_laws pl(1-4) * pl(5) rf_end] obtain e1 v e3 where
    e1: "updateRedisCache demo_redis demo_cfg ''/a'' ''new'' demo_env = (''OK'', e1)" and
    rd: "readRedisCache demo_redis demo_cfg ''/a'' ?e1 =
      (if rd_clock (fst (rv_state e3)) < rd_clock (fst (rv_state ?e1)) + 30 then Inr (v, e3) else Inl Null_String)"
    by blast
  then show ?thesis using demo_read_old by (auto split: if_splits)
qed

text \<open>
  A miss ends the process. For a key that the server does not have, or has no longer, the reply is
  nil, its \<open>str\<close> is null, and \<open>readRedisCache\<close> constructs a string from it; a stored text of fewer
  than two characters gives a range whose end precedes its begin.
\<close>

lemma redis_miss_faults:
  assumes "redis_laws H db q" and "plain (passwd r)" and "plain url"
  shows "rd_keys (db (rv_state e)) url = None \<or>
      (\<exists>v t. rd_keys (db (rv_state e)) url = Some (v, Some t) \<and> t \<le> rd_clock (db (rv_state e))) \<Longrightarrow>
    readRedisCache H r url e = Inl Null_String"
    and "rd_keys (db (rv_state e)) url = Some ([], None) \<Longrightarrow> readRedisCache H r url e = Inl Bad_Range"
proof -
  obtain e1 where e1: "readRedisCache H r url e = rbind (read_answer (live (db (rv_state e1)) url)) (\<lambda>v. Inr (v, e1))"
      "later (db (rv_state e)) (db (rv_state e1))"
    using readRedisCache_store [OF assms] by blast
  show "readRedisCache H r url e = Inl Null_String"
    if "rd_keys (db (rv_state e)) url = None \<or>
      (\<exists>v t. rd_keys (db (rv_state e)) url = Some (v, Some t) \<and> t \<le> rd_clock (db (rv_state e)))"
    using that e1 by (auto simp: read_answer_def live_def later_def)
  show "readRedisCache H r url e = Inl Bad_Range" if "rd_keys (db (rv_state e)) url = Some ([], None)"
    using that e1 by (simp add: read_answer_def live_def later_def strip_ends_def c_str_def)
qed

lemma redis_kept_read:
  assumes "redis_laws H db q" and "plain (passwd r)" and "plain url"
    and "rd_keys (db (rv_state e)) url = Some (quoted v, None)" and "NUL \<notin> set v"
  shows "\<exists>e1. readRedisCache H r url e = Inr (v, e1)"
proof -
  obtain e1 where e1: "readRedisCache H r url e = rbind (read_answer (live (db (rv_state e1)) url)) (\<lambda>v. Inr (v, e1))"
      "later (db (rv_state e)) (db (rv_state e1))"
    using readRedisCache_store [OF assms(1-3)] by blast
  then show ?thesis using assms(4) read_answer_quoted [OF assms(5)] by (simp add: live_def later_def)
qed

lemma redis_miss_faults_example:
  "readRedisCache demo_redis demo_cfg ''/b'' demo_env = Inl Null_String"
  by (rule redis_miss_faults(1) [OF demo_redis_laws]) (simp_all add: demo_cfg_def demo_env_def plain_def NUL_def)

text \<open>
  An error reply is served as content. Whatever the server answered to \<open>auth\<close>, as long as
  there was a reply, the text of the reply to \<open>get\<close>, an error message or a status as well,
  is returned without its first and last character; the connection and both replies are freed.
\<close>

lemma redis_any_reply_served:
  assumes "redisConnect H (c_str (ipAddress r)) (port r) (rv_state e) = (Some (c, False), s1)"
    and "redisCommand H c (c_str (''auth '' @ passwd r)) s1 = (Some a, s2)"
    and "redisCommand H c (c_str (''get '' @ url)) s2 = (Some \<lparr>reply_str = Some msg\<rparr>, s3)"
    and "c_str msg = x # v @ [y]"
  shows "readRedisCache H r url e = Inr (v, e\<lparr>rv_state := s3\<rparr>)"
proof -
  let ?e1 = "e\<lparr>rv_state := s1, rv_contexts := rv_contexts e + 1\<rparr>"
  let ?e2 = "e\<lparr>rv_state := s2, rv_contexts := rv_contexts e + 1\<rparr>"
  let ?e3 = "e\<lparr>rv_state := s3, rv_contexts := rv_contexts e + 1, rv_replies := rv_replies e + 1\<rparr>"
  have 1: "Connect H r e = (Some c, ?e1)" using assms(1) by (simp add: Connect_def)
  have 2: "getAuth H r c ?e1 = (True, ?e2)"
    using assms(2) by (simp add: getAuth_def run_command_def freeReplyObject_def)
  have 3: "run_command H c (''get '' @ url) ?e2 = (Some \<lparr>reply_str = Some msg\<rparr>, ?e3)"
    using assms(3) by (simp add: run_command_def)
  show ?thesis
    using readRedisCache_run [OF 1 2 3] assms(4)
    by (simp add: read_answer_def strip_ends_def freeReplyObject_def redisFree_def)
qed

text \<open>A server that wants a password that is not sent to it.\<close>

definition closed_redis :: "unit hiredis" where
  "closed_redis = \<lparr>redisConnect = (\<lambda>ip pt s. (Some (0, False), s)),
     redisCommand = (\<lambda>c command s. (Some \<lparr>reply_str = Some ''NOAUTH Authentication required.''\<rparr>, s))\<rparr>"

lemma noauth_text: "c_str ''NOAUTH Authentication required.'' = ''NOAUTH Authentication required.''"
proof (rule c_str_id)
  show "NUL \<notin> set ''NOAUTH Authentication required.''"
    by (simp add: NUL_def)
qed

lemma redis_any_reply_served_example:
  "readRedisCache closed_redis demo_cfg ''/a'' \<lparr>rv_state = (), rv_contexts = 0, rv_replies = 0\<rparr> =
    Inr (''OAUTH Authentication required'', \<lparr>rv_state = (), rv_contexts = 0, rv_replies = 0\<rparr>)"
  using redis_any_reply_served [of closed_redis demo_cfg "\<lparr>rv_state = (), rv_contexts = 0, rv_replies = 0\<rparr>"
      0 "()" "\<lparr>reply_str = Some ''NOAUTH Authentication required.''\<rparr>" "()" "''/a''"
      "''NOAUTH Authentication required.''" "()" "CHR ''N''" "''OAUTH Authentication required''" "CHR ''.''"]
    noauth_text
  by (simp add: closed_redis_def)

text \<open>
  \<open>updateRedisCache\<close> loses replies. On every path the connection that \<open>Connect\<close> returned is
  freed again, but each successful command of the transaction leaves its reply behind (four
  after an update that is answered \<open>"OK"\<close>), and a context that reports an error is never freed.
\<close>

lemma redis_update_leaks:
  assumes "updateRedisCache H r url response e = (res, e')"
  shows "(res = ''OK'' \<and> rv_contexts e' = rv_contexts e \<and> rv_replies e' = rv_replies e + 4) \<or>
    (res = ''FAIL'' \<and> rv_contexts e' = rv_contexts e \<and>
       rv_replies e \<le> rv_replies e' \<and> rv_replies e' < rv_replies e + 4) \<or>
    (res = [] \<and> rv_contexts e' = rv_contexts e + (if connect_err H r e then 1 else 0) \<and>
       rv_replies e' = rv_replies e)"
proof -
  obtain conn e1 where con: "Connect H r e = (conn, e1)" by (metis surj_pair)
  show ?thesis
  proof (cases conn)
    case None
    then show ?thesis
      using assms con Connect_count [OF con] by (auto simp: updateRedisCache_def)
  next
    case (Some c)
    have noerr: "\<not> connect_err H r e"
      using con Some by (auto simp: Connect_def connect_err_def split: prod.splits option.splits if_splits)
    obtain b e2 where au: "getAuth H r c e1 = (b, e2)" by (metis surj_pair)
    obtain b' e3 where up: "atomicUpdate H c url response e2 = (b', e3)" by (metis surj_pair)
    show ?thesis
      using assms con Some noerr au up Connect_count [OF con] getAuth_count [OF au] atomicUpdate_count [OF up]
      by (auto simp: updateRedisCache_def redisFree_def split: if_splits)
  qed
qed

lemma redis_update_leaks_example:
  "\<exists>e'. updateRedisCache closed_redis demo_cfg ''/a'' ''x'' \<lparr>rv_state = (), rv_contexts = 0, rv_replies = 0\<rparr> =
      (''OK'', e') \<and> rv_contexts e' = 0 \<and> rv_replies e' = 4"
proof -
  let ?e = "\<lparr>rv_state = (), rv_contexts = 0, rv_replies = 0\<rparr>"
  obtain res e' where u: "updateRedisCache closed_redis demo_cfg ''/a'' ''x'' ?e = (res, e')"
    by (metis surj_pair)
  moreover have "res = ''OK''"
    using u by (simp add: updateRedisCache_def Connect_def closed_redis_def getAuth_def run_command_def
        atomicUpdate_def commandWrapper_def)
  ultimately show ?thesis using redis_update_leaks [OF u] by auto
qed

end
