(* ===== verification/Two_Level_Cache.thy ===== *)
theory Two_Level_Cache
  imports Memory_Cache Redis
begin

text \<open>
  \<open>class Cache\<close> of \<open>src/cache/cache.h\<close>: the memory cache in front of the Redis cache. The
  methods are run by one thread \<open>t\<close> at the time \<open>now\<close>; the environment of hiredis is passed
  through them.
\<close>

record Cache =
  ch_memoryCache :: MemoryCache
  ch_redisCache :: RedisCache

text \<open>The parameter \<open>expire_time\<close> of the constructor is not used.\<close>

definition Cache_new :: "64 word \<Rightarrow> 32 word \<Rightarrow> int \<Rightarrow> string \<Rightarrow> string \<Rightarrow> int \<Rightarrow> Cache" where
  "Cache_new junk init_capacity expire_time pw ip pt =
     \<lparr>ch_memoryCache = MemoryCache_new junk init_capacity,
      ch_redisCache = RedisCache_new pw (c_str ip) pt\<rparr>"

definition Cache_readCache :: "'s hiredis \<Rightarrow> nat \<Rightarrow> 64 word \<Rightarrow> string \<Rightarrow> Cache \<Rightarrow> 's renv
    \<Rightarrow> (string \<times> Cache \<times> 's renv) result" where
  "Cache_readCache H t now url c e =
     rbind (MemoryCache_readCache t now url (ch_memoryCache c)) (\<lambda>(res, m).
       let c1 = c\<lparr>ch_memoryCache := m\<rparr>
       in if res \<noteq> [] then Inr (res, c1, e)
          else rbind (readRedisCache H (ch_redisCache c1) url e) (\<lambda>(res1, e1). Inr (res1, c1, e1)))"

text \<open>The answer of \<open>updateRedisCache\<close> is dropped.\<close>

definition Cache_writeCache :: "'s hiredis \<Rightarrow> 64 word \<Rightarrow> string \<Rightarrow> string \<Rightarrow> Cache \<Rightarrow> 's renv
    \<Rightarrow> (Cache \<times> 's renv) result" where
  "Cache_writeCache H now url response c e =
     rbind (MemoryCache_writeCache now url response (ch_memoryCache c)) (\<lambda>m.
       Inr (c\<lparr>ch_memoryCache := m\<rparr>, snd (updateRedisCache H (ch_redisCache c) url response e)))"

section \<open>The memory level\<close>

lemma MemoryCache_read:
  assumes "mc_heap s (mc_lru_cache s) = Some l" and "Lru_get now url l = Inr (v, l')"
  shows "\<exists>s'. MemoryCache_readCache t now url s = Inr (v, s') \<and>
    mc_heap s' (mc_lru_cache s') = Some l'"
  using assms
  by (simp add: MemoryCache_readCache_def snapshot_ok readCache_get_def drop_ref_def use_count_def)

lemma MemoryCache_read_live:
  assumes "mc_heap s (mc_lru_cache s) = Some l" and "lru_inv l" and "lru_live now url l"
  shows "\<exists>v s'. MemoryCache_readCache t now url s = Inr (v, s') \<and> map_of (lru_entries l) url = Some v"
  using lru.get_live [OF assms(2,3)] MemoryCache_read [OF assms(1)] by blast

lemma MemoryCache_read_dead:
  assumes "mc_heap s (mc_lru_cache s) = Some l" and "lru_inv l" and "\<not> lru_live now url l"
  shows "\<exists>s' l'. MemoryCache_readCache t now url s = Inr ([], s') \<and>
    mc_heap s' (mc_lru_cache s') = Some l' \<and> lru_entries l' = drop_key url (lru_entries l)"
  using lru.get_dead [OF assms(2,3)] MemoryCache_read [OF assms(1)] by blast

section \<open>Properties\<close>

text \<open>
  C27: A response that was written is read back from memory, whatever Redis does: when the
  memory cache has the url or has room, \<open>writeCache\<close> succeeds for every behaviour of the
  server, and a \<open>readCache\<close> in the same second returns the response without any command sent
  (the environment is the one that \<open>writeCache\<close> left).
\<close>

theorem cache_write_read:
  assumes "mc_heap_inv (ch_memoryCache c)"
    and "mc_heap (ch_memoryCache c) (mc_lru_cache (ch_memoryCache c)) = Some l"
    and "length (lru_entries l) < 2 ^ 31 - 1"
    and "url \<in> fst ` set (lru_entries l) \<or> length (lru_entries l) < unat (lru_maxSize l)"
    and "response \<noteq> []"
  shows "\<exists>c1 c2 e1. Cache_writeCache H now url response c e = Inr (c1, e1) \<and>
    Cache_readCache H t now url c1 e1 = Inr (response, c2, e1)"
proof -
  obtain m1 m2 where "MemoryCache_writeCache now url response (ch_memoryCache c) = Inr m1"
      and "MemoryCache_readCache t now url m1 = Inr (response, m2)"
    using MemoryCache_write_read [OF assms(1-4)] by blast
  then show ?thesis
    using assms(5) by (simp add: Cache_writeCache_def Cache_readCache_def Let_def)
qed

definition demo_cache :: Cache where
  "demo_cache = Cache_new 0 8 20 ''pw'' ''127.0.0.1'' 6379"

lemma demo_cache_memory:
  "mc_heap_inv (ch_memoryCache demo_cache)"
  "mc_heap (ch_memoryCache demo_cache) (mc_lru_cache (ch_memoryCache demo_cache)) = Some (Lru_new 0 8)"
  using mc_new_inv [of 0 8] by (simp_all add: demo_cache_def Cache_new_def MemoryCache_new_def mc_inv_def)

theorem cache_write_read_witness:
  "\<exists>c1 c2 e1. Cache_writeCache closed_redis 9 ''/a'' ''x'' demo_cache
        \<lparr>rv_state = (), rv_contexts = 0, rv_replies = 0\<rparr> = Inr (c1, e1) \<and>
    Cache_readCache closed_redis 1 9 ''/a'' c1 e1 = Inr (''x'', c2, e1)"
  using cache_write_read [OF demo_cache_memory, of "''/a''" "''x''"] by simp



end
