(* ===== verification/Http_Context.thy ===== *)
theory Http_Context
  imports Prelude
begin

text \<open>
  \<open>class _HttpContext\<close> (\<open>src/Http/_HttpContext.h\<close>, \<open>_HttpContext.cpp\<close>): the incremental
  parser for requests that the proxy runs on a copy of the connection's input.

  The vector \<open>buf\<close> is a \<open>string\<close>, an iterator into it the number of characters before it.
  \<open>parse_turn\<close> is one turn of the loop of \<open>parseRequest\<close> and \<open>parse_loop\<close> the loop; the
  pointers of \<open>praseRequestLine\<close> are indices into the same buffer, and a read at or behind
  the end of the buffer is the fault \<open>Out_Of_Bounds\<close>. The second part of the theory states
  what the parser computes on lists of lines (\<open>spec_parse\<close>) and proves the loop against it.
\<close>

section \<open>The class\<close>

datatype HttpRequestParseState = kExpectRequestLine | kExpectHeaders | kExpectBody | kGotAll

record HttpContext =
  hc_state :: HttpRequestParseState
  request_method :: string
  request_url :: string
  hc_hasCookie :: bool

definition HttpContext_new :: HttpContext where
  "HttpContext_new = \<lparr>hc_state = kExpectRequestLine, request_method = [], request_url = [],
     hc_hasCookie = True\<rparr>"

definition GetMethod :: string where
  "GetMethod = ''Get''"

definition isResponseCompelete :: "string \<Rightarrow> bool" where
  "isResponseCompelete buf = False"

definition createResponse :: "string \<Rightarrow> string" where
  "createResponse content = content"

definition gotAll :: "HttpContext \<Rightarrow> bool" where
  "gotAll c \<longleftrightarrow> hc_state c = kGotAll"

definition HttpContext_reset :: "HttpContext \<Rightarrow> HttpContext" where
  "HttpContext_reset c = c\<lparr>hc_state := kExpectRequestLine, request_url := [], request_method := []\<rparr>"

definition getStates :: "HttpContext \<Rightarrow> HttpRequestParseState" where
  [simp]: "getStates c = hc_state c"

definition getRequestMethod :: "HttpContext \<Rightarrow> string" where
  [simp]: "getRequestMethod c = request_method c"

definition getRequestUrl :: "HttpContext \<Rightarrow> string" where
  [simp]: "getRequestUrl c = request_url c"

definition hasCookie :: "HttpContext \<Rightarrow> bool" where
  "hasCookie c = hc_hasCookie c"

section \<open>The request line\<close>

text \<open>\<open>while (start != end && *start != ' ') { tok += *start; ++start; }\<close>\<close>

function scan_token :: "string \<Rightarrow> nat \<Rightarrow> nat \<Rightarrow> string \<Rightarrow> (string \<times> nat) result" where
  "scan_token buf e i tok =
     (if i = e then Inr (tok, i)
      else if length buf \<le> i then Inl Out_Of_Bounds
      else if buf ! i = CHR '' '' then Inr (tok, i)
      else scan_token buf e (Suc i) (tok @ [buf ! i]))"
  by pat_completeness auto
termination by (relation "measure (\<lambda>(buf, e, i, tok). length buf - i)") auto

text \<open>\<open>while (*start == ' ') ++start;\<close> does not look at \<open>end\<close>.\<close>

function skip_spaces :: "string \<Rightarrow> nat \<Rightarrow> nat result" where
  "skip_spaces buf i =
     (if length buf \<le> i then Inl Out_Of_Bounds
      else if buf ! i = CHR '' '' then skip_spaces buf (Suc i)
      else Inr i)"
  by pat_completeness auto
termination by (relation "measure (\<lambda>(buf, i). length buf - i)") auto

declare scan_token.simps [simp del] skip_spaces.simps [simp del]

definition praseRequestLine :: "string \<Rightarrow> nat \<Rightarrow> nat \<Rightarrow> HttpContext \<Rightarrow> (bool \<times> HttpContext) result" where
  "praseRequestLine buf b e c =
     rbind (scan_token buf e b (request_method c)) (\<lambda>(m, i).
       let c1 = c\<lparr>request_method := m\<rparr>
       in if i = e then Inr (False, c1)
          else rbind (skip_spaces buf i) (\<lambda>j.
            if j = e then Inr (False, c1)
            else rbind (scan_token buf e j (request_url c1)) (\<lambda>(u, k).
              Inr (True, c1\<lparr>request_url := u\<rparr>))))"

section \<open>The parse loop\<close>

definition CR :: char where "CR = CHR 0x0D"

definition LF :: char where "LF = CHR 0x0A"

definition CRLF :: string where "CRLF = [CR, LF]"

text \<open>\<open>std::search(it, buf.end(), CRLF)\<close>: the first occurrence, or the end.\<close>

fun crlf_off :: "string \<Rightarrow> nat" where
  "crlf_off [] = 0"
| "crlf_off [c] = 1"
| "crlf_off (c # d # cs) = (if c = CR \<and> d = LF then 0 else Suc (crlf_off (d # cs)))"

definition search_crlf :: "string \<Rightarrow> nat \<Rightarrow> nat" where
  "search_crlf buf it = (if it < length buf then it + crlf_off (drop it buf) else length buf)"

text \<open>\<open>std::find\<close> in an iterator range.\<close>

definition find_char :: "string \<Rightarrow> nat \<Rightarrow> nat \<Rightarrow> char \<Rightarrow> nat" where
  "find_char buf a b x = a + length (takeWhile (\<lambda>c. c \<noteq> x) (range_str buf a b))"

text \<open>The object and the local variables of \<open>parseRequest\<close>; \<open>bodySize\<close> is an \<open>unsigned int\<close>.\<close>

record parse_vars =
  pv_ctx :: HttpContext
  pv_ok :: bool
  pv_hasMore :: bool
  pv_bodySize :: int
  pv_it :: nat

definition turn_request_line :: "string \<Rightarrow> parse_vars \<Rightarrow> parse_vars result" where
  "turn_request_line buf v =
     (let it = search_crlf buf (pv_it v)
      in if it \<noteq> length buf
         then rbind (praseRequestLine buf 0 it (pv_ctx v)) (\<lambda>(ok, c).
           if ok then Inr (v\<lparr>pv_ok := True, pv_it := it + 2, pv_ctx := c\<lparr>hc_state := kExpectHeaders\<rparr>\<rparr>)
           else Inr (v\<lparr>pv_ok := False, pv_it := it, pv_ctx := c, pv_hasMore := False\<rparr>))
         else Inr (v\<lparr>pv_ok := False, pv_it := it, pv_hasMore := False\<rparr>))"

definition turn_headers :: "string \<Rightarrow> parse_vars \<Rightarrow> parse_vars" where
  "turn_headers buf v =
     (let itCrlf = search_crlf buf (pv_it v)
      in if itCrlf \<noteq> length buf
         then let colon = find_char buf (pv_it v) itCrlf (CHR '':'')
              in if colon \<noteq> itCrlf
                 then (if range_str buf (pv_it v) colon = ''Content-Length''
                       then v\<lparr>pv_bodySize := to_uint32 (atoi (c_str (range_str buf (colon + 1) itCrlf))),
                              pv_it := itCrlf + 2\<rparr>
                       else v\<lparr>pv_it := itCrlf + 2\<rparr>)
                 else v\<lparr>pv_ctx := (pv_ctx v)\<lparr>hc_state := kExpectBody\<rparr>, pv_it := itCrlf + 2\<rparr>
         else v\<lparr>pv_hasMore := False, pv_ok := False\<rparr>)"

definition turn_body :: "string \<Rightarrow> parse_vars \<Rightarrow> parse_vars" where
  "turn_body buf v =
     (if pv_bodySize v \<noteq> 0 \<and> pv_bodySize v \<le> to_size_t (int (length buf) - int (pv_it v))
      then v\<lparr>pv_ok := True, pv_hasMore := False\<rparr>
      else if pv_bodySize v = 0 then v\<lparr>pv_ok := True, pv_hasMore := False\<rparr>
      else v\<lparr>pv_ok := False, pv_hasMore := False\<rparr>)"

text \<open>In the state \<open>kGotAll\<close> no branch of the loop body applies and the loop never ends.\<close>

definition parse_turn :: "string \<Rightarrow> parse_vars \<Rightarrow> parse_vars result" where
  "parse_turn buf v =
     (case hc_state (pv_ctx v) of
        kExpectRequestLine \<Rightarrow> turn_request_line buf v
      | kExpectHeaders \<Rightarrow> Inr (turn_headers buf v)
      | kExpectBody \<Rightarrow> Inr (turn_body buf v)
      | kGotAll \<Rightarrow> Inl Spin)"

lemma crlf_off_le: "crlf_off s \<le> length s"
  by (induction s rule: crlf_off.induct) auto

lemma crlf_off_found: "crlf_off s \<noteq> length s \<Longrightarrow> crlf_off s + 2 \<le> length s"
  by (induction s rule: crlf_off.induct) auto

lemma search_crlf_found:
  "search_crlf buf it \<noteq> length buf \<Longrightarrow> it \<le> search_crlf buf it \<and> search_crlf buf it + 2 \<le> length buf"
  using crlf_off_found [of "drop it buf"] by (simp add: search_crlf_def split: if_splits) arith

definition state_rank :: "HttpRequestParseState \<Rightarrow> nat" where
  "state_rank st = (case st of kExpectRequestLine \<Rightarrow> 2 | kExpectHeaders \<Rightarrow> 1 | _ \<Rightarrow> 0)"

text \<open>The loop ends because the state advances or, within the headers, the iterator does.\<close>

lemma praseRequestLine_state:
  "praseRequestLine buf b e c = Inr (ok, c') \<Longrightarrow> hc_state c' = hc_state c"
  by (auto simp: praseRequestLine_def Let_def split: if_splits)

lemma parse_turn_progress:
  assumes "parse_turn buf v = Inr w" and "pv_hasMore w"
  shows "state_rank (hc_state (pv_ctx w)) < state_rank (hc_state (pv_ctx v)) \<or>
    hc_state (pv_ctx w) = hc_state (pv_ctx v) \<and> length buf - pv_it w < length buf - pv_it v"
proof (cases "hc_state (pv_ctx v)")
  case kExpectRequestLine
  then show ?thesis
    using assms by (auto simp: parse_turn_def turn_request_line_def Let_def state_rank_def split: if_splits)
next
  case kExpectHeaders
  then have w: "w = turn_headers buf v" using assms(1) by (simp add: parse_turn_def)
  with assms(2) have "search_crlf buf (pv_it v) \<noteq> length buf"
    by (auto simp: turn_headers_def)
  then show ?thesis
    using w kExpectHeaders search_crlf_found [of buf "pv_it v"]
    by (auto simp: turn_headers_def Let_def state_rank_def)
next
  case kExpectBody
  then show ?thesis using assms by (auto simp: parse_turn_def turn_body_def split: if_splits)
next
  case kGotAll
  then show ?thesis using assms by (simp add: parse_turn_def)
qed

function parse_loop :: "string \<Rightarrow> parse_vars \<Rightarrow> parse_vars result" where
  "parse_loop buf v =
     (if pv_hasMore v then (case parse_turn buf v of Inl e \<Rightarrow> Inl e | Inr w \<Rightarrow> parse_loop buf w)
      else Inr v)"
  by pat_completeness auto
termination
proof (relation "measures [\<lambda>(buf, v). of_bool (pv_hasMore v),
      \<lambda>(buf, v). state_rank (hc_state (pv_ctx v)), \<lambda>(buf, v). length buf - pv_it v]", goal_cases)
  case (2 buf v w)
  then show ?case
    using parse_turn_progress [of buf v w] by (cases "pv_hasMore w") auto
qed simp

declare parse_loop.simps [simp del]

lemma parse_loop_stop: "\<not> pv_hasMore v \<Longrightarrow> parse_loop buf v = Inr v"
  by (simp add: parse_loop.simps)

definition parseRequest :: "string \<Rightarrow> HttpContext \<Rightarrow> ((bool \<times> int) \<times> HttpContext) result" where
  "parseRequest buf c =
     rbind (parse_loop buf \<lparr>pv_ctx = c\<lparr>hc_state := kExpectRequestLine\<rparr>, pv_ok = False,
              pv_hasMore = True, pv_bodySize = 0, pv_it = 0\<rparr>) (\<lambda>v.
       Inr ((pv_ok v, to_int32 (int (pv_it v) + pv_bodySize v)), pv_ctx v))"

section \<open>What the parser computes, on lines\<close>

text \<open>The text before the first CRLF and the text behind it.\<close>

fun cut_line :: "string \<Rightarrow> (string \<times> string) option" where
  "cut_line [] = None"
| "cut_line [c] = None"
| "cut_line (c # d # cs) =
     (if c = CR \<and> d = LF then Some ([], cs)
      else map_option (\<lambda>(l, r). (c # l, r)) (cut_line (d # cs)))"

text \<open>Method, url and whether there is a url, of a request line.\<close>

definition spec_request_line :: "string \<Rightarrow> string \<times> string \<times> bool" where
  "spec_request_line l =
     (let t = dropWhile (\<lambda>c. c = CHR '' '') (dropWhile (\<lambda>c. c \<noteq> CHR '' '') l)
      in (takeWhile (\<lambda>c. c \<noteq> CHR '' '') l, takeWhile (\<lambda>c. c \<noteq> CHR '' '') t, t \<noteq> []))"

definition header_name :: "string \<Rightarrow> string" where
  "header_name l = takeWhile (\<lambda>c. c \<noteq> CHR '':'') l"

definition header_value :: "string \<Rightarrow> string" where
  "header_value l = tl (dropWhile (\<lambda>c. c \<noteq> CHR '':'') l)"

definition spec_body_size :: "int \<Rightarrow> string \<Rightarrow> int" where
  "spec_body_size n l =
     (if header_name l = ''Content-Length'' then to_uint32 (atoi (c_str (header_value l))) else n)"

lemma cut_line_Some:
  "cut_line s = Some (l, r) \<Longrightarrow> s = l @ CR # LF # r \<and> crlf_off s = length l"
  by (induction s arbitrary: l r rule: cut_line.induct) (auto split: if_splits)

lemma cut_line_None: "cut_line s = None \<Longrightarrow> crlf_off s = length s"
  by (induction s rule: cut_line.induct) (auto split: if_splits)

lemma cut_line_append: "cut_line s = Some (l, r) \<Longrightarrow> cut_line (s @ t) = Some (l, r @ t)"
  by (induction s arbitrary: l r rule: cut_line.induct) (auto split: if_splits)

lemma cut_line_intro: "LF \<notin> set l \<Longrightarrow> cut_line (l @ CR # LF # r) = Some (l, r)"
proof (induction l)
  case (Cons c l)
  then show ?case by (cases l) (auto simp: CR_def LF_def)
qed simp

text \<open>The size announced by the headers, the text behind them, whether they are complete.\<close>

function spec_headers :: "int \<Rightarrow> string \<Rightarrow> int \<times> string \<times> bool" where
  "spec_headers n s =
     (case cut_line s of
        None \<Rightarrow> (n, s, False)
      | Some (l, r) \<Rightarrow> if CHR '':'' \<in> set l then spec_headers (spec_body_size n l) r else (n, r, True))"
  by pat_completeness auto
termination
  by (relation "measure (\<lambda>(n, s). length s)") (auto dest: cut_line_Some)

declare spec_headers.simps [simp del]

definition spec_parse :: "string \<Rightarrow> HttpContext \<Rightarrow> (bool \<times> int) \<times> HttpContext" where
  "spec_parse buf c =
     (case cut_line buf of
        None \<Rightarrow> ((False, to_int32 (int (length buf))), c\<lparr>hc_state := kExpectRequestLine\<rparr>)
      | Some (l, r) \<Rightarrow>
          let (m, u, good) = spec_request_line l;
              c1 = c\<lparr>hc_state := kExpectRequestLine, request_method := request_method c @ m,
                     request_url := request_url c @ u\<rparr>
          in if \<not> good then ((False, to_int32 (int (length l))), c1)
             else let (n, r', fin) = spec_headers 0 r
                  in ((fin \<and> n \<le> int (length r'), to_int32 (int (length buf - length r') + n)),
                      c1\<lparr>hc_state := if fin then kExpectBody else kExpectHeaders\<rparr>))"

lemma scan_token_spec:
  "scan_token (pre @ l @ post) (length pre + length l) (length pre) tok =
    Inr (tok @ takeWhile (\<lambda>c. c \<noteq> CHR '' '') l, length pre + length (takeWhile (\<lambda>c. c \<noteq> CHR '' '') l))"
proof (induction l arbitrary: pre tok)
  case Nil
  then show ?case by (simp add: scan_token.simps)
next
  case (Cons c l)
  show ?case
    using Cons.IH [of "pre @ [c]" "tok @ [c]"] by (subst scan_token.simps) (simp add: nth_append)
qed

lemma skip_spaces_spec:
  "c \<noteq> CHR '' '' \<Longrightarrow> skip_spaces (pre @ l @ c # post) (length pre) =
    Inr (length pre + length (takeWhile (\<lambda>c. c = CHR '' '') l))"
proof (induction l arbitrary: pre)
  case Nil
  then show ?case by (simp add: skip_spaces.simps)
next
  case (Cons d l)
  show ?case
    using Cons.IH [of "pre @ [d]"] Cons.prems by (subst skip_spaces.simps) (auto simp: nth_append)
qed

lemma praseRequestLine_spec:
  "praseRequestLine (l @ CR # post) 0 (length l) c =
    (let (m, u, good) = spec_request_line l
     in Inr (good, c\<lparr>request_method := request_method c @ m, request_url := request_url c @ u\<rparr>))"
proof -
  let ?m = "takeWhile (\<lambda>c. c \<noteq> CHR '' '') l" and ?t = "dropWhile (\<lambda>c. c \<noteq> CHR '' '') l"
  let ?s = "takeWhile (\<lambda>c. c = CHR '' '') ?t" and ?r = "dropWhile (\<lambda>c. c = CHR '' '') ?t"
  have l: "l = ?m @ ?s @ ?r" by simp
  have len: "length l = length ?m + length ?s + length ?r" by (metis l length_append add.assoc)
  have scan1: "scan_token (l @ CR # post) (length l) 0 tok = Inr (tok @ ?m, length ?m)" for tok
    using scan_token_spec [of "[]" l "CR # post" tok] by simp
  have skip: "skip_spaces (l @ CR # post) (length ?m) = Inr (length ?m + length ?s)"
    using skip_spaces_spec [of CR ?m ?t post]
    by (simp add: append_assoc [symmetric] CR_def del: append_assoc)
  have eq: "(?m @ ?s) @ ?r @ CR # post = l @ CR # post"
    using arg_cong [OF l, of "\<lambda>x. x @ CR # post"] by (simp only: append_assoc)
  have scan2: "scan_token (l @ CR # post) (length l) (length ?m + length ?s) tok =
      Inr (tok @ takeWhile (\<lambda>c. c \<noteq> CHR '' '') ?r,
           length ?m + length ?s + length (takeWhile (\<lambda>c. c \<noteq> CHR '' '') ?r))" for tok
    using scan_token_spec [of "?m @ ?s" ?r "CR # post" tok, unfolded eq]
    by (simp only: length_append len)
  have "length l = length ?m + length ?t" by (metis takeWhile_dropWhile_id length_append)
  then have "length ?m = length l \<longleftrightarrow> ?t = []" by (simp del: dropWhile_eq_Nil_conv)
  moreover have "length ?m + length ?s = length l \<longleftrightarrow> ?r = []"
    unfolding len by (simp del: dropWhile_eq_Nil_conv)
  moreover have "?r = []" if "?t = []" using that by (simp only: dropWhile.simps)
  ultimately show ?thesis
    by (simp add: praseRequestLine_def spec_request_line_def Let_def scan1 scan2 skip
        del: dropWhile_eq_Nil_conv)
qed

lemma search_crlf_cut:
  assumes "cut_line s = Some (l, r)"
  shows "search_crlf (pre @ s) (length pre) = length pre + length l"
    and "search_crlf (pre @ s) (length pre) \<noteq> length (pre @ s)"
  using cut_line_Some [OF assms] by (auto simp: search_crlf_def)

lemma search_crlf_none:
  "cut_line s = None \<Longrightarrow> search_crlf (pre @ s) (length pre) = length (pre @ s)"
  using cut_line_None [of s] by (auto simp: search_crlf_def)

lemma colon_split:
  "CHR '':'' \<in> set l \<Longrightarrow> l = header_name l @ CHR '':'' # header_value l"
  unfolding header_name_def header_value_def
  by (induction l) auto

lemma turn_headers_line:
  assumes "cut_line s = Some (l, r)"
  shows "turn_headers (pre @ s) (v\<lparr>pv_it := length pre\<rparr>) =
    (if CHR '':'' \<in> set l
     then v\<lparr>pv_bodySize := spec_body_size (pv_bodySize v) l, pv_it := length pre + length l + 2\<rparr>
     else v\<lparr>pv_ctx := (pv_ctx v)\<lparr>hc_state := kExpectBody\<rparr>, pv_it := length pre + length l + 2\<rparr>)"
proof -
  have s: "s = l @ CR # LF # r" using cut_line_Some [OF assms] by simp
  note cut = search_crlf_cut [OF assms, of pre]
  define k where "k = length (header_name l)"
  have colon: "find_char (pre @ s) (length pre) (length pre + length l) (CHR '':'') =
      length pre + k"
    by (simp add: k_def find_char_def range_str_def header_name_def s)
  show ?thesis
  proof (cases "CHR '':'' \<in> set l")
    case True
    note l = colon_split [OF True]
    have "k < length l" unfolding k_def by (subst (2) l) simp
    moreover have "range_str (pre @ s) (length pre) (length pre + k) = header_name l"
      unfolding k_def by (subst s, subst l) (simp add: range_str_def)
    moreover have "range_str (pre @ s) (length pre + k + 1) (length pre + length l) =
        header_value l"
    proof -
      have "range_str (pre @ s) (length pre + k + 1) (length pre + length l) =
          take (length l - Suc k) (drop (Suc k) (l @ CR # LF # r))"
        by (simp add: range_str_def s)
      also have "\<dots> = drop (Suc k) l" by simp
      also have "\<dots> = header_value l" unfolding k_def by (subst (2) l) simp
      finally show ?thesis .
    qed
    ultimately show ?thesis
      using True cut colon by (simp add: turn_headers_def Let_def spec_body_size_def)
  next
    case False
    then have "header_name l = l" by (auto simp: header_name_def takeWhile_eq_all_conv)
    then have "k = length l" by (simp add: k_def)
    then show ?thesis using False cut colon by (simp add: turn_headers_def Let_def)
  qed
qed

lemma spec_headers_suffix: "spec_headers n s = (n', r', fin) \<Longrightarrow> \<exists>p. s = p @ r' \<and> (fin \<longrightarrow> p \<noteq> [])"
proof (induction n s rule: spec_headers.induct)
  case (1 n s)
  show ?case
  proof (cases "cut_line s")
    case None
    then show ?thesis using 1(2) by (simp add: spec_headers.simps [of n s])
  next
    case (Some lr)
    obtain l r where lr: "lr = (l, r)" by (cases lr)
    have s: "s = l @ CR # LF # r" using Some lr cut_line_Some by blast
    show ?thesis
    proof (cases "CHR '':'' \<in> set l")
      case True
      then have "spec_headers (spec_body_size n l) r = (n', r', fin)"
        using 1(2) Some lr by (simp add: spec_headers.simps [of n s])
      then obtain p where "r = p @ r'" using 1(1) [OF Some lr [symmetric] True] by blast
      then have "s = (l @ CR # LF # p) @ r'" by (simp add: s)
      then show ?thesis by blast
    next
      case False
      then have "r' = r"
        using 1(2) Some lr by (simp add: spec_headers.simps [of n s])
      then have "s = (l @ [CR, LF]) @ r'" by (simp add: s)
      then show ?thesis by blast
    qed
  qed
qed

lemma spec_body_size_nonneg: "0 \<le> n \<Longrightarrow> 0 \<le> spec_body_size n l"
  by (simp add: spec_body_size_def to_uint32_range)

lemma spec_headers_nonneg: "spec_headers n s = (n', r', fin) \<Longrightarrow> 0 \<le> n \<Longrightarrow> 0 \<le> n'"
  by (induction n s rule: spec_headers.induct)
    (simp add: spec_headers.simps [of n s for n s] spec_body_size_nonneg split: option.splits prod.splits if_splits)

text \<open>The loop from a position in the headers on.\<close>

lemma parse_loop_body:
  assumes "hc_state (pv_ctx v) = kExpectBody" and "pv_hasMore v" and "0 \<le> pv_bodySize v"
    and "pv_it v \<le> length buf" and "length buf < 2 ^ 63"
  shows "parse_loop buf v =
    Inr (v\<lparr>pv_ok := pv_bodySize v \<le> int (length buf - pv_it v), pv_hasMore := False\<rparr>)"
proof -
  have "to_size_t (int (length buf) - int (pv_it v)) = int (length buf - pv_it v)"
    using assms(4,5) by (subst to_size_t_id) (simp_all add: of_nat_diff)
  then have "parse_turn buf v =
      Inr (v\<lparr>pv_ok := pv_bodySize v \<le> int (length buf - pv_it v), pv_hasMore := False\<rparr>)"
    using assms(1,3) by (auto simp: parse_turn_def turn_body_def)
  then show ?thesis
    using assms(2) by (simp add: parse_loop.simps [of buf v] parse_loop_stop)
qed

lemma same_state: "hc_state c = st \<Longrightarrow> c\<lparr>hc_state := st\<rparr> = c"
  by (cases c) simp

lemma parse_loop_headers:
  "spec_headers n s = (n', r', fin) \<Longrightarrow> 0 \<le> n \<Longrightarrow> length (pre @ s) < 2 ^ 63 \<Longrightarrow>
   hc_state (pv_ctx v) = kExpectHeaders \<Longrightarrow> pv_hasMore v \<Longrightarrow> pv_bodySize v = n \<Longrightarrow> pv_it v = length pre \<Longrightarrow>
   parse_loop (pre @ s) v =
     Inr (v\<lparr>pv_ctx := (pv_ctx v)\<lparr>hc_state := if fin then kExpectBody else kExpectHeaders\<rparr>,
            pv_ok := fin \<and> n' \<le> int (length r'), pv_hasMore := False, pv_bodySize := n',
            pv_it := length (pre @ s) - length r'\<rparr>)"
proof (induction n s arbitrary: pre v rule: spec_headers.induct)
  case (1 n s)
  have v: "v\<lparr>pv_it := length pre\<rparr> = v" using 1(8) by (cases v) simp
  have loop: "parse_loop (pre @ s) v = parse_loop (pre @ s) (turn_headers (pre @ s) v)"
    using 1(5,6) by (subst parse_loop.simps) (simp add: parse_turn_def)
  show ?case
  proof (cases "cut_line s")
    case None
    then have eq: "n' = n" "r' = s" "\<not> fin" using 1(2) by (simp_all add: spec_headers.simps [of n s])
    have "turn_headers (pre @ s) v = v\<lparr>pv_hasMore := False, pv_ok := False\<rparr>"
      using search_crlf_none [OF None, of pre] 1(8) by (simp add: turn_headers_def)
    then show ?thesis
      using loop eq 1(5,7,8) same_state [OF 1(5)] by (cases v) (simp add: parse_loop_stop)
  next
    case (Some lr)
    obtain l r where lr: "lr = (l, r)" by (cases lr)
    have s: "s = l @ CR # LF # r" using Some lr cut_line_Some by blast
    note turn = turn_headers_line [OF Some [unfolded lr], of pre v, unfolded v]
    show ?thesis
    proof (cases "CHR '':'' \<in> set l")
      case True
      let ?v = "v\<lparr>pv_bodySize := spec_body_size n l, pv_it := length (pre @ l @ [CR, LF])\<rparr>"
      have "spec_headers (spec_body_size n l) r = (n', r', fin)"
        using 1(2) Some lr True by (simp add: spec_headers.simps [of n s])
      from 1(1) [OF Some lr [symmetric] True this, of "pre @ l @ [CR, LF]" ?v]
      have "parse_loop (pre @ s) ?v = Inr (?v\<lparr>pv_ctx := (pv_ctx v)\<lparr>hc_state := if fin then kExpectBody else kExpectHeaders\<rparr>,
            pv_ok := fin \<and> n' \<le> int (length r'), pv_hasMore := False, pv_bodySize := n',
            pv_it := length (pre @ s) - length r'\<rparr>)"
        using 1(3-8) by (simp add: s spec_body_size_nonneg)
      then show ?thesis using loop turn True 1(7) by simp
    next
      case False
      let ?v = "v\<lparr>pv_ctx := (pv_ctx v)\<lparr>hc_state := kExpectBody\<rparr>, pv_it := length (pre @ l @ [CR, LF])\<rparr>"
      have eq: "n' = n" "r' = r" "fin"
        using 1(2) Some lr False by (simp_all add: spec_headers.simps [of n s])
      have "parse_loop (pre @ s) ?v =
          Inr (?v\<lparr>pv_ok := pv_bodySize v \<le> int (length r), pv_hasMore := False\<rparr>)"
        using 1(3-8) parse_loop_body [of ?v "pre @ s"] by (simp add: s)
      then show ?thesis using loop turn False 1(7) eq by (simp add: s)
    qed
  qed
qed

lemma parseRequest_spec:
  assumes "length buf < 2 ^ 63"
  shows "parseRequest buf c = Inr (spec_parse buf c)"
proof -
  let ?v = "\<lparr>pv_ctx = c\<lparr>hc_state := kExpectRequestLine\<rparr>, pv_ok = False, pv_hasMore = True,
     pv_bodySize = 0, pv_it = 0\<rparr>"
  have loop: "parse_loop buf ?v =
      (case turn_request_line buf ?v of Inl e \<Rightarrow> Inl e | Inr w \<Rightarrow> parse_loop buf w)"
    by (subst parse_loop.simps) (simp add: parse_turn_def)
  show ?thesis
  proof (cases "cut_line buf")
    case None
    then have "turn_request_line buf ?v = Inr (?v\<lparr>pv_ok := False, pv_it := length buf, pv_hasMore := False\<rparr>)"
      using search_crlf_none [OF None, of "[]"] by (simp add: turn_request_line_def)
    then show ?thesis
      using None loop by (simp add: parseRequest_def spec_parse_def parse_loop_stop)
  next
    case (Some lr)
    obtain l r where lr: "lr = (l, r)" by (cases lr)
    have buf: "buf = l @ CR # LF # r" using Some lr cut_line_Some by blast
    obtain m u good where line: "spec_request_line l = (m, u, good)" by (cases "spec_request_line l")
    obtain n r' fin where hd: "spec_headers 0 r = (n, r', fin)" by (cases "spec_headers 0 r")
    let ?c = "c\<lparr>hc_state := kExpectRequestLine, request_method := request_method c @ m,
                request_url := request_url c @ u\<rparr>"
    have turn: "turn_request_line buf ?v = Inr (if good
        then ?v\<lparr>pv_ok := True, pv_it := length l + 2, pv_ctx := ?c\<lparr>hc_state := kExpectHeaders\<rparr>\<rparr>
        else ?v\<lparr>pv_ok := False, pv_it := length l, pv_ctx := ?c, pv_hasMore := False\<rparr>)"
      using search_crlf_cut [OF Some [unfolded lr], of "[]"] praseRequestLine_spec [of l "LF # r"] line
      by (simp add: turn_request_line_def buf)
    show ?thesis
    proof (cases good)
      case True
      let ?w = "?v\<lparr>pv_ok := True, pv_it := length l + 2, pv_ctx := ?c\<lparr>hc_state := kExpectHeaders\<rparr>\<rparr>"
      have "parse_loop buf ?v = parse_loop ((l @ [CR, LF]) @ r) ?w" using loop turn True by (simp add: buf)
      also have "\<dots> = Inr (?w\<lparr>pv_ctx := (pv_ctx ?w)\<lparr>hc_state := if fin then kExpectBody else kExpectHeaders\<rparr>,
            pv_ok := fin \<and> n \<le> int (length r'), pv_hasMore := False, pv_bodySize := n,
            pv_it := length ((l @ [CR, LF]) @ r) - length r'\<rparr>)"
        using assms by (intro parse_loop_headers [OF hd]) (simp_all add: buf)
      finally show ?thesis
        using True Some lr line hd by (simp add: parseRequest_def spec_parse_def buf)
    next
      case False
      then show ?thesis
        using loop turn Some lr line by (simp add: parseRequest_def spec_parse_def parse_loop_stop)
    qed
  qed
qed

section \<open>The parser looks at the request only\<close>

lemma cut_line_local: "cut_line s = Some (l, r) \<Longrightarrow> cut_line (l @ CR # LF # t) = Some (l, t)"
proof (induction s arbitrary: l r rule: cut_line.induct)
  case (3 c d cs)
  show ?case
  proof (cases "c = CR \<and> d = LF")
    case True
    then show ?thesis using 3(2) by simp
  next
    case False
    then obtain l' where l: "l = c # l'" and cut: "cut_line (d # cs) = Some (l', r)"
      using 3(2) by auto
    have IH: "cut_line (l' @ CR # LF # t) = Some (l', t)" using 3(1) [OF False cut] .
    show ?thesis
    proof (cases l')
      case Nil
      then show ?thesis using l by (simp add: CR_def LF_def)
    next
      case (Cons d' l'')
      then have "d' = d" using cut_line_Some [OF cut] by simp
      then show ?thesis using l Cons IH False by simp
    qed
  qed
qed simp_all

lemma spec_headers_local:
  "spec_headers n (p @ r') = (n', r', True) \<Longrightarrow> spec_headers n (p @ t) = (n', t, True)"
proof (induction n "p @ r'" arbitrary: p rule: spec_headers.induct)
  case (1 n)
  note unf = spec_headers.simps [of n "p @ r'"]
  obtain l r where cut: "cut_line (p @ r') = Some (l, r)"
    using 1(2) by (cases "cut_line (p @ r')") (auto simp: unf)
  have s: "p @ r' = l @ CR # LF # r" using cut_line_Some [OF cut] by simp
  show ?case
  proof (cases "CHR '':'' \<in> set l")
    case True
    then have rest: "spec_headers (spec_body_size n l) r = (n', r', True)"
      using 1(2) cut by (simp add: unf)
    then obtain p' where r: "r = p' @ r'" using spec_headers_suffix by blast
    then have p: "p = l @ CR # LF # p'" using s by simp
    have "spec_headers (spec_body_size n l) (p' @ t) = (n', t, True)"
      using 1(1) [OF cut _ True] rest r by simp
    moreover have "cut_line (p @ t) = Some (l, p' @ t)"
      using cut_line_local [OF cut, of "p' @ t"] p by simp
    ultimately show ?thesis using True by (simp add: spec_headers.simps [of n "p @ t"])
  next
    case False
    then have "r' = r" "n' = n" using 1(2) cut by (simp_all add: unf)
    moreover from this have "cut_line (p @ t) = Some (l, t)"
      using cut_line_local [OF cut, of t] s by simp
    ultimately show ?thesis using False by (simp add: spec_headers.simps [of n "p @ t"])
  qed
qed

text \<open>What a successful parse has found: the request line, the headers, the body.\<close>

lemma spec_parse_okE:
  assumes "spec_parse buf c = ((True, n), c')"
  obtains l p b rest m u where "buf = l @ CR # LF # p @ b @ rest"
    and "cut_line buf = Some (l, p @ b @ rest)"
    and "spec_request_line l = (m, u, True)" and "p \<noteq> []"
    and "spec_headers 0 (p @ b @ rest) = (int (length b), b @ rest, True)"
    and "n = to_int32 (int (length (l @ CR # LF # p @ b)))"
    and "c' = c\<lparr>hc_state := kExpectBody, request_method := request_method c @ m,
                request_url := request_url c @ u\<rparr>"
proof -
  obtain l r where cut: "cut_line buf = Some (l, r)"
    using assms by (cases "cut_line buf") (auto simp: spec_parse_def)
  have buf: "buf = l @ CR # LF # r" using cut_line_Some [OF cut] by simp
  obtain m u good where line: "spec_request_line l = (m, u, good)" by (cases "spec_request_line l")
  obtain k r' fin where hd: "spec_headers 0 r = (k, r', fin)" by (cases "spec_headers 0 r")
  note facts = assms [unfolded spec_parse_def cut, simplified, unfolded line hd, simplified]
  have good: good using facts by (cases good) simp_all
  have fin: fin and k: "k \<le> int (length r')" and c': "c' = c\<lparr>hc_state := kExpectBody,
      request_method := request_method c @ m, request_url := request_url c @ u\<rparr>"
    and n: "n = to_int32 (int (length buf - length r') + k)"
    using facts good by auto
  obtain p where p: "r = p @ r'" "p \<noteq> []" using spec_headers_suffix [OF hd] fin by blast
  define b where "b = take (nat k) r'"
  have "0 \<le> k" using spec_headers_nonneg [OF hd] by simp
  then have b: "k = int (length b)" using k by (simp add: b_def)
  have r': "r' = b @ drop (nat k) r'" by (simp add: b_def)
  show thesis
  proof (rule that [of l p b "drop (nat k) r'" m u])
    show "buf = l @ CR # LF # p @ b @ drop (nat k) r'" "cut_line buf = Some (l, p @ b @ drop (nat k) r')"
      using buf cut p(1) r' by simp_all
    show "n = to_int32 (int (length (l @ CR # LF # p @ b)))"
      using n b by (simp add: buf p(1) add.commute add.left_commute)
    show "spec_headers 0 (p @ b @ drop (nat k) r') = (int (length b), b @ drop (nat k) r', True)"
      using hd p(1) b fin r' by simp
  qed (use line good p(2) c' in simp_all)
qed

lemma spec_parse_local:
  assumes "spec_parse buf c = ((True, n), c')" and "length buf < 2 ^ 31"
  shows "\<exists>k. n = int k \<and> 0 < k \<and> k \<le> length buf \<and>
    (\<forall>more. spec_parse (take k buf @ more) c = ((True, n), c'))"
proof -
  from assms(1) obtain l p b rest m u where buf: "buf = l @ CR # LF # p @ b @ rest"
    and cut: "cut_line buf = Some (l, p @ b @ rest)"
    and line: "spec_request_line l = (m, u, True)"
    and hd: "spec_headers 0 (p @ b @ rest) = (int (length b), b @ rest, True)"
    and n: "n = to_int32 (int (length (l @ CR # LF # p @ b)))"
    and c': "c' = c\<lparr>hc_state := kExpectBody, request_method := request_method c @ m,
                request_url := request_url c @ u\<rparr>"
    by (rule spec_parse_okE)
  let ?k = "length (l @ CR # LF # p @ b)"
  have "n = int ?k" using n assms(2) by (simp add: buf to_int32_id)
  moreover have "spec_parse (take ?k buf @ more) c = ((True, n), c')" for more
  proof -
    have "spec_headers 0 (p @ b @ more) = (int (length b), b @ more, True)"
      using spec_headers_local [OF hd, of "b @ more"] .
    moreover have "cut_line (take ?k buf @ more) = Some (l, p @ b @ more)"
      using cut_line_local [OF cut, of "p @ b @ more"] by (simp add: buf)
    ultimately show ?thesis
      using line c' n by (simp add: spec_parse_def buf algebra_simps)
  qed
  ultimately show ?thesis by (intro exI [of _ ?k]) (simp add: buf)
qed

section \<open>Requests as they are written\<close>

definition header_line :: "string \<times> string \<Rightarrow> string" where
  "header_line h = fst h @ '':'' @ snd h @ CRLF"

definition http_head :: "string \<Rightarrow> string \<Rightarrow> string \<Rightarrow> (string \<times> string) list \<Rightarrow> string" where
  "http_head m u ver hs = m @ '' '' @ u @ '' '' @ ver @ CRLF @ concat (map header_line hs)"

definition http_request :: "string \<Rightarrow> string \<Rightarrow> string \<Rightarrow> (string \<times> string) list \<Rightarrow> string \<Rightarrow> string" where
  "http_request m u ver hs body =
     http_head m u ver (hs @ [(''Content-Length'', '' '' @ to_string_nat (length body))]) @ CRLF @ body"

definition token_ok :: "string \<Rightarrow> bool" where
  "token_ok t \<longleftrightarrow> t \<noteq> [] \<and> CHR '' '' \<notin> set t \<and> LF \<notin> set t"

definition header_ok :: "string \<times> string \<Rightarrow> bool" where
  "header_ok h \<longleftrightarrow> CHR '':'' \<notin> set (fst h) \<and> LF \<notin> set (fst h) \<and> LF \<notin> set (snd h)"

lemma spec_request_line_render:
  "token_ok m \<Longrightarrow> token_ok u \<Longrightarrow> spec_request_line (m @ '' '' @ u @ '' '' @ ver) = (m, u, True)"
  using takeWhile_sep [of "CHR '' ''" u ver] takeWhile_sep [of "CHR '' ''" m "u @ '' '' @ ver"]
    dropWhile_sep [of "CHR '' ''" m "u @ '' '' @ ver"]
  by (cases u) (auto simp: spec_request_line_def token_ok_def)

lemma header_name_render: "CHR '':'' \<notin> set k \<Longrightarrow> header_name (k @ CHR '':'' # v) = k"
  by (simp add: header_name_def takeWhile_sep)

lemma header_value_render: "CHR '':'' \<notin> set k \<Longrightarrow> header_value (k @ CHR '':'' # v) = v"
  by (simp add: header_value_def dropWhile_sep)

lemma spec_headers_line:
  assumes "header_ok (k, v)"
  shows "spec_headers n (header_line (k, v) @ s) =
    spec_headers (if k = ''Content-Length'' then to_uint32 (atoi (c_str v)) else n) s"
proof -
  have "header_line (k, v) @ s = (k @ CHR '':'' # v) @ CR # LF # s"
    by (simp add: header_line_def CRLF_def)
  moreover have "LF \<notin> set (k @ CHR '':'' # v)" using assms by (auto simp: header_ok_def LF_def)
  ultimately have cut: "cut_line (header_line (k, v) @ s) = Some (k @ CHR '':'' # v, s)"
    using cut_line_intro by metis
  have k: "CHR '':'' \<notin> set k" using assms by (simp add: header_ok_def)
  have "spec_body_size n (k @ CHR '':'' # v) =
      (if k = ''Content-Length'' then to_uint32 (atoi (c_str v)) else n)"
    unfolding spec_body_size_def header_name_render [OF k] header_value_render [OF k] by (rule refl)
  then show ?thesis
    using cut by (simp add: spec_headers.simps [of n "header_line (k, v) @ s"])
qed

lemma spec_headers_lines:
  "\<forall>h \<in> set hs. header_ok h \<Longrightarrow> \<exists>k. spec_headers n (concat (map header_line hs) @ s) = spec_headers k s"
proof (induction hs arbitrary: n)
  case (Cons h hs)
  then show ?case
    using spec_headers_line [of "fst h" "snd h" n "concat (map header_line hs) @ s"] by auto
qed auto

lemma digits_plain: "c \<in> set (to_string_nat n) \<Longrightarrow> c \<noteq> NUL \<and> c \<noteq> LF"
proof -
  assume "c \<in> set (to_string_nat n)"
  then have "isdigit c" using to_string_nat_digits [of n] by blast
  then show ?thesis by (auto simp: isdigit_def NUL_def LF_def)
qed

lemma content_length_value:
  "n < 2 ^ 31 \<Longrightarrow> to_uint32 (atoi (c_str (CHR '' '' # to_string_nat n))) = int n"
proof -
  assume n: "n < 2 ^ 31"
  have "c_str (CHR '' '' # to_string_nat n) = CHR '' '' # to_string_nat n"
  proof (rule c_str_id)
    show "NUL \<notin> set (CHR '' '' # to_string_nat n)"
      using digits_plain [of NUL n] by (auto simp: NUL_def)
  qed
  moreover have "atoi (CHR '' '' # to_string_nat n) = int n"
    using atoi_to_string [of "'' ''" n "[]"] n by (simp add: isspace_def)
  ultimately show ?thesis using n by (simp add: to_uint32_id)
qed

lemma spec_headers_end: "spec_headers n (CRLF @ s) = (n, s, True)"
  by (subst spec_headers.simps) (simp add: CRLF_def)

lemma spec_parse_render:
  assumes "token_ok m" and "token_ok u" and "LF \<notin> set ver" and "\<forall>h \<in> set hs. header_ok h"
    and "length (http_request m u ver hs body) < 2 ^ 31"
  shows "spec_parse (http_request m u ver hs body @ rest) c =
    ((True, int (length (http_request m u ver hs body))),
     c\<lparr>hc_state := kExpectBody, request_method := request_method c @ m, request_url := request_url c @ u\<rparr>)"
proof -
  let ?l = "m @ '' '' @ u @ '' '' @ ver"
  let ?cl = "(''Content-Length'', CHR '' '' # to_string_nat (length body))"
  let ?r = "concat (map header_line hs) @ header_line ?cl @ CRLF @ body @ rest"
  have req: "http_request m u ver hs body @ rest = ?l @ CR # LF # ?r"
    by (simp add: http_request_def http_head_def CRLF_def)
  have "LF \<notin> set ?l" using assms(1-3) by (auto simp: token_ok_def LF_def)
  then have cut: "cut_line (?l @ CR # LF # ?r) = Some (?l, ?r)" by (rule cut_line_intro)
  have body: "length body < 2 ^ 31" using assms(5) by (simp add: http_request_def)
  have "header_ok ?cl" using digits_plain by (auto simp: header_ok_def LF_def)
  then have "spec_headers n (header_line ?cl @ CRLF @ body @ rest) = (int (length body), body @ rest, True)" for n
    using content_length_value [OF body] by (simp add: spec_headers_line spec_headers_end)
  then have hd: "spec_headers 0 ?r = (int (length body), body @ rest, True)"
    using spec_headers_lines [OF assms(4)] by metis
  have len: "int (length (?l @ CR # LF # ?r) - length (body @ rest)) + int (length body) =
      int (length (http_request m u ver hs body))"
    by (simp add: http_request_def http_head_def CRLF_def)
  have "length body \<le> length (body @ rest)" by simp
  then show ?thesis
    unfolding req spec_parse_def cut
    using spec_request_line_render [OF assms(1,2), of ver] hd len assms(5)
    by (simp add: to_int32_id del: length_append append_assoc)
qed

section \<open>Properties\<close>

text \<open>
  C1: The incremental parser computes the line-wise specification. On every buffer the loop
  over iterators ends, never reads outside of the buffer, and returns the result, the length
  and the context that \<open>spec_parse\<close> describes by cutting the text into lines: also on
  incomplete requests, on request lines without url, and with missing or negative sizes.
\<close>

theorem parseRequest_refines:
  assumes "length buf < 2 ^ 63"
  shows "parseRequest buf c = Inr (spec_parse buf c)"
  using assms by (rule parseRequest_spec)

theorem parseRequest_refines_witness:
  "parseRequest (''GET /a'' @ CRLF) HttpContext_new = Inr (spec_parse (''GET /a'' @ CRLF) HttpContext_new)"
  using parseRequest_refines [of "''GET /a'' @ CRLF" HttpContext_new] by (simp add: CRLF_def)

text \<open>
  C33: A request that was accepted is a prefix of the buffer, and nothing behind it matters.
  When \<open>parseRequest\<close> returns \<open>true\<close> with a length, the length is positive and within the
  buffer, and the same characters followed by any others (the next request of the pipeline,
  or nothing) give the same result.
\<close>

theorem parseRequest_local:
  assumes "parseRequest buf c = Inr ((True, n), c')" and "length buf < 2 ^ 31"
  shows "\<exists>k. n = int k \<and> 0 < k \<and> k \<le> length buf \<and>
    (\<forall>t. k + length t < 2 ^ 31 \<longrightarrow> parseRequest (take k buf @ t) c = Inr ((True, n), c'))"
proof -
  have "spec_parse buf c = ((True, n), c')" using assms by (simp add: parseRequest_spec)
  then obtain k where k: "n = int k" "0 < k" "k \<le> length buf"
      "\<forall>t. spec_parse (take k buf @ t) c = ((True, n), c')"
    using spec_parse_local assms(2) by blast
  then have "\<forall>t. k + length t < 2 ^ 31 \<longrightarrow> parseRequest (take k buf @ t) c = Inr ((True, n), c')"
    by (simp add: parseRequest_spec)
  then show ?thesis using k by blast
qed

definition demo_buffer :: string where
  "demo_buffer = ''GET /a'' @ CRLF @ CRLF @ ''x''"

lemma demo_buffer_parse:
  "\<exists>c. parseRequest demo_buffer HttpContext_new = Inr ((True, 10), c)"
  by (simp add: demo_buffer_def parseRequest_spec spec_parse_def CRLF_def CR_def LF_def
      spec_request_line_def spec_headers.simps to_int32_def HttpContext_new_def)

theorem parseRequest_local_witness:
  "\<exists>c k. 10 = int k \<and> 0 < k \<and> k \<le> length demo_buffer \<and>
    (\<forall>t. k + length t < 2 ^ 31 \<longrightarrow>
      parseRequest (take k demo_buffer @ t) HttpContext_new = Inr ((True, 10), c))"
proof -
  obtain c where "parseRequest demo_buffer HttpContext_new = Inr ((True, 10), c)"
    using demo_buffer_parse by blast
  moreover have "length demo_buffer < 2 ^ 31" by (simp add: demo_buffer_def CRLF_def)
  ultimately show ?thesis by (rule exI [of _ c, OF parseRequest_local])
qed

text \<open>
  C22: Requests that are written out are read back. For a method and a url without spaces,
  any headers and any body with its \<open>Content-Length\<close>, the parser accepts the rendered request,
  whatever follows it, with exactly its length, and has the method and the url.
\<close>

theorem parseRequest_roundtrip:
  assumes "token_ok m" and "token_ok u" and "LF \<notin> set ver" and "\<forall>h \<in> set hs. header_ok h"
    and "length (http_request m u ver hs body @ rest) < 2 ^ 31"
  shows "\<exists>c. parseRequest (http_request m u ver hs body @ rest) HttpContext_new =
      Inr ((True, int (length (http_request m u ver hs body))), c) \<and>
    request_method c = m \<and> request_url c = u"
  using spec_parse_render [OF assms(1-4), of body rest HttpContext_new] assms(5)
  by (simp add: parseRequest_spec HttpContext_new_def)

definition demo_headers :: "(string \<times> string) list" where
  "demo_headers = [(''Host'', '' a:80''), (''Cookie'', ''x=1'')]"

lemma to_string_nat_small: "n < 10 \<Longrightarrow> to_string_nat n = [digit_chr n]"
  by (subst to_string_nat.simps) simp

theorem parseRequest_roundtrip_witness:
  "\<exists>c. parseRequest (http_request ''POST'' ''/x'' ''HTTP/1.1'' demo_headers ''abc'' @ ''GET'') HttpContext_new =
      Inr ((True, int (length (http_request ''POST'' ''/x'' ''HTTP/1.1'' demo_headers ''abc''))), c) \<and>
    request_method c = ''POST'' \<and> request_url c = ''/x''"
  by (rule parseRequest_roundtrip)
    (simp_all add: token_ok_def LF_def header_ok_def demo_headers_def http_request_def http_head_def
      header_line_def CRLF_def to_string_nat_small)

text \<open>
  A context that is not reset mixes requests. Parsing appends to the method and the url
  that the context has: after an incomplete first attempt (the same request, its body still
  missing) the second, successful one reports the method and the url twice.
\<close>

lemma parseRequest_not_reset:
  assumes "token_ok m" and "token_ok u" and "LF \<notin> set ver" and "\<forall>h \<in> set hs. header_ok h"
    and "length (http_request m u ver hs body) < 2 ^ 31"
  shows "\<exists>n c c'. parseRequest (http_head m u ver hs) HttpContext_new = Inr ((False, n), c) \<and>
    parseRequest (http_request m u ver hs body) c =
      Inr ((True, int (length (http_request m u ver hs body))), c') \<and>
    request_method c' = m @ m \<and> request_url c' = u @ u \<and>
    request_method (HttpContext_reset c') = [] \<and> request_url (HttpContext_reset c') = []"
proof -
  let ?l = "m @ '' '' @ u @ '' '' @ ver"
  obtain k where "spec_headers 0 (concat (map header_line hs) @ []) = spec_headers k []"
    using spec_headers_lines [OF assms(4)] by blast
  then have hd: "spec_headers 0 (concat (map header_line hs)) = (k, [], False)"
    by (simp add: spec_headers.simps [of k "[]"])
  have "LF \<notin> set ?l" using assms(1-3) by (auto simp: token_ok_def LF_def)
  then have cut: "cut_line (http_head m u ver hs) = Some (?l, concat (map header_line hs))"
    using cut_line_intro [of ?l] by (simp add: http_head_def CRLF_def)
  have len: "length (http_head m u ver hs) < 2 ^ 63"
    using assms(5) by (simp add: http_request_def http_head_def)
  define c where "c = HttpContext_new\<lparr>hc_state := kExpectHeaders, request_method := m, request_url := u\<rparr>"
  have "spec_parse (http_head m u ver hs) HttpContext_new =
      ((False, to_int32 (int (length (http_head m u ver hs)) + k)), c)"
    unfolding spec_parse_def cut using spec_request_line_render [OF assms(1,2), of ver] hd
    by (simp add: c_def HttpContext_new_def)
  moreover have "spec_parse (http_request m u ver hs body) c =
      ((True, int (length (http_request m u ver hs body))),
       c\<lparr>hc_state := kExpectBody, request_method := request_method c @ m, request_url := request_url c @ u\<rparr>)"
    using spec_parse_render [OF assms(1-5), of "[]" c] by simp
  ultimately show ?thesis
    using len assms(5) by (simp add: parseRequest_spec c_def HttpContext_reset_def)
qed

lemma parseRequest_not_reset_example:
  "\<exists>n c c'. parseRequest (http_head ''POST'' ''/x'' ''HTTP/1.1'' demo_headers) HttpContext_new = Inr ((False, n), c) \<and>
    parseRequest (http_request ''POST'' ''/x'' ''HTTP/1.1'' demo_headers ''abc'') c =
      Inr ((True, int (length (http_request ''POST'' ''/x'' ''HTTP/1.1'' demo_headers ''abc''))), c') \<and>
    request_method c' = ''POST'' @ ''POST'' \<and> request_url c' = ''/x'' @ ''/x'' \<and>
    request_method (HttpContext_reset c') = [] \<and> request_url (HttpContext_reset c') = []"
  by (rule parseRequest_not_reset)
    (simp_all add: token_ok_def LF_def header_ok_def demo_headers_def http_request_def http_head_def
      header_line_def CRLF_def to_string_nat_small)

end
