(* ===== verification/Tunnel.thy ===== *)
theory Tunnel
  imports Two_Level_Cache Http_Context
begin

text \<open>
  \<open>class Tunnel\<close> of \<open>src/ProxyServer/Tunnel.h\<close>: the connection to the web server that
  belongs to one connection of a browser.

  A \<open>TcpConnectionPtr\<close> is \<open>None\<close> or the number of a connection. What the class does to muduo
  objects is the list of \<open>conn_action\<close>s that an operation returns, in order; what it asks of
  them (whether a connection is up, how many bytes its output buffer has, the bytes that
  arrived) are arguments. The \<open>Cache\<close> that the tunnel shares is passed through the handler
  that writes to it, with the environment of its Redis client.
\<close>

type_synonym conn_id = nat

datatype ServerClient = kServer | kClient

datatype conn_action =
    Set_Client_Callbacks                                 \<comment> \<open>\<open>client_\<close>: connection and message callback\<close>
  | Reset_Message_Callback                               \<comment> \<open>\<open>client_.setMessageCallback(default\<dots>)\<close>\<close>
  | Reset_Connection_Callback conn_id
  | Set_High_Water_Mark conn_id ServerClient nat
  | Set_Write_Complete conn_id "ServerClient option"
  | Set_Tcp_No_Delay conn_id
  | Set_Context conn_id "conn_id option"                 \<comment> \<open>\<open>boost::any()\<close> is \<open>None\<close>\<close>
  | Start_Read conn_id
  | Stop_Read conn_id
  | Shutdown conn_id
  | Force_Close conn_id
  | Client_Connect
  | Client_Disconnect
  | Send conn_id string
  | Send_Object conn_id nat       \<comment> \<open>\<open>send(const void*, int)\<close> with a \<open>Buffer*\<close>: that many bytes of the object\<close>
  | Retrieve nat

record Tunnel =
  tn_serverConn :: "conn_id option"
  tn_clientConn :: "conn_id option"
  tn_cacheQueue :: "(string \<times> bool) list"

definition HIGH_WATER :: nat where
  "HIGH_WATER = 1024 * 1024"

definition Tunnel_new :: "conn_id \<Rightarrow> Tunnel" where
  "Tunnel_new conn = \<lparr>tn_serverConn = Some conn, tn_clientConn = None, tn_cacheQueue = []\<rparr>"

text \<open>\<open>p->f()\<close>.\<close>

definition deref :: "'a option \<Rightarrow> ('a \<Rightarrow> 'b result) \<Rightarrow> 'b result" where
  "deref p f = (case p of None \<Rightarrow> Inl Null_Deref | Some x \<Rightarrow> f x)"

definition Tunnel_setup :: "Tunnel \<Rightarrow> conn_action list result" where
  "Tunnel_setup t = deref (tn_serverConn t) (\<lambda>s.
     Inr [Set_Client_Callbacks, Set_High_Water_Mark s kServer HIGH_WATER])"

definition Tunnel_connect :: "conn_action list" where
  "Tunnel_connect = [Client_Connect]"

definition Tunnel_disconnect :: "conn_action list" where
  "Tunnel_disconnect = [Client_Disconnect]"

definition pushCache :: "string \<Rightarrow> bool \<Rightarrow> Tunnel \<Rightarrow> Tunnel" where
  "pushCache url canCache t = t\<lparr>tn_cacheQueue := tn_cacheQueue t @ [(url, canCache)]\<rparr>"

definition popCache :: "Tunnel \<Rightarrow> Tunnel" where
  "popCache t = (if tn_cacheQueue t \<noteq> [] then t\<lparr>tn_cacheQueue := tl (tn_cacheQueue t)\<rparr> else t)"

definition teardown :: "Tunnel \<Rightarrow> (conn_action list \<times> Tunnel) result" where
  "teardown t = deref (tn_clientConn t) (\<lambda>c.
     Inr ([Reset_Connection_Callback c, Reset_Message_Callback] @
          (case tn_serverConn t of None \<Rightarrow> [] | Some s \<Rightarrow> [Set_Context s None, Shutdown s]),
          t\<lparr>tn_clientConn := None\<rparr>))"

definition onClientConnection :: "bool \<Rightarrow> conn_id \<Rightarrow> Tunnel \<Rightarrow> (conn_action list \<times> Tunnel) result" where
  "onClientConnection connected conn t =
     (if connected
      then deref (tn_serverConn t) (\<lambda>s.
        Inr ([Set_Tcp_No_Delay conn, Set_High_Water_Mark conn kClient HIGH_WATER, Set_Context s (Some conn)],
             t\<lparr>tn_clientConn := Some conn\<rparr>))
      else teardown t)"

text \<open>
  The cached text is \<open>(const char*) &*buff.begin()\<close>, which ends at the first NUL; without one
  the read runs past the end of the vector.
\<close>

definition vector_c_str :: "string \<Rightarrow> string result" where
  "vector_c_str buff = (if NUL \<in> set buff then Inr (c_str buff) else Inl Out_Of_Bounds)"

definition onClientMessage :: "'s hiredis \<Rightarrow> 64 word \<Rightarrow> string \<Rightarrow> Tunnel \<Rightarrow> Cache \<Rightarrow> 's renv
    \<Rightarrow> (conn_action list \<times> Tunnel \<times> Cache \<times> 's renv) result" where
  "onClientMessage H now buff t cache e =
     (case tn_serverConn t of
        None \<Rightarrow> Inl Abort_Call
      | Some s \<Rightarrow>
          if tn_cacheQueue t = [] then Inl Deref_End
          else let res = hd (tn_cacheQueue t)
               in if isResponseCompelete buff
                  then if snd res
                       then rbind (vector_c_str buff) (\<lambda>text.
                         rbind (Cache_writeCache H now (fst res) text cache e) (\<lambda>(cache1, e1).
                           Inr ([Send_Object s (length buff)], popCache t, cache1, e1)))
                       else Inr ([Send_Object s (length buff)], popCache t, cache, e)
                  else Inr ([], t, cache, e))"

text \<open>\<open>pending\<close> is \<open>outputBuffer()->readableBytes()\<close> of the side \<open>which\<close>.\<close>

definition onHighWaterMark :: "ServerClient \<Rightarrow> nat \<Rightarrow> Tunnel \<Rightarrow> conn_action list result" where
  "onHighWaterMark which pending t =
     (if which = kServer
      then deref (tn_serverConn t) (\<lambda>s.
        if 0 < pending
        then deref (tn_clientConn t) (\<lambda>c. Inr [Stop_Read c, Set_Write_Complete s (Some kServer)])
        else Inr [])
      else deref (tn_clientConn t) (\<lambda>c.
        if 0 < pending
        then deref (tn_serverConn t) (\<lambda>s. Inr [Stop_Read s, Set_Write_Complete c (Some kClient)])
        else Inr []))"

definition onWriteComplete :: "ServerClient \<Rightarrow> Tunnel \<Rightarrow> conn_action list result" where
  "onWriteComplete which t =
     deref (tn_clientConn t) (\<lambda>c. deref (tn_serverConn t) (\<lambda>s.
       if which = kServer then Inr [Start_Read c, Set_Write_Complete s None]
       else Inr [Start_Read s, Set_Write_Complete c None]))"

text \<open>The weak versions do nothing when the tunnel is gone.\<close>

definition onHighWaterMarkWeak :: "Tunnel option \<Rightarrow> ServerClient \<Rightarrow> nat \<Rightarrow> conn_action list result" where
  "onHighWaterMarkWeak wk which pending =
     (case wk of None \<Rightarrow> Inr [] | Some t \<Rightarrow> onHighWaterMark which pending t)"

definition onWriteCompleteWeak :: "Tunnel option \<Rightarrow> ServerClient \<Rightarrow> conn_action list result" where
  "onWriteCompleteWeak wk which =
     (case wk of None \<Rightarrow> Inr [] | Some t \<Rightarrow> onWriteComplete which t)"

section \<open>Flow control\<close>

text \<open>The part of the connections that flow control is about, and the effect of the actions.\<close>

record flow =
  fl_reading :: "conn_id \<Rightarrow> bool"
  fl_wake :: "conn_id \<Rightarrow> ServerClient option"

fun flow_action :: "conn_action \<Rightarrow> flow \<Rightarrow> flow" where
  "flow_action (Stop_Read c) f = f\<lparr>fl_reading := (fl_reading f)(c := False)\<rparr>"
| "flow_action (Start_Read c) f = f\<lparr>fl_reading := (fl_reading f)(c := True)\<rparr>"
| "flow_action (Set_Write_Complete c w) f = f\<lparr>fl_wake := (fl_wake f)(c := w)\<rparr>"
| "flow_action _ f = f"

text \<open>A connection fills up, or has written everything while a callback is installed for that.\<close>

datatype flow_event = Filled ServerClient nat | Drained ServerClient

definition flow_step :: "conn_id \<Rightarrow> conn_id \<Rightarrow> flow_event \<Rightarrow> flow \<Rightarrow> flow result" where
  "flow_step s c ev f =
     (let t = \<lparr>tn_serverConn = Some s, tn_clientConn = Some c, tn_cacheQueue = []\<rparr>
      in case ev of
           Filled which n \<Rightarrow> rbind (onHighWaterMarkWeak (Some t) which n) (\<lambda>as. Inr (fold flow_action as f))
         | Drained which \<Rightarrow>
             (case fl_wake f (if which = kServer then s else c) of
                None \<Rightarrow> Inr f
              | Some w \<Rightarrow> rbind (onWriteCompleteWeak (Some t) w) (\<lambda>as. Inr (fold flow_action as f))))"

fun flow_run :: "conn_id \<Rightarrow> conn_id \<Rightarrow> flow_event list \<Rightarrow> flow \<Rightarrow> flow result" where
  "flow_run s c [] f = Inr f"
| "flow_run s c (ev # evs) f = rbind (flow_step s c ev f) (flow_run s c evs)"

definition flow_inv :: "conn_id \<Rightarrow> conn_id \<Rightarrow> flow \<Rightarrow> bool" where
  [inv_defs]: "flow_inv s c f \<longleftrightarrow>
     fl_wake f s = (if fl_reading f c then None else Some kServer) \<and>
     fl_wake f c = (if fl_reading f s then None else Some kClient)"

lemma flow_step_inv:
  assumes "s \<noteq> c" and "flow_inv s c f"
  shows "\<exists>f'. flow_step s c ev f = Inr f' \<and> flow_inv s c f'"
  using assms
  by (cases ev) (auto simp: flow_step_def Let_def onHighWaterMarkWeak_def onWriteCompleteWeak_def
      onHighWaterMark_def onWriteComplete_def deref_def flow_inv_def split: option.splits if_splits)

lemma flow_run_inv:
  "s \<noteq> c \<Longrightarrow> flow_inv s c f \<Longrightarrow> \<exists>f'. flow_run s c evs f = Inr f' \<and> flow_inv s c f'"
proof (induction evs arbitrary: f)
  case (Cons ev evs)
  then show ?case using flow_step_inv [of s c f ev] by fastforce
qed simp

section \<open>Requests and responses\<close>

text \<open>The worker queues the url of a request that it sends; the web server sends bytes.\<close>

datatype tunnel_event = Requested string bool | Answered string "64 word"

fun tunnel_run :: "'s hiredis \<Rightarrow> tunnel_event list \<Rightarrow> Tunnel \<Rightarrow> Cache \<Rightarrow> 's renv
    \<Rightarrow> (conn_action list \<times> Tunnel \<times> Cache \<times> 's renv) result" where
  "tunnel_run H [] t cache e = Inr ([], t, cache, e)"
| "tunnel_run H (Requested url canCache # evs) t cache e = tunnel_run H evs (pushCache url canCache t) cache e"
| "tunnel_run H (Answered buff now # evs) t cache e =
     rbind (onClientMessage H now buff t cache e) (\<lambda>(as, t1, cache1, e1).
       rbind (tunnel_run H evs t1 cache1 e1) (\<lambda>(as', t2, cache2, e2). Inr (as @ as', t2, cache2, e2)))"

fun requests :: "tunnel_event list \<Rightarrow> (string \<times> bool) list" where
  "requests [] = []"
| "requests (Requested url canCache # evs) = (url, canCache) # requests evs"
| "requests (Answered buff now # evs) = requests evs"

lemma onClientMessage_holds_back:
  "onClientMessage H now buff t cache e =
    (if tn_serverConn t = None then Inl Abort_Call
     else if tn_cacheQueue t = [] then Inl Deref_End
     else Inr ([], t, cache, e))"
  by (simp add: onClientMessage_def isResponseCompelete_def split: option.split)

lemma tunnel_run_held_back:
  "tn_serverConn t \<noteq> None \<Longrightarrow> tn_cacheQueue t \<noteq> [] \<Longrightarrow>
    tunnel_run H evs t cache e = Inr ([], t\<lparr>tn_cacheQueue := tn_cacheQueue t @ requests evs\<rparr>, cache, e)"
proof (induction evs arbitrary: t)
  case (Cons ev evs)
  then show ?case by (cases ev) (simp_all add: onClientMessage_holds_back pushCache_def)
qed simp

section \<open>Properties\<close>

text \<open>
  C39: The tunnel does not answer. After a request was queued, in any sequence of further
  requests and of responses from the web server nothing is passed on to the browser and
  nothing is written to the cache, since a response never counts as complete: no entry leaves
  the queue, which ends with all requests in order. A response before the first request reads
  the front of an empty queue.
\<close>

theorem tunnel_never_answers:
  assumes "tn_serverConn t = Some s" and "tn_cacheQueue t = []"
  shows "tunnel_run H (Requested url canCache # evs) t cache e =
      Inr ([], t\<lparr>tn_cacheQueue := (url, canCache) # requests evs\<rparr>, cache, e) \<and>
    tunnel_run H (Answered buff now # evs) t cache e = Inl Deref_End"
  using assms tunnel_run_held_back [of "pushCache url canCache t" H evs cache e]
  by (simp add: pushCache_def onClientMessage_holds_back)

theorem tunnel_never_answers_witness:
  "tunnel_run demo_redis [Requested ''/x'' True, Answered ''HTTP/1.1 200 OK'' 3, Requested ''/y'' False]
      (Tunnel_new 4) demo_cache demo_env =
    Inr ([], (Tunnel_new 4)\<lparr>tn_cacheQueue := [(''/x'', True), (''/y'', False)]\<rparr>, demo_cache, demo_env)"
  using tunnel_never_answers [of "Tunnel_new 4" 4 demo_redis "''/x''" True
      "[Answered ''HTTP/1.1 200 OK'' 3, Requested ''/y'' False]" demo_cache demo_env]
  by (simp add: Tunnel_new_def)

text \<open>
  C26: A side that was stopped is woken up. In every sequence of high-water and write-complete
  events of an open tunnel no pointer is null, and reading from one side is off exactly while
  the write-complete callback that turns it on again is installed on the other; so after both
  sides have drained, both are being read.
\<close>

theorem tunnel_flow_control:
  assumes "s \<noteq> c" and "flow_inv s c f"
  shows "\<exists>f' f''. flow_run s c evs f = Inr f' \<and> flow_inv s c f' \<and>
    flow_run s c [Drained kServer, Drained kClient] f' = Inr f'' \<and>
    fl_reading f'' s \<and> fl_reading f'' c \<and> fl_wake f'' s = None \<and> fl_wake f'' c = None"
proof -
  obtain f' where f': "flow_run s c evs f = Inr f'" "flow_inv s c f'"
    using flow_run_inv [OF assms] by blast
  have "\<exists>f''. flow_run s c [Drained kServer, Drained kClient] f' = Inr f'' \<and>
      fl_reading f'' s \<and> fl_reading f'' c \<and> fl_wake f'' s = None \<and> fl_wake f'' c = None"
    using f'(2) assms(1)
    by (cases "fl_reading f' s"; cases "fl_reading f' c")
      (simp_all add: flow_step_def onWriteCompleteWeak_def onWriteComplete_def deref_def flow_inv_def)
  then show ?thesis using f' by blast
qed

theorem tunnel_flow_control_witness:
  "\<exists>f' f''. flow_run 1 2 [Filled kServer 5, Filled kClient 7, Drained kClient]
      \<lparr>fl_reading = (\<lambda>_. True), fl_wake = (\<lambda>_. None)\<rparr> = Inr f' \<and> flow_inv 1 2 f' \<and>
    flow_run 1 2 [Drained kServer, Drained kClient] f' = Inr f'' \<and>
    fl_reading f'' 1 \<and> fl_reading f'' 2 \<and> fl_wake f'' 1 = None \<and> fl_wake f'' 2 = None"
  by (rule tunnel_flow_control) (simp_all add: flow_inv_def)

end
