(* ===== verification/Circle_Queue.thy ===== *)
theory Circle_Queue
  imports Prelude "HOL-Library.Product_Lexorder"
begin

text \<open>
  The task queue of the thread pool: \<open>CircleQueue<T>\<close> (\<open>src/ThreadPool/CircleQueue.h\<close>,
  \<open>CircleQueue.cpp\<close>), \<open>Producer<T>\<close> (\<open>Producer.h\<close>) and \<open>Consumer<T>\<close> (\<open>Consumer.h\<close>).
  Producers and consumers do not pass single tasks: a producer asks the queue for a block
  of \<open>try_size\<close> slots, fills it without the lock, and hands the filled block over with its
  next request; a consumer takes a whole published block and reads it without the lock.

  \<open>long\<close> is \<open>int\<close> with the wrap-around of the additions written out; in a comparison or a
  bit operation with a \<open>size_t\<close> it is converted modulo \<open>2^64\<close>. The vector is a function on
  slot numbers, since every access is reduced modulo \<open>size\<close>. \<open>std::set<pair<long, long>>\<close>
  is its sorted list of elements. The blocks of code under \<open>mx\<close> are atomic.
\<close>

unbundle bit_operations_syntax

section \<open>The queue\<close>

record 'a CircleQueue =
  cq_size :: int
  circle_array :: "nat \<Rightarrow> 'a"
  readable_queue :: "(int \<times> int) list"
  try_size :: int
  cq_writeId :: int

definition CircleQueue_new :: "'a \<Rightarrow> 'a CircleQueue" where
  "CircleQueue_new T = \<lparr>cq_size = 1024 * 1024 * 16, circle_array = (\<lambda>_. T), readable_queue = [],
     try_size = 1024, cq_writeId = 0\<rparr>"

definition tryReadSpace :: "'a CircleQueue \<Rightarrow> (int \<times> int) \<times> 'a CircleQueue" where
  "tryReadSpace q =
     (case readable_queue q of
        [] \<Rightarrow> ((-1, -1), q)
      | r # rs \<Rightarrow> (r, q\<lparr>readable_queue := rs\<rparr>))"

text \<open>
  The third test of \<open>tryWriteSpace\<close>, as C++ parses it: \<open><\<close> binds tighter than \<open>&\<close>, so
  \<open>writable_id & (size - 1) < first & (size - 1)\<close> is
  \<open>(writable_id & ((size - 1) < first)) & (size - 1)\<close>.
\<close>

definition ring_test :: "int \<Rightarrow> int \<Rightarrow> int \<Rightarrow> bool" where
  "ring_test writable_id sz first \<longleftrightarrow>
     (to_size_t (writable_id AND of_bool (to_size_t (sz - 1) < to_size_t first)) AND
      to_size_t (sz - 1)) \<noteq> 0"

definition tryWriteSpace :: "int \<Rightarrow> int \<Rightarrow> 'a CircleQueue \<Rightarrow> (int \<times> int) \<times> 'a CircleQueue" where
  "tryWriteSpace hasWriteStart hasWriteEnd q =
     (let rq = (if hasWriteEnd \<noteq> 0
                then insort_insert (hasWriteStart, hasWriteEnd) (readable_queue q)
                else readable_queue q);
          writable_id = to_long (cq_writeId q + try_size q)
      in if rq = [] \<or> to_size_t writable_id < cq_size q \<or>
            ring_test writable_id (cq_size q) (fst (hd rq))
         then ((cq_writeId q, writable_id), q\<lparr>readable_queue := rq, cq_writeId := writable_id\<rparr>)
         else ((-1, -1), q\<lparr>readable_queue := rq\<rparr>))"

text \<open>\<open>None\<close>: the caller waits on the condition variable.\<close>

definition tryReadSpaceByCV :: "'a CircleQueue \<Rightarrow> ((int \<times> int) \<times> 'a CircleQueue) option" where
  "tryReadSpaceByCV q =
     (case readable_queue q of
        [] \<Rightarrow> None
      | r # rs \<Rightarrow> Some (r, q\<lparr>readable_queue := rs\<rparr>))"

definition slot :: "'a CircleQueue \<Rightarrow> int \<Rightarrow> nat" where
  "slot q index = nat (to_size_t index mod cq_size q)"

definition cq_read :: "'a CircleQueue \<Rightarrow> int \<Rightarrow> 'a" where
  "cq_read q index = circle_array q (slot q index)"

definition cq_write :: "int \<Rightarrow> 'a \<Rightarrow> 'a CircleQueue \<Rightarrow> 'a CircleQueue" where
  "cq_write index obj q = q\<lparr>circle_array := (circle_array q)(slot q index := obj)\<rparr>"

section \<open>Producer and consumer\<close>

record Producer =
  p_writeId :: int
  p_curWriteId :: int
  p_writableId :: int

definition Producer_new :: Producer where
  "Producer_new = \<lparr>p_writeId = 0, p_curWriteId = 0, p_writableId = 0\<rparr>"

text \<open>The two halves of \<open>Producer::write\<close>: getting space, and storing without the lock.\<close>

definition Producer_acquire :: "Producer \<Rightarrow> 'a CircleQueue \<Rightarrow> bool \<times> Producer \<times> 'a CircleQueue" where
  "Producer_acquire p q =
     (let (space, q') = tryWriteSpace (p_writeId p) (p_writableId p) q
      in if fst space \<noteq> -1
         then (True, \<lparr>p_writeId = fst space, p_curWriteId = fst space, p_writableId = snd space\<rparr>, q')
         else (False, p, q'))"

definition Producer_store :: "'a \<Rightarrow> Producer \<Rightarrow> 'a CircleQueue \<Rightarrow> Producer \<times> 'a CircleQueue" where
  "Producer_store obj p q =
     (p\<lparr>p_curWriteId := to_long (p_curWriteId p + 1)\<rparr>, cq_write (p_curWriteId p) obj q)"

definition Producer_write :: "'a \<Rightarrow> Producer \<Rightarrow> 'a CircleQueue \<Rightarrow> bool \<times> Producer \<times> 'a CircleQueue" where
  "Producer_write obj p q =
     (if p_writableId p \<le> p_curWriteId p
      then (let (ok, p', q') = Producer_acquire p q
            in if ok then (True, Producer_store obj p' q') else (False, p', q'))
      else (True, Producer_store obj p q))"

record Consumer =
  c_readId :: int
  c_readableId :: int

definition Consumer_new :: Consumer where
  "Consumer_new = \<lparr>c_readId = 0, c_readableId = 0\<rparr>"

text \<open>
  \<open>Consumer::read\<close>: \<open>None\<close> while it waits; otherwise the pair that it returns. The default
  object \<open>T()\<close> is an argument.
\<close>

definition Consumer_fetch :: "Consumer \<Rightarrow> 'a CircleQueue \<Rightarrow> ('a \<times> bool) \<times> Consumer \<times> 'a CircleQueue" where
  "Consumer_fetch c q =
     ((cq_read q (c_readId c), True), c\<lparr>c_readId := to_long (c_readId c + 1)\<rparr>, q)"

definition Consumer_read :: "'a \<Rightarrow> Consumer \<Rightarrow> 'a CircleQueue
    \<Rightarrow> (('a \<times> bool) \<times> Consumer \<times> 'a CircleQueue) option" where
  "Consumer_read T c q =
     (if c_readableId c \<le> c_readId c
      then (case tryReadSpaceByCV q of
              None \<Rightarrow> None
            | Some (space, q') \<Rightarrow>
                Some (if fst space \<noteq> -1
                      then Consumer_fetch \<lparr>c_readId = fst space, c_readableId = snd space\<rparr> q'
                      else ((T, False), c, q')))
      else Some (Consumer_fetch c q))"

section \<open>The slots as an array\<close>

text \<open>
  What producers and consumers rely on for their unlocked accesses: two different numbers
  of one lap are two different slots.
\<close>

locale slot_array =
  fixes rd :: "'q \<Rightarrow> int \<Rightarrow> 'a"
    and wr :: "int \<Rightarrow> 'a \<Rightarrow> 'q \<Rightarrow> 'q"
    and lap :: "'q \<Rightarrow> int set"
  assumes lap_wr: "lap (wr i x q) = lap q"
    and rd_wr_same: "rd (wr i x q) i = x"
    and rd_wr_other: "i \<in> lap q \<Longrightarrow> j \<in> lap q \<Longrightarrow> i \<noteq> j \<Longrightarrow> rd (wr i x q) j = rd q j"
begin

text \<open>Writing a run of slots and reading it back.\<close>

fun wr_run :: "int \<Rightarrow> 'a list \<Rightarrow> 'q \<Rightarrow> 'q" where
  "wr_run i [] q = q"
| "wr_run i (x # xs) q = wr_run (i + 1) xs (wr i x q)"

lemma lap_wr_run [simp]: "lap (wr_run i xs q) = lap q"
  by (induction i xs q rule: wr_run.induct) (auto simp: lap_wr)

lemma rd_wr_run_outside:
  "{i ..< i + int (length xs)} \<subseteq> lap q \<Longrightarrow> j \<in> lap q \<Longrightarrow> j \<notin> {i ..< i + int (length xs)} \<Longrightarrow>
   rd (wr_run i xs q) j = rd q j"
proof (induction i xs q rule: wr_run.induct)
  case (1 i q)
  then show ?case by simp
next
  case (2 i x xs q)
  have "rd (wr_run (i + 1) xs (wr i x q)) j = rd (wr i x q) j"
    using "2.prems" by (intro "2.IH") (auto simp: lap_wr)
  also have "\<dots> = rd q j"
    using "2.prems" by (intro rd_wr_other) auto
  finally show ?case by simp
qed

lemma rd_wr_run:
  "{i ..< i + int (length xs)} \<subseteq> lap q \<Longrightarrow> k < length xs \<Longrightarrow> rd (wr_run i xs q) (i + int k) = xs ! k"
proof (induction i xs q arbitrary: k rule: wr_run.induct)
  case (1 i q)
  then show ?case by simp
next
  case (2 i x xs q)
  have sub: "{i + 1 ..< i + 1 + int (length xs)} \<subseteq> lap (wr i x q)"
    using "2.prems"(1) by (auto simp: lap_wr)
  show ?case
  proof (cases k)
    case 0
    have "i \<in> lap q" using "2.prems"(1) by auto
    then have "rd (wr_run (i + 1) xs (wr i x q)) i = rd (wr i x q) i"
      using sub by (intro rd_wr_run_outside) (auto simp: lap_wr)
    with 0 show ?thesis by (simp add: rd_wr_same)
  next
    case (Suc m)
    with "2.prems"(2) "2.IH" [OF sub, of m] show ?thesis by (simp add: algebra_simps)
  qed
qed

end

definition cq_lap :: "'a CircleQueue \<Rightarrow> int set" where
  "cq_lap q = {0 ..< min (cq_size q) (2 ^ 64)}"

lemma slot_lap: "i \<in> cq_lap q \<Longrightarrow> slot q i = nat i"
  by (simp add: slot_def cq_lap_def to_size_t_def)

lemma slot_write [simp]: "slot (cq_write i x q) = slot q"
  by (simp add: fun_eq_iff slot_def cq_write_def)

interpretation cq: slot_array cq_read cq_write cq_lap
proof
  fix i j x and q :: "'a CircleQueue"
  show "cq_lap (cq_write i x q) = cq_lap q"
    by (simp add: cq_lap_def cq_write_def)
  show "cq_read (cq_write i x q) i = x"
    by (simp add: cq_read_def) (simp add: cq_write_def)
  assume "i \<in> cq_lap q" and "j \<in> cq_lap q" and "i \<noteq> j"
  then have "slot q i \<noteq> slot q j"
    by (simp add: slot_lap) (auto simp: cq_lap_def)
  then show "cq_read (cq_write i x q) j = cq_read q j"
    by (simp add: cq_read_def) (simp add: cq_write_def)
qed

section \<open>Block alignment\<close>

text \<open>
  The constants the constructor sets, and the position of the next block: a multiple of
  \<open>try_size\<close>, far from the end of \<open>long\<close>.
\<close>

definition cq_ok :: "'a CircleQueue \<Rightarrow> bool" where
  [inv_defs]: "cq_ok q \<longleftrightarrow> cq_size q = 2 ^ 24 \<and> try_size q = 1024 \<and>
     0 \<le> cq_writeId q \<and> cq_writeId q < 2 ^ 63 - 1024 \<and> cq_writeId q mod 1024 = 0"

lemma CircleQueue_new_ok: "cq_ok (CircleQueue_new T)"
  by (simp add: cq_ok_def CircleQueue_new_def)

text \<open>The misparsed ring test never holds for an even \<open>writable_id\<close>.\<close>

lemma ring_test_even:
  assumes "even w"
  shows "\<not> ring_test w sz first"
proof -
  have "w AND of_bool b = 0" for b
    using assms by (cases b) (simp_all add: and_one_eq)
  then show ?thesis by (simp add: ring_test_def to_size_t_def)
qed

definition published :: "int \<Rightarrow> int \<Rightarrow> 'a CircleQueue \<Rightarrow> (int \<times> int) list" where
  "published st en q = (if en \<noteq> 0 then insort_insert (st, en) (readable_queue q) else readable_queue q)"

lemma tryWriteSpace_ok:
  assumes "cq_ok q"
  shows "tryWriteSpace st en q =
    (let rq = published st en q; w = cq_writeId q
     in if rq = [] \<or> w + 1024 < 2 ^ 24
        then ((w, w + 1024), q\<lparr>readable_queue := rq, cq_writeId := w + 1024\<rparr>)
        else ((-1, -1), q\<lparr>readable_queue := rq\<rparr>))"
proof -
  have q: "cq_size q = 2 ^ 24" "try_size q = 1024" "0 \<le> cq_writeId q" "cq_writeId q + 1024 < 2 ^ 63"
    and "cq_writeId q mod 1024 = 0"
    using assms by (simp_all add: cq_ok_def)
  have long: "to_long (cq_writeId q + 1024) = cq_writeId q + 1024"
    using q by (intro to_long_id) simp_all
  have size: "to_size_t (cq_writeId q + 1024) = cq_writeId q + 1024"
    using q by (intro to_size_t_id) simp_all
  have "1024 dvd cq_writeId q"
    using \<open>cq_writeId q mod 1024 = 0\<close> by (simp add: dvd_eq_mod_eq_0)
  then have "even (cq_writeId q)"
    by (rule dvd_trans [rotated]) simp
  then have "even (cq_writeId q + 1024)" by simp
  note test = ring_test_even [OF this]
  show ?thesis
    unfolding tryWriteSpace_def published_def [symmetric] q(1,2) Let_def long size
    using test by simp
qed

lemma published_mem: "set (published st en q) = (if en \<noteq> 0 then {(st, en)} else {}) \<union> set (readable_queue q)"
  by (simp add: published_def set_insort_insert)

section \<open>Sequences of calls\<close>

fun Producer_writes :: "'a list \<Rightarrow> Producer \<Rightarrow> 'a CircleQueue \<Rightarrow> bool list \<times> Producer \<times> 'a CircleQueue" where
  "Producer_writes [] p q = ([], p, q)"
| "Producer_writes (x # xs) p q =
     (let (ok, p', q') = Producer_write x p q; (oks, r) = Producer_writes xs p' q' in (ok # oks, r))"

fun Consumer_reads :: "nat \<Rightarrow> 'a \<Rightarrow> Consumer \<Rightarrow> 'a CircleQueue
    \<Rightarrow> ('a list \<times> Consumer \<times> 'a CircleQueue) option" where
  "Consumer_reads 0 T c q = Some ([], c, q)"
| "Consumer_reads (Suc n) T c q =
     (case Consumer_read T c q of
        None \<Rightarrow> None
      | Some ((x, b), c', q') \<Rightarrow>
          (case Consumer_reads n T c' q' of None \<Rightarrow> None | Some (xs, r) \<Rightarrow> Some (x # xs, r)))"

text \<open>Inside a block a producer only stores, and a consumer only reads.\<close>

lemma Producer_writes_block:
  "p_curWriteId p + int (length xs) \<le> p_writableId p \<Longrightarrow> 0 \<le> p_curWriteId p \<Longrightarrow>
   p_writableId p < 2 ^ 63 \<Longrightarrow>
   Producer_writes xs p q =
     (replicate (length xs) True, p\<lparr>p_curWriteId := p_curWriteId p + int (length xs)\<rparr>,
      cq.wr_run (p_curWriteId p) xs q)"
proof (induction xs arbitrary: p q)
  case Nil
  then show ?case by simp
next
  case (Cons x xs)
  have inc: "to_long (p_curWriteId p + 1) = p_curWriteId p + 1"
    using Cons.prems by (intro to_long_id) auto
  have step: "Producer_write x p q =
      (True, p\<lparr>p_curWriteId := p_curWriteId p + 1\<rparr>, cq_write (p_curWriteId p) x q)"
    using Cons.prems(1) inc by (simp add: Producer_write_def Producer_store_def)
  have "Producer_writes xs (p\<lparr>p_curWriteId := p_curWriteId p + 1\<rparr>) (cq_write (p_curWriteId p) x q) =
      (replicate (length xs) True, p\<lparr>p_curWriteId := p_curWriteId p + 1 + int (length xs)\<rparr>,
       cq.wr_run (p_curWriteId p + 1) xs (cq_write (p_curWriteId p) x q))"
    using Cons.prems by (subst Cons.IH) simp_all
  with step show ?case by (simp add: algebra_simps)
qed

lemma Consumer_reads_block:
  "c_readId c + int n \<le> c_readableId c \<Longrightarrow> 0 \<le> c_readId c \<Longrightarrow> c_readableId c < 2 ^ 63 \<Longrightarrow>
   Consumer_reads n T c q =
     Some (map (\<lambda>k. cq_read q (c_readId c + int k)) [0..<n], c\<lparr>c_readId := c_readId c + int n\<rparr>, q)"
proof (induction n arbitrary: c)
  case 0
  then show ?case by simp
next
  case (Suc n)
  have inc: "to_long (c_readId c + 1) = c_readId c + 1"
    using Suc.prems by (intro to_long_id) auto
  have step: "Consumer_read T c q =
      Some ((cq_read q (c_readId c), True), c\<lparr>c_readId := c_readId c + 1\<rparr>, q)"
    using Suc.prems(1) inc by (simp add: Consumer_read_def Consumer_fetch_def)
  have "Consumer_reads n T (c\<lparr>c_readId := c_readId c + 1\<rparr>) q =
      Some (map (\<lambda>k. cq_read q (c_readId c + 1 + int k)) [0..<n],
        c\<lparr>c_readId := c_readId c + 1 + int n\<rparr>, q)"
    using Suc.prems by (subst Suc.IH) simp_all
  moreover have "map (\<lambda>k. cq_read q (c_readId c + int k)) [0..<Suc n] =
      cq_read q (c_readId c) # map (\<lambda>k. cq_read q (c_readId c + 1 + int k)) [0..<n]"
    by (simp add: upt_conv_Cons map_Suc_upt [symmetric] o_def algebra_simps del: upt_Suc)
  ultimately show ?case using step by (simp add: algebra_simps)
qed

lemma Producer_writes_append:
  "Producer_writes (xs @ ys) p q =
     (let (oks, p', q') = Producer_writes xs p q; (oks', r) = Producer_writes ys p' q'
      in (oks @ oks', r))"
  by (induction xs arbitrary: p q) (auto simp: split_beta Let_def)

text \<open>Asking for space first does not change what the calls do.\<close>

lemma Producer_writes_acquire:
  assumes "p_writableId p \<le> p_curWriteId p" and "Producer_acquire p q = (True, p', q')"
    and "p_curWriteId p' < p_writableId p'" and "xs \<noteq> []"
  shows "Producer_writes xs p q = Producer_writes xs p' q'"
  using assms by (cases xs) (auto simp: Producer_write_def)

lemma Consumer_reads_acquire:
  assumes "c_readableId c \<le> c_readId c" and "tryReadSpaceByCV q = Some ((st, en), q')"
    and "st \<noteq> -1" and "st < en" and "0 < n"
  shows "Consumer_reads n T c q = Consumer_reads n T \<lparr>c_readId = st, c_readableId = en\<rparr> q'"
  using assms by (cases n) (auto simp: Consumer_read_def)

lemma wr_run_fields [simp]:
  "cq_size (cq.wr_run i xs q) = cq_size q" "readable_queue (cq.wr_run i xs q) = readable_queue q"
  "try_size (cq.wr_run i xs q) = try_size q" "cq_writeId (cq.wr_run i xs q) = cq_writeId q"
  by (induction i xs q rule: cq.wr_run.induct) (simp_all add: cq_write_def)

lemma cq_read_frame [simp]:
  "cq_read (q\<lparr>readable_queue := r\<rparr>) = cq_read q" "cq_read (q\<lparr>cq_writeId := w\<rparr>) = cq_read q"
  by (simp_all add: fun_eq_iff cq_read_def slot_def)

lemma cq_write_fields [simp]:
  "cq_size (cq_write i x q) = cq_size q" "readable_queue (cq_write i x q) = readable_queue q"
  "try_size (cq_write i x q) = try_size q" "cq_writeId (cq_write i x q) = cq_writeId q"
  by (simp_all add: cq_write_def)

lemma Producer_acquire_grant:
  assumes "cq_ok q" and "published (p_writeId p) (p_writableId p) q = [] \<or> cq_writeId q + 1024 < 2 ^ 24"
  shows "Producer_acquire p q =
    (True, \<lparr>p_writeId = cq_writeId q, p_curWriteId = cq_writeId q, p_writableId = cq_writeId q + 1024\<rparr>,
     q\<lparr>readable_queue := published (p_writeId p) (p_writableId p) q, cq_writeId := cq_writeId q + 1024\<rparr>)"
  using assms by (simp add: Producer_acquire_def tryWriteSpace_ok Let_def) (simp add: cq_ok_def)

lemma Producer_acquire_refuse:
  assumes "cq_ok q" and "p_writableId p \<noteq> 0" and "2 ^ 24 \<le> cq_writeId q + 1024"
  shows "Producer_acquire p q =
    (False, p, q\<lparr>readable_queue := insort_insert (p_writeId p, p_writableId p) (readable_queue q)\<rparr>)"
proof -
  have "published (p_writeId p) (p_writableId p) q \<noteq> []"
    using assms(2) published_mem [of "p_writeId p" "p_writableId p" q] by auto
  with assms show ?thesis
    by (simp add: Producer_acquire_def tryWriteSpace_ok Let_def) (simp add: published_def)
qed

text \<open>A fresh producer on a queue with nothing published: its first block.\<close>

lemma fresh_producer_block:
  assumes "cq_ok q" and "readable_queue q = []" and "xs \<noteq> []" and "length xs \<le> 1024"
  shows "Producer_writes xs Producer_new q =
    (replicate (length xs) True,
     \<lparr>p_writeId = cq_writeId q, p_curWriteId = cq_writeId q + int (length xs),
      p_writableId = cq_writeId q + 1024\<rparr>,
     cq.wr_run (cq_writeId q) xs (q\<lparr>cq_writeId := cq_writeId q + 1024\<rparr>))"
proof -
  let ?w = "cq_writeId q"
  let ?p = "\<lparr>p_writeId = ?w, p_curWriteId = ?w, p_writableId = ?w + 1024\<rparr>"
  let ?q = "q\<lparr>readable_queue := [], cq_writeId := ?w + 1024\<rparr>"
  have "published (p_writeId Producer_new) (p_writableId Producer_new) q = []"
    using assms(2) by (simp add: Producer_new_def published_def)
  then have "Producer_acquire Producer_new q = (True, ?p, ?q)"
    using Producer_acquire_grant [OF assms(1)] by simp
  then have "Producer_writes xs Producer_new q = Producer_writes xs ?p ?q"
    using assms(3) by (intro Producer_writes_acquire) (simp_all add: Producer_new_def)
  also have "\<dots> = (replicate (length xs) True, ?p\<lparr>p_curWriteId := ?w + int (length xs)\<rparr>,
      cq.wr_run ?w xs ?q)"
    using assms(1,4) by (subst Producer_writes_block) (simp_all add: cq_ok_def)
  also have "?q = q\<lparr>cq_writeId := ?w + 1024\<rparr>"
    using assms(2) by (cases q) simp
  finally show ?thesis by simp
qed

text \<open>The write after a full block publishes it.\<close>

lemma publish_block:
  assumes "cq_ok q" and "readable_queue q = []" and "cq_writeId q + 2048 < 2 ^ 24"
    and "length xs = 1024" and w: "w = cq_writeId q"
    and q2: "q2 = (cq.wr_run w xs (q\<lparr>cq_writeId := w + 1024\<rparr>))
      \<lparr>readable_queue := [(w, w + 1024)], cq_writeId := w + 2048\<rparr>"
  shows "Producer_writes (xs @ [y]) Producer_new q =
    (replicate 1025 True,
     \<lparr>p_writeId = w + 1024, p_curWriteId = w + 1025, p_writableId = w + 2048\<rparr>,
     cq_write (w + 1024) y q2)"
proof -
  have w0: "0 \<le> w" using assms(1) by (simp add: cq_ok_def w)
  let ?q1 = "cq.wr_run w xs (q\<lparr>cq_writeId := w + 1024\<rparr>)"
  let ?p1 = "\<lparr>p_writeId = w, p_curWriteId = w + 1024, p_writableId = w + 1024\<rparr>"
  let ?p2 = "\<lparr>p_writeId = w + 1024, p_curWriteId = w + 1024, p_writableId = w + 2048\<rparr>"
  have "xs \<noteq> []" using assms(4) by auto
  then have first: "Producer_writes xs Producer_new q = (replicate 1024 True, ?p1, ?q1)"
    using fresh_producer_block [OF assms(1,2), of xs] assms(4) w by simp
  have ok1: "cq_ok ?q1"
    using assms(1,3) w by (simp add: cq_ok_def)
  have pub: "published w (w + 1024) ?q1 = [(w, w + 1024)]"
    using w0 assms(2) by (simp add: published_def insort_insert_key_def)
  have "Producer_acquire ?p1 ?q1 = (True, ?p2, q2)"
    using Producer_acquire_grant [OF ok1, of ?p1] pub assms(3) w by (simp add: q2)
  then have last: "Producer_writes [y] ?p1 ?q1 =
      ([True], ?p2\<lparr>p_curWriteId := w + 1025\<rparr>, cq_write (w + 1024) y q2)"
    using w0 assms(3) w by (simp add: Producer_write_def Producer_store_def to_long_id)
  have "replicate 1024 True @ [True] = replicate (Suc 1024) True"
    by (simp only: replicate_append_same replicate_Suc)
  then show ?thesis
    using first last by (simp add: Producer_writes_append)
qed

text \<open>A consumer that waits gets the published block, slot by slot.\<close>

lemma consume_block:
  assumes "readable_queue q = (w, w + 1024) # rs" and "0 \<le> w" and "w + 1024 < 2 ^ 63"
    and "length xs = 1024" and "\<And>k. k < 1024 \<Longrightarrow> cq_read q (w + int k) = xs ! k"
  shows "Consumer_reads 1024 T Consumer_new q =
    Some (xs, \<lparr>c_readId = w + 1024, c_readableId = w + 1024\<rparr>, q\<lparr>readable_queue := rs\<rparr>)"
proof -
  let ?q = "q\<lparr>readable_queue := rs\<rparr>" and ?c = "\<lparr>c_readId = w, c_readableId = w + 1024\<rparr>"
  have "tryReadSpaceByCV q = Some ((w, w + 1024), ?q)"
    using assms(1) by (simp add: tryReadSpaceByCV_def)
  then have "Consumer_reads 1024 T Consumer_new q = Consumer_reads 1024 T ?c ?q"
    using assms(2) by (intro Consumer_reads_acquire) (simp_all add: Consumer_new_def)
  also have "\<dots> = Some (map (\<lambda>k. cq_read ?q (w + int k)) [0..<1024], ?c\<lparr>c_readId := w + 1024\<rparr>, ?q)"
    using assms(2,3) by (subst Consumer_reads_block) simp_all
  also have "map (\<lambda>k. cq_read ?q (w + int k)) [0..<1024] = xs"
    by (rule nth_equalityI) (simp_all add: assms(4,5))
  finally show ?thesis by simp
qed

section \<open>Properties\<close>

text \<open>
  C25: A block of tasks survives the ring. A producer that writes \<open>try_size\<close> tasks and one
  more hands its first block over (each call returns \<open>true\<close>), and a consumer that then
  reads \<open>try_size\<close> times gets exactly these tasks, in the order in which they were written.
\<close>

theorem block_roundtrip:
  assumes "cq_ok q" and "readable_queue q = []" and "cq_writeId q + 2048 < 2 ^ 24"
    and "length xs = 1024"
  shows "\<exists>p q' c q''. Producer_writes (xs @ [y]) Producer_new q = (replicate 1025 True, p, q') \<and>
    Consumer_reads 1024 T Consumer_new q' = Some (xs, c, q'')"
proof -
  let ?w = "cq_writeId q"
  have w: "0 \<le> ?w" using assms(1) by (simp add: cq_ok_def)
  let ?q1 = "q\<lparr>cq_writeId := ?w + 1024\<rparr>"
  let ?q2 = "(cq.wr_run ?w xs ?q1)\<lparr>readable_queue := [(?w, ?w + 1024)], cq_writeId := ?w + 2048\<rparr>"
  let ?q3 = "cq_write (?w + 1024) y ?q2"
  have lap: "cq_lap ?q2 = {0 ..< 2 ^ 24}" "cq_lap ?q1 = {0 ..< 2 ^ 24}"
    using assms(1) by (simp_all add: cq_lap_def cq_ok_def)
  have read: "cq_read ?q3 (?w + int k) = xs ! k" if "k < 1024" for k
  proof -
    have "cq_read ?q3 (?w + int k) = cq_read ?q2 (?w + int k)"
      using that w assms(3) lap(1) by (intro cq.rd_wr_other) auto
    also have "\<dots> = xs ! k"
      using that w assms(3,4) lap(2) by (simp add: cq.rd_wr_run)
    finally show ?thesis .
  qed
  have "Consumer_reads 1024 T Consumer_new ?q3 =
      Some (xs, \<lparr>c_readId = ?w + 1024, c_readableId = ?w + 1024\<rparr>, ?q3\<lparr>readable_queue := []\<rparr>)"
    using w assms(3,4) read by (intro consume_block) simp_all
  then show ?thesis
    using publish_block [OF assms refl refl, of y] by blast
qed

theorem block_roundtrip_witness:
  "\<exists>p q' c q''. Producer_writes (map int [0..<1024] @ [7]) Producer_new (CircleQueue_new 0) =
      (replicate 1025 True, p, q') \<and>
    Consumer_reads 1024 0 Consumer_new q' = Some (map int [0..<1024], c, q'')"
  using block_roundtrip [OF CircleQueue_new_ok, of 0 "map int [0..<1024]" 7 0]
  by (simp add: CircleQueue_new_def del: upt_rec_numeral)

text \<open>
  Tasks wait for a full block. As long as a new producer has written no more than
  \<open>try_size\<close> (1024) tasks to a queue on which nothing is published, every write returned
  \<open>true\<close> and still nothing is published: a consumer that asks for work waits.
\<close>

lemma partial_block_invisible:
  assumes "cq_ok q" and "readable_queue q = []" and "length xs \<le> 1024"
  shows "\<exists>p q'. Producer_writes xs Producer_new q = (replicate (length xs) True, p, q') \<and>
    Consumer_read T Consumer_new q' = None"
proof (cases "xs = []")
  case True
  then show ?thesis
    using assms(2) by (simp add: Consumer_read_def tryReadSpaceByCV_def Consumer_new_def)
next
  case False
  then show ?thesis
    using fresh_producer_block [OF assms(1,2) False assms(3)] assms(2)
    by (simp add: Consumer_read_def tryReadSpaceByCV_def Consumer_new_def)
qed

lemma partial_block_invisible_example:
  "\<exists>p q'. Producer_writes [5, 6] Producer_new (CircleQueue_new (0::int)) = ([True, True], p, q') \<and>
    Consumer_read 0 Consumer_new q' = None"
  using partial_block_invisible [OF CircleQueue_new_ok, of 0 "[5, 6]" 0]
  by (simp add: CircleQueue_new_def)

text \<open>
  After 16383 blocks a producer with a full block is refused for good. The ring test is
  misparsed and never holds, and the request itself publishes the block, so the published
  set is not empty: \<open>write\<close> returns \<open>false\<close>, stores nothing and leaves the producer as it is,
  however much the consumers have drained. Each refused call publishes the same block
  again, so that after a consumer has taken it, the next refused call hands it out anew.
\<close>

lemma producer_refused_for_good:
  assumes "cq_ok q" and "2 ^ 24 \<le> cq_writeId q + 1024" and "p_writableId p \<noteq> 0"
    and "p_writableId p \<le> p_curWriteId p"
  shows "Producer_write x p q =
    (False, p, q\<lparr>readable_queue := insort_insert (p_writeId p, p_writableId p) (readable_queue q)\<rparr>)"
  using Producer_acquire_refuse [OF assms(1,3,2)] assms(4) by (simp add: Producer_write_def)

definition cq_worn :: "nat CircleQueue" where
  "cq_worn = (CircleQueue_new 0)\<lparr>cq_writeId := 16776192\<rparr>"

lemma producer_refused_for_good_example:
  "Producer_write 5 \<lparr>p_writeId = 0, p_curWriteId = 1024, p_writableId = 1024\<rparr> cq_worn =
    (False, \<lparr>p_writeId = 0, p_curWriteId = 1024, p_writableId = 1024\<rparr>,
     cq_worn\<lparr>readable_queue := [(0, 1024)]\<rparr>)"
proof -
  have "cq_ok cq_worn" by (simp add: cq_ok_def cq_worn_def CircleQueue_new_def)
  from producer_refused_for_good [OF this,
      of "\<lparr>p_writeId = 0, p_curWriteId = 1024, p_writableId = 1024\<rparr>" 5]
  show ?thesis
    by (simp add: cq_worn_def CircleQueue_new_def insort_insert_key_def)
qed

text \<open>
  The refused producer's block is delivered over and over. With nothing else published,
  one refused \<open>write\<close> followed by a consumer taking the block leads back to exactly the same
  queue and producer: every further attempt to write makes the consumers run the same 1024
  tasks once more, and the task of the attempt is dropped.
\<close>

lemma refused_block_redelivered:
  assumes "cq_ok q" and "2 ^ 24 \<le> cq_writeId q + 1024" and "p_writableId p \<noteq> 0"
    and "p_writableId p \<le> p_curWriteId p" and "readable_queue q = []"
  shows "\<exists>q'. Producer_write x p q = (False, p, q') \<and>
    tryReadSpaceByCV q' = Some ((p_writeId p, p_writableId p), q)"
proof -
  have "q\<lparr>readable_queue := []\<rparr> = q" using assms(5) by (cases q) simp
  then show ?thesis
    using Producer_acquire_refuse [OF assms(1,3,2)] assms(4,5)
    by (simp add: Producer_write_def tryReadSpaceByCV_def insort_insert_key_def)
qed

lemma refused_block_redelivered_example:
  "\<exists>q'. Producer_write 5 \<lparr>p_writeId = 0, p_curWriteId = 1024, p_writableId = 1024\<rparr> cq_worn =
      (False, \<lparr>p_writeId = 0, p_curWriteId = 1024, p_writableId = 1024\<rparr>, q') \<and>
    tryReadSpaceByCV q' = Some ((0, 1024), cq_worn)"
proof -
  have "cq_ok cq_worn" by (simp add: cq_ok_def cq_worn_def CircleQueue_new_def)
  from refused_block_redelivered [OF this,
      of "\<lparr>p_writeId = 0, p_curWriteId = 1024, p_writableId = 1024\<rparr>" 5]
  show ?thesis
    by (simp add: cq_worn_def CircleQueue_new_def)
qed

text \<open>First requests of new producers (each with nothing to hand over), one after the other.\<close>

fun first_requests :: "nat \<Rightarrow> 'a CircleQueue \<Rightarrow> (int \<times> int) list \<times> 'a CircleQueue" where
  "first_requests 0 q = ([], q)"
| "first_requests (Suc n) q =
     (let (r, q') = tryWriteSpace 0 0 q; (rs, q'') = first_requests n q' in (r # rs, q''))"

lemma first_requests_blocks:
  "cq_ok q \<Longrightarrow> readable_queue q = [] \<Longrightarrow> cq_writeId q + 1024 * int n < 2 ^ 63 - 1024 \<Longrightarrow>
   fst (first_requests n q) =
     map (\<lambda>k. (cq_writeId q + 1024 * int k, cq_writeId q + 1024 * int k + 1024)) [0..<n]"
proof (induction n arbitrary: q)
  case 0
  then show ?case by simp
next
  case (Suc n)
  let ?w = "cq_writeId q"
  let ?q = "q\<lparr>readable_queue := [], cq_writeId := ?w + 1024\<rparr>"
  have "published 0 0 q = []" using Suc.prems(2) by (simp add: published_def)
  then have step: "tryWriteSpace 0 0 q = ((?w, ?w + 1024), ?q)"
    using tryWriteSpace_ok [OF Suc.prems(1), of 0 0] by (simp add: Let_def)
  have "cq_ok ?q"
    using Suc.prems(1,3) by (simp add: cq_ok_def)
  then have "fst (first_requests n ?q) =
      map (\<lambda>k. (?w + 1024 + 1024 * int k, ?w + 1024 + 1024 * int k + 1024)) [0..<n]"
    using Suc.prems(3) by (subst Suc.IH) simp_all
  moreover have "[0..<Suc n] = 0 # map Suc [0..<n]"
    by (simp add: upt_conv_Cons map_Suc_upt del: upt_Suc)
  ultimately show ?case
    using step by (simp add: split_beta Let_def o_def algebra_simps del: upt_Suc)
qed

lemma slot_next_lap:
  assumes "cq_size q = 2 ^ 24" and "0 \<le> i" and "i + 2 ^ 24 < 2 ^ 64"
  shows "slot q (i + 2 ^ 24) = slot q i"
proof -
  have "to_size_t (i + 2 ^ 24) = i + 2 ^ 24" and "to_size_t i = i"
    using assms(2,3) by (simp_all add: to_size_t_def)
  then show ?thesis using assms(1) by (simp add: slot_def)
qed

text \<open>
  Space is granted without regard to who still writes or reads. As long as nothing is
  published, requests are granted one after the other; the 16385th gets a block of another
  lap whose slots are exactly those of the first, although the first producer may still be
  filling its block.
\<close>

lemma space_granted_twice:
  assumes "cq_ok q" and "readable_queue q = []" and "cq_writeId q < 2 ^ 62"
    and "0 \<le> i" and "i < 1024"
  shows "fst (first_requests 16385 q) ! 0 = (cq_writeId q, cq_writeId q + 1024) \<and>
    fst (first_requests 16385 q) ! 16384 = (cq_writeId q + 2 ^ 24, cq_writeId q + 2 ^ 24 + 1024) \<and>
    slot q (cq_writeId q + 2 ^ 24 + i) = slot q (cq_writeId q + i)"
proof -
  let ?w = "cq_writeId q"
  have w: "0 \<le> ?w" "cq_size q = 2 ^ 24" using assms(1) by (simp_all add: cq_ok_def)
  have "fst (first_requests 16385 q) = map (\<lambda>k. (?w + 1024 * int k, ?w + 1024 * int k + 1024)) [0..<16385]"
    using assms(1-3) by (intro first_requests_blocks) simp_all
  moreover have "slot q (?w + i + 2 ^ 24) = slot q (?w + i)"
    using w assms(3-5) by (intro slot_next_lap) simp_all
  ultimately show ?thesis by (simp add: algebra_simps del: upt_rec_numeral)
qed

lemma space_granted_twice_example:
  "fst (first_requests 16385 (CircleQueue_new (0::int))) ! 0 = (0, 1024) \<and>
   fst (first_requests 16385 (CircleQueue_new (0::int))) ! 16384 = (16777216, 16778240) \<and>
   slot (CircleQueue_new (0::int)) 16777221 = slot (CircleQueue_new (0::int)) 5"
  using space_granted_twice [OF CircleQueue_new_ok, of 0 5]
  by (simp add: CircleQueue_new_def del: first_requests.simps)

end
