(* ===== verification/Thread_Pool.thy ===== *)
theory Thread_Pool
  imports Circle_Queue
begin

text \<open>
  \<open>class MyThreadPool\<close> (\<open>src/ThreadPool/MyThreadPool.h\<close>, \<open>MyThreadPool.cpp\<close>): the task
  queue, the worker threads with their consumers, and the producers that the IO threads
  hold. Getting a block (under the lock of the queue) and touching a slot (without it) are
  separate steps of \<open>pool_step\<close>, so that the relation has every interleaving of any number
  of producers with the worker threads. The field \<open>pl_trace\<close> is a history variable: the
  slot numbers and tasks that were stored and run, newest first.
\<close>

section \<open>State and steps\<close>

datatype 'a pool_event =
    Wrote nat int 'a   \<comment> \<open>producer, slot number, task stored\<close>
  | Ran nat int 'a     \<comment> \<open>worker thread, slot number, task called\<close>

record 'a MyThreadPool =
  pl_running :: bool
  pl_circleArray :: "'a CircleQueue"
  pl_threads :: nat
  pl_prods :: "nat \<Rightarrow> Producer"
  pl_conss :: "nat \<Rightarrow> Consumer"
  pl_trace :: "'a pool_event list"

definition MyThreadPool_new :: "'a \<Rightarrow> 'a MyThreadPool" where
  "MyThreadPool_new T = \<lparr>pl_running = False, pl_circleArray = CircleQueue_new T, pl_threads = 0,
     pl_prods = (\<lambda>_. Producer_new), pl_conss = (\<lambda>_. Consumer_new), pl_trace = []\<rparr>"

text \<open>\<open>start()\<close> adds four threads; each starts \<open>runInMyThread\<close> with a new consumer.\<close>

definition MyThreadPool_start :: "'a MyThreadPool \<Rightarrow> 'a MyThreadPool" where
  "MyThreadPool_start s = s\<lparr>pl_running := True, pl_threads := pl_threads s + 4\<rparr>"

definition getCircleArray :: "'a MyThreadPool \<Rightarrow> 'a CircleQueue" where
  [simp]: "getCircleArray s = pl_circleArray s"

text \<open>
  The destructor deletes the thread objects. Nothing has joined or detached them, so the
  destructor of \<open>std::thread\<close> ends the process.
\<close>

definition MyThreadPool_delete :: "'a MyThreadPool \<Rightarrow> unit result" where
  "MyThreadPool_delete s = (if 0 < pl_threads s then Inl Abort_Call else Inr ())"

text \<open>One turn of the loop of \<open>runInMyThread\<close> in thread \<open>j\<close>; \<open>None\<close> while it waits.\<close>

definition runInMyThread_turn :: "'a \<Rightarrow> nat \<Rightarrow> 'a MyThreadPool \<Rightarrow> 'a MyThreadPool option" where
  "runInMyThread_turn T j s =
     (if \<not> pl_running s then Some s
      else (case Consumer_read T (pl_conss s j) (pl_circleArray s) of
              None \<Rightarrow> None
            | Some ((x, ok), c, q) \<Rightarrow>
                Some (if ok
                      then s\<lparr>pl_circleArray := q, pl_conss := (pl_conss s)(j := c),
                             pl_trace := Ran j (c_readId c - 1) x # pl_trace s\<rparr>
                      else s\<lparr>pl_circleArray := q, pl_conss := (pl_conss s)(j := c)\<rparr>)))"

inductive pool_step :: "'a MyThreadPool \<Rightarrow> 'a MyThreadPool \<Rightarrow> bool" where
  ps_start: "pool_step s (MyThreadPool_start s)"
| ps_acquire: "p_writableId (pl_prods s i) \<le> p_curWriteId (pl_prods s i) \<Longrightarrow>
     Producer_acquire (pl_prods s i) (pl_circleArray s) = (ok, p, q) \<Longrightarrow>
     pool_step s (s\<lparr>pl_circleArray := q, pl_prods := (pl_prods s)(i := p)\<rparr>)"
| ps_store: "p_curWriteId (pl_prods s i) < p_writableId (pl_prods s i) \<Longrightarrow>
     Producer_store x (pl_prods s i) (pl_circleArray s) = (p, q) \<Longrightarrow>
     pool_step s (s\<lparr>pl_circleArray := q, pl_prods := (pl_prods s)(i := p),
       pl_trace := Wrote i (p_curWriteId (pl_prods s i)) x # pl_trace s\<rparr>)"
| ps_take: "pl_running s \<Longrightarrow> j < pl_threads s \<Longrightarrow>
     c_readableId (pl_conss s j) \<le> c_readId (pl_conss s j) \<Longrightarrow>
     tryReadSpaceByCV (pl_circleArray s) = Some ((st, en), q) \<Longrightarrow> st \<noteq> -1 \<Longrightarrow>
     pool_step s (s\<lparr>pl_circleArray := q,
       pl_conss := (pl_conss s)(j := \<lparr>c_readId = st, c_readableId = en\<rparr>)\<rparr>)"
| ps_run: "pl_running s \<Longrightarrow> j < pl_threads s \<Longrightarrow>
     c_readId (pl_conss s j) < c_readableId (pl_conss s j) \<Longrightarrow>
     Consumer_fetch (pl_conss s j) (pl_circleArray s) = ((x, ok), c, q) \<Longrightarrow>
     pool_step s (s\<lparr>pl_circleArray := q, pl_conss := (pl_conss s)(j := c),
       pl_trace := Ran j (c_readId (pl_conss s j)) x # pl_trace s\<rparr>)"

definition pool_init :: "'a \<Rightarrow> 'a MyThreadPool \<Rightarrow> bool" where
  "pool_init T s \<longleftrightarrow> s = MyThreadPool_new T"

section \<open>Traces\<close>

fun wrote_ids :: "'a pool_event list \<Rightarrow> int list" where
  "wrote_ids [] = []"
| "wrote_ids (Wrote i k x # es) = k # wrote_ids es"
| "wrote_ids (Ran j k x # es) = wrote_ids es"

fun ran_ids :: "'a pool_event list \<Rightarrow> int list" where
  "ran_ids [] = []"
| "ran_ids (Wrote i k x # es) = ran_ids es"
| "ran_ids (Ran j k x # es) = k # ran_ids es"

text \<open>Every task was stored, with this number, before it was run.\<close>

fun causal :: "'a pool_event list \<Rightarrow> bool" where
  "causal [] = True"
| "causal (Wrote i k x # es) = causal es"
| "causal (Ran j k x # es) = ((\<exists>i. Wrote i k x \<in> set es) \<and> causal es)"

lemma wrote_ids_mem: "k \<in> set (wrote_ids es) \<longleftrightarrow> (\<exists>i x. Wrote i k x \<in> set es)"
  by (induction es rule: wrote_ids.induct) auto

lemma ran_ids_mem: "k \<in> set (ran_ids es) \<longleftrightarrow> (\<exists>j x. Ran j k x \<in> set es)"
  by (induction es rule: ran_ids.induct) auto

section \<open>Ownership of blocks\<close>

text \<open>
  Every block that was granted belongs to its producer, then to the published set, then to
  one worker thread, and is done when that thread takes another block. \<open>own\<close> records this;
  since it is a function, no block has two owners.
\<close>

datatype owner = OProd nat | OQueue | OCons nat | ODone

definition block_of :: "int \<Rightarrow> int" where
  "block_of k = k - k mod 1024"

definition owns_granted :: "(int \<rightharpoonup> owner) \<Rightarrow> 'a MyThreadPool \<Rightarrow> bool" where
  "owns_granted own s \<longleftrightarrow> cq_ok (pl_circleArray s) \<and>
     (\<forall>a. own a \<noteq> None \<longrightarrow> 0 \<le> a \<and> a mod 1024 = 0 \<and> a < cq_writeId (pl_circleArray s))"

definition prod_ok :: "(int \<rightharpoonup> owner) \<Rightarrow> nat \<Rightarrow> Producer \<Rightarrow> bool" where
  "prod_ok own i p \<longleftrightarrow> p = Producer_new \<or>
     own (p_writeId p) = Some (OProd i) \<and> p_writableId p = p_writeId p + 1024 \<and>
     p_writeId p \<le> p_curWriteId p \<and> p_curWriteId p \<le> p_writableId p"

definition owns_prods :: "(int \<rightharpoonup> owner) \<Rightarrow> 'a MyThreadPool \<Rightarrow> bool" where
  "owns_prods own s \<longleftrightarrow> (\<forall>i. prod_ok own i (pl_prods s i)) \<and>
     (\<forall>a i. own a = Some (OProd i) \<longrightarrow>
          p_writeId (pl_prods s i) = a \<and> pl_prods s i \<noteq> Producer_new)"

definition owns_queue :: "(int \<rightharpoonup> owner) \<Rightarrow> 'a MyThreadPool \<Rightarrow> bool" where
  "owns_queue own s \<longleftrightarrow> distinct (readable_queue (pl_circleArray s)) \<and>
     (\<forall>a b. (a, b) \<in> set (readable_queue (pl_circleArray s)) \<longleftrightarrow> own a = Some OQueue \<and> b = a + 1024)"

definition cons_ok :: "(int \<rightharpoonup> owner) \<Rightarrow> nat \<Rightarrow> Consumer \<Rightarrow> bool" where
  "cons_ok own j c \<longleftrightarrow> c = Consumer_new \<or>
     own (c_readableId c - 1024) = Some (OCons j) \<and> c_readableId c - 1024 \<le> c_readId c \<and>
     c_readId c \<le> c_readableId c"

definition owns_conss :: "(int \<rightharpoonup> owner) \<Rightarrow> 'a MyThreadPool \<Rightarrow> bool" where
  "owns_conss own s \<longleftrightarrow> (\<forall>j. cons_ok own j (pl_conss s j)) \<and>
     (\<forall>a j. own a = Some (OCons j) \<longrightarrow>
          c_readableId (pl_conss s j) = a + 1024 \<and> pl_conss s j \<noteq> Consumer_new)"

text \<open>
  The numbers of a block that are stored already and that are run already, by owner: a
  producer has stored up to \<open>curWriteId\<close>, a thread has run up to \<open>readId\<close>.
\<close>

fun stored_upto :: "'a MyThreadPool \<Rightarrow> int \<Rightarrow> owner \<Rightarrow> int" where
  "stored_upto s a (OProd i) = p_curWriteId (pl_prods s i)"
| "stored_upto s a _ = a + 1024"

fun run_upto :: "'a MyThreadPool \<Rightarrow> int \<Rightarrow> owner \<Rightarrow> int" where
  "run_upto s a (OCons j) = c_readId (pl_conss s j)"
| "run_upto s a ODone = a + 1024"
| "run_upto s a _ = a"

definition stored :: "(int \<rightharpoonup> owner) \<Rightarrow> 'a MyThreadPool \<Rightarrow> int \<Rightarrow> bool" where
  "stored own s k \<longleftrightarrow>
     (case own (block_of k) of None \<Rightarrow> False | Some o' \<Rightarrow> k < stored_upto s (block_of k) o')"

definition executed :: "(int \<rightharpoonup> owner) \<Rightarrow> 'a MyThreadPool \<Rightarrow> int \<Rightarrow> bool" where
  "executed own s k \<longleftrightarrow>
     (case own (block_of k) of None \<Rightarrow> False | Some o' \<Rightarrow> k < run_upto s (block_of k) o')"

definition trace_ok :: "(int \<rightharpoonup> owner) \<Rightarrow> 'a MyThreadPool \<Rightarrow> bool" where
  "trace_ok own s \<longleftrightarrow> distinct (wrote_ids (pl_trace s)) \<and> distinct (ran_ids (pl_trace s)) \<and>
     causal (pl_trace s) \<and>
     set (wrote_ids (pl_trace s)) = Collect (stored own s) \<and>
     set (ran_ids (pl_trace s)) = Collect (executed own s) \<and>
     (\<forall>i k x. Wrote i k x \<in> set (pl_trace s) \<longrightarrow> cq_read (pl_circleArray s) k = x)"

definition pool_good :: "(int \<rightharpoonup> owner) \<Rightarrow> 'a MyThreadPool \<Rightarrow> bool" where
  "pool_good own s \<longleftrightarrow> owns_granted own s \<and> owns_prods own s \<and> owns_queue own s \<and>
     owns_conss own s \<and> trace_ok own s"

text \<open>Up to the last block but one of the first lap.\<close>

definition first_lap :: "'a MyThreadPool \<Rightarrow> bool" where
  "first_lap s \<longleftrightarrow> cq_writeId (pl_circleArray s) + 1024 < 2 ^ 24"

section \<open>Blocks\<close>

lemma block_of_bounds: "block_of k \<le> k" "k < block_of k + 1024" "block_of k mod 1024 = 0"
  by (simp_all add: block_of_def)

lemma block_of_eq: "a mod 1024 = 0 \<Longrightarrow> a \<le> k \<Longrightarrow> k < a + 1024 \<Longrightarrow> block_of k = a"
proof -
  assume a: "a mod 1024 = 0" "a \<le> k" "k < a + 1024"
  have "k mod 1024 = (k - a) mod 1024"
    using a(1) by (metis diff_zero mod_diff_right_eq)
  also have "\<dots> = k - a" using a(2,3) by (intro mod_pos_pos_trivial) auto
  finally show ?thesis by (simp add: block_of_def)
qed

text \<open>Two blocks: the smaller one ends where the other begins, or before.\<close>

lemma block_gap: "a mod 1024 = 0 \<Longrightarrow> w mod 1024 = 0 \<Longrightarrow> a < w \<Longrightarrow> a + 1024 \<le> (w::int)"
proof -
  assume "a mod 1024 = 0" "w mod 1024 = 0" "a < w"
  then obtain m n where "a = 1024 * m" "w = 1024 * n" by (auto elim!: dvdE simp: mod_eq_0_iff_dvd)
  with \<open>a < w\<close> show ?thesis by simp
qed

lemma owned_range:
  assumes "owns_granted own s" and "own a \<noteq> None"
  shows "0 \<le> a" "a mod 1024 = 0" "a < cq_writeId (pl_circleArray s)"
    "a + 1024 \<le> cq_writeId (pl_circleArray s)"
proof -
  show a: "0 \<le> a" "a mod 1024 = 0" "a < cq_writeId (pl_circleArray s)"
    using assms by (simp_all add: owns_granted_def)
  have "cq_writeId (pl_circleArray s) mod 1024 = 0"
    using assms(1) by (simp add: owns_granted_def cq_ok_def)
  from block_gap [OF a(2) this a(3)] show "a + 1024 \<le> cq_writeId (pl_circleArray s)" .
qed

lemma granted_next:
  assumes "owns_granted own s"
  shows "own (cq_writeId (pl_circleArray s)) = None"
  using owned_range(3) [OF assms] by fastforce

lemma prodsD:
  assumes "owns_prods own s"
  shows "pl_prods s i \<noteq> Producer_new \<Longrightarrow> own (p_writeId (pl_prods s i)) = Some (OProd i)"
    and "pl_prods s i \<noteq> Producer_new \<Longrightarrow> p_writableId (pl_prods s i) = p_writeId (pl_prods s i) + 1024"
    and "pl_prods s i \<noteq> Producer_new \<Longrightarrow> p_writeId (pl_prods s i) \<le> p_curWriteId (pl_prods s i)"
    and "pl_prods s i \<noteq> Producer_new \<Longrightarrow> p_curWriteId (pl_prods s i) \<le> p_writableId (pl_prods s i)"
    and "own a = Some (OProd i) \<Longrightarrow> p_writeId (pl_prods s i) = a"
    and "own a = Some (OProd i) \<Longrightarrow> pl_prods s i \<noteq> Producer_new"
  using assms unfolding owns_prods_def prod_ok_def by blast+

lemma conssD:
  assumes "owns_conss own s"
  shows "pl_conss s j \<noteq> Consumer_new \<Longrightarrow> own (c_readableId (pl_conss s j) - 1024) = Some (OCons j)"
    and "pl_conss s j \<noteq> Consumer_new \<Longrightarrow> c_readableId (pl_conss s j) - 1024 \<le> c_readId (pl_conss s j)"
    and "pl_conss s j \<noteq> Consumer_new \<Longrightarrow> c_readId (pl_conss s j) \<le> c_readableId (pl_conss s j)"
    and "own a = Some (OCons j) \<Longrightarrow> c_readableId (pl_conss s j) = a + 1024"
    and "own a = Some (OCons j) \<Longrightarrow> pl_conss s j \<noteq> Consumer_new"
  using assms unfolding owns_conss_def cons_ok_def by blast+

text \<open>One producer or consumer is replaced, and \<open>own\<close> changes only at blocks of no other.\<close>

lemma prod_active: "p_writableId p = p_writeId p + 1024 \<Longrightarrow> p \<noteq> Producer_new"
  by (auto simp: Producer_new_def)

lemma cons_active: "0 < c_readableId c \<Longrightarrow> c \<noteq> Consumer_new"
  by (auto simp: Consumer_new_def)

lemma owns_prods_upd:
  assumes "owns_prods own s" and "pl_prods s' = (pl_prods s)(i := p)"
    and "prod_ok own' i p"
    and "\<And>a i'. i' \<noteq> i \<Longrightarrow> own' a = Some (OProd i') \<longleftrightarrow> own a = Some (OProd i')"
    and "\<And>a. own' a = Some (OProd i) \<Longrightarrow> p_writeId p = a \<and> p \<noteq> Producer_new"
  shows "owns_prods own' s'"
proof -
  have "prod_ok own' i' (pl_prods s' i')" for i'
  proof (cases "i' = i")
    case False
    have "prod_ok own i' (pl_prods s i')" using assms(1) by (simp add: owns_prods_def)
    with False show ?thesis using assms(2,4) by (simp add: prod_ok_def)
  qed (use assms(2,3) in simp)
  moreover have "p_writeId (pl_prods s' i') = a \<and> pl_prods s' i' \<noteq> Producer_new"
    if "own' a = Some (OProd i')" for a i'
    using that assms(2,4,5) prodsD(5,6) [OF assms(1)] by (cases "i' = i") auto
  ultimately show ?thesis by (simp add: owns_prods_def)
qed

lemma owns_conss_upd:
  assumes "owns_conss own s" and "pl_conss s' = (pl_conss s)(j := c)"
    and "cons_ok own' j c"
    and "\<And>a j'. j' \<noteq> j \<Longrightarrow> own' a = Some (OCons j') \<longleftrightarrow> own a = Some (OCons j')"
    and "\<And>a. own' a = Some (OCons j) \<Longrightarrow> c_readableId c = a + 1024 \<and> c \<noteq> Consumer_new"
  shows "owns_conss own' s'"
proof -
  have "cons_ok own' j' (pl_conss s' j')" for j'
  proof (cases "j' = j")
    case False
    have "cons_ok own j' (pl_conss s j')" using assms(1) by (simp add: owns_conss_def)
    with False show ?thesis using assms(2,4) by (simp add: cons_ok_def)
  qed (use assms(2,3) in simp)
  moreover have "c_readableId (pl_conss s' j') = a + 1024 \<and> pl_conss s' j' \<noteq> Consumer_new"
    if "own' a = Some (OCons j')" for a j'
    using that assms(2,4,5) conssD(4,5) [OF assms(1)] by (cases "j' = j") auto
  ultimately show ?thesis by (simp add: owns_conss_def)
qed

text \<open>\<open>own\<close> changes, but at no block of a producer (of a consumer).\<close>

lemma owns_prods_cong:
  assumes "owns_prods own s" and "pl_prods s' = pl_prods s"
    and "\<And>a i. own' a = Some (OProd i) \<longleftrightarrow> own a = Some (OProd i)"
  shows "owns_prods own' s'"
  using assms(1) unfolding owns_prods_def prod_ok_def assms(2,3) .

lemma owns_conss_cong:
  assumes "owns_conss own s" and "pl_conss s' = pl_conss s"
    and "\<And>a j. own' a = Some (OCons j) \<longleftrightarrow> own a = Some (OCons j)"
  shows "owns_conss own' s'"
  using assms(1) unfolding owns_conss_def cons_ok_def assms(2,3) .

lemma trace_ok_cong:
  assumes "trace_ok own s" and "pl_trace s' = pl_trace s"
    and "cq_read (pl_circleArray s') = cq_read (pl_circleArray s)"
    and "stored own' s' = stored own s" and "executed own' s' = executed own s"
  shows "trace_ok own' s'"
  using assms(1) by (simp add: trace_ok_def assms(2-5))

section \<open>The moves of a block\<close>

text \<open>Hand-over: a full block goes from its producer to the published set.\<close>

lemma good_publish:
  assumes "pool_good own s" and new: "pl_prods s i \<noteq> Producer_new"
    and full: "p_curWriteId (pl_prods s i) = p_writableId (pl_prods s i)"
    and w: "w = p_writeId (pl_prods s i)"
    and s': "s' = s\<lparr>pl_circleArray := (pl_circleArray s)\<lparr>readable_queue :=
        insort_insert (w, w + 1024) (readable_queue (pl_circleArray s))\<rparr>,
      pl_prods := (pl_prods s)(i := Producer_new)\<rparr>"
  shows "pool_good (own(w \<mapsto> OQueue)) s'"
proof -
  let ?own = "own(w \<mapsto> OQueue)"
  have g: "owns_granted own s" "owns_prods own s" "owns_queue own s" "owns_conss own s" "trace_ok own s"
    using assms(1) by (simp_all add: pool_good_def)
  note p = prodsD [OF g(2)]
  have ow: "own w = Some (OProd i)" using p(1) new w by simp
  have only: "own a \<noteq> Some (OProd i)" if "a \<noteq> w" for a using p(5) [of a i] that w by auto
  have cur: "p_curWriteId (pl_prods s i) = w + 1024" using p(2) [OF new] full w by simp
  have "owns_granted ?own s'"
    using g(1) ow by (auto simp: owns_granted_def s' cq_ok_def)
  moreover have "owns_prods ?own s'"
    by (rule owns_prods_upd [OF g(2), where i = i and p = Producer_new])
      (use ow only in \<open>auto simp: s' prod_ok_def split: if_splits\<close>)
  moreover have "owns_queue ?own s'"
    using g(3) ow by (auto simp: owns_queue_def s' set_insort_insert distinct_insort_insert)
  moreover have "owns_conss ?own s'"
    by (rule owns_conss_cong [OF g(4)]) (use ow in \<open>auto simp: s'\<close>)
  moreover have "trace_ok ?own s'"
  proof (rule trace_ok_cong [OF g(5)])
    have "stored_upto s' a o' = stored_upto s a o'" if "own a = Some o'" "a \<noteq> w" for a o'
      using that only by (cases o') (auto simp: s')
    then show "stored ?own s' = stored own s"
      using ow cur by (auto simp: stored_def fun_eq_iff split: option.splits)
    have "run_upto s' a o' = run_upto s a o'" for a o' by (cases o') (auto simp: s')
    then show "executed ?own s' = executed own s"
      using ow by (auto simp: executed_def fun_eq_iff split: option.splits)
  qed (simp_all add: s')
  ultimately show ?thesis by (simp add: pool_good_def)
qed

text \<open>Grant: a producer without a block gets the next one.\<close>

lemma good_grant:
  assumes "pool_good own s" and new: "pl_prods s i = Producer_new"
    and w: "w = cq_writeId (pl_circleArray s)" and lap: "w + 1024 < 2 ^ 24"
    and s': "s' = s\<lparr>pl_circleArray := (pl_circleArray s)\<lparr>cq_writeId := w + 1024\<rparr>,
      pl_prods := (pl_prods s)(i :=
        \<lparr>p_writeId = w, p_curWriteId = w, p_writableId = w + 1024\<rparr>)\<rparr>"
  shows "pool_good (own(w \<mapsto> OProd i)) s'"
proof -
  let ?own = "own(w \<mapsto> OProd i)" and ?p = "\<lparr>p_writeId = w, p_curWriteId = w, p_writableId = w + 1024\<rparr>"
  have g: "owns_granted own s" "owns_prods own s" "owns_queue own s" "owns_conss own s" "trace_ok own s"
    using assms(1) by (simp_all add: pool_good_def)
  have none: "own w = None" using granted_next [OF g(1)] w by simp
  have ok: "0 \<le> w" "w mod 1024 = 0" using g(1) by (simp_all add: owns_granted_def cq_ok_def w)
  have nobody: "own a \<noteq> Some (OProd i)" for a using prodsD(6) [OF g(2)] new by blast
  have "owns_granted ?own s'"
    unfolding owns_granted_def
  proof (intro conjI allI impI)
    show "cq_ok (pl_circleArray s')"
      using g(1) lap w by (simp add: owns_granted_def cq_ok_def s')
    fix a
    assume "?own a \<noteq> None"
    then have "a = w \<or> own a \<noteq> None" by (simp split: if_splits)
    then show "0 \<le> a" "a mod 1024 = 0" "a < cq_writeId (pl_circleArray s')"
      using ok owned_range [OF g(1), of a] w by (auto simp: s')
  qed
  moreover have "owns_prods ?own s'"
    by (rule owns_prods_upd [OF g(2), where i = i and p = ?p])
      (use none nobody ok in \<open>auto simp: s' prod_ok_def Producer_new_def split: if_splits\<close>)
  moreover have "owns_queue ?own s'"
    using g(3) none by (auto simp: owns_queue_def s')
  moreover have "owns_conss ?own s'"
    by (rule owns_conss_cong [OF g(4)]) (use none in \<open>auto simp: s'\<close>)
  moreover have "trace_ok ?own s'"
  proof (rule trace_ok_cong [OF g(5)])
    have "stored_upto s' a o' = stored_upto s a o'" if "own a = Some o'" for a o'
      using that nobody by (cases o') (auto simp: s')
    moreover have "\<not> k < stored_upto s' w (OProd i)" if "block_of k = w" for k
      using that block_of_bounds(1) [of k] by (simp add: s')
    ultimately show "stored ?own s' = stored own s"
      using none by (auto simp: stored_def fun_eq_iff split: option.splits)
    have "run_upto s' a o' = run_upto s a o'" for a o' by (cases o') (auto simp: s')
    moreover have "\<not> k < run_upto s' w (OProd i)" if "block_of k = w" for k
      using that block_of_bounds(1) [of k] by simp
    ultimately show "executed ?own s' = executed own s"
      using none by (auto simp: executed_def fun_eq_iff split: option.splits)
  qed (simp_all add: s')
  ultimately show ?thesis by (simp add: pool_good_def)
qed

text \<open>One owner gets one number further in its block.\<close>

lemma upto_advance:
  fixes f f' :: "int \<Rightarrow> owner \<Rightarrow> int"
  assumes "own w = Some ow" and "block_of k0 = w" and "f w ow = k0" and "f' w ow = k0 + 1"
    and "\<And>a o'. own a = Some o' \<Longrightarrow> a \<noteq> w \<Longrightarrow> f' a o' = f a o'"
  shows "{k. case own (block_of k) of None \<Rightarrow> False | Some o' \<Rightarrow> k < f' (block_of k) o'} =
    insert k0 {k. case own (block_of k) of None \<Rightarrow> False | Some o' \<Rightarrow> k < f (block_of k) o'}"
proof -
  have "(case own (block_of k) of None \<Rightarrow> False | Some o' \<Rightarrow> k < f' (block_of k) o') \<longleftrightarrow>
      k = k0 \<or> (case own (block_of k) of None \<Rightarrow> False | Some o' \<Rightarrow> k < f (block_of k) o')" for k
  proof (cases "block_of k = w")
    case True
    with assms(1,3,4) show ?thesis by auto
  next
    case False
    with assms(2,5) show ?thesis by (auto split: option.splits)
  qed
  then show ?thesis by auto
qed

text \<open>Store: a producer fills the next slot of its block.\<close>

lemma stored_lap:
  assumes "owns_granted own s" and "own (block_of k) \<noteq> None" and "first_lap s"
  shows "k \<in> cq_lap (pl_circleArray s)"
proof -
  have "cq_size (pl_circleArray s) = 2 ^ 24"
    using assms(1) by (simp add: owns_granted_def cq_ok_def)
  then show ?thesis
    using owned_range(1,4) [OF assms(1,2)] block_of_bounds(1,2) [of k] assms(3)
    by (simp add: cq_lap_def first_lap_def)
qed

lemma good_store:
  assumes "pool_good own s" and lap: "first_lap s"
    and room: "p_curWriteId (pl_prods s i) < p_writableId (pl_prods s i)"
    and k0: "k0 = p_curWriteId (pl_prods s i)"
    and s': "s' = s\<lparr>pl_circleArray := cq_write k0 x (pl_circleArray s),
      pl_prods := (pl_prods s)(i := (pl_prods s i)\<lparr>p_curWriteId := k0 + 1\<rparr>),
      pl_trace := Wrote i k0 x # pl_trace s\<rparr>"
  shows "pool_good own s'"
proof -
  let ?w = "p_writeId (pl_prods s i)" and ?p = "(pl_prods s i)\<lparr>p_curWriteId := k0 + 1\<rparr>"
  have g: "owns_granted own s" "owns_prods own s" "owns_queue own s" "owns_conss own s" "trace_ok own s"
    using assms(1) by (simp_all add: pool_good_def)
  have new: "pl_prods s i \<noteq> Producer_new" using room by (auto simp: Producer_new_def)
  note p = prodsD [OF g(2)]
  have ow: "own ?w = Some (OProd i)" using p(1) [OF new] .
  have blk: "block_of k0 = ?w"
    using owned_range(2) [OF g(1), of ?w] ow p(2,3) [OF new] room k0 by (intro block_of_eq) auto
  have only: "own a \<noteq> Some (OProd i)" if "a \<noteq> ?w" for a using p(5) [of a i] that by auto
  have "owns_granted own s'" using g(1) by (simp add: owns_granted_def s' cq_ok_def)
  moreover have "owns_prods own s'"
  proof (rule owns_prods_upd [OF g(2), where i = i and p = ?p])
    show "prod_ok own i ?p" using ow p(2-4) [OF new] room k0 by (simp add: prod_ok_def)
    show "p_writeId ?p = a \<and> ?p \<noteq> Producer_new" if "own a = Some (OProd i)" for a
      using p(5) [OF that] p(2) [OF new] prod_active [of ?p] by simp
  qed (simp_all add: s')
  moreover have "owns_queue own s'" using g(3) by (simp add: owns_queue_def s')
  moreover have "owns_conss own s'" by (rule owns_conss_cong [OF g(4)]) (simp_all add: s')
  moreover have "trace_ok own s'"
  proof -
    have "stored_upto s' a o' = stored_upto s a o'" if "own a = Some o'" "a \<noteq> ?w" for a o'
      using that only by (cases o') (auto simp: s')
    then have "Collect (stored own s') = insert k0 (Collect (stored own s))"
      unfolding stored_def by (intro upto_advance [where own = own, OF ow blk]) (simp_all add: s' k0)
    moreover have "\<not> stored own s k0" using ow blk k0 by (simp add: stored_def)
    moreover have "run_upto s' a o' = run_upto s a o'" for a o' by (cases o') (auto simp: s')
    then have "executed own s' = executed own s" by (simp add: executed_def fun_eq_iff split: option.splits)
    moreover have "cq_read (pl_circleArray s') k = y" if "Wrote i' k y \<in> set (pl_trace s)" for i' k y
    proof -
      have "stored own s k" using g(5) that wrote_ids_mem [of k "pl_trace s"] by (auto simp: trace_ok_def)
      then have "k \<noteq> k0" "own (block_of k) \<noteq> None"
        using \<open>\<not> stored own s k0\<close> by (auto simp: stored_def split: option.splits)
      then have "cq_read (pl_circleArray s') k = cq_read (pl_circleArray s) k"
        using stored_lap [OF g(1) _ lap] ow blk by (simp add: s' cq.rd_wr_other)
      then show ?thesis using g(5) that by (auto simp: trace_ok_def)
    qed
    ultimately show ?thesis
      using g(5) by (auto simp: trace_ok_def s' cq.rd_wr_same)
  qed
  ultimately show ?thesis by (simp add: pool_good_def)
qed

text \<open>Retire: a thread that has run its whole block lets it go.\<close>

lemma good_retire:
  assumes "pool_good own s" and new: "pl_conss s j \<noteq> Consumer_new"
    and full: "c_readId (pl_conss s j) = c_readableId (pl_conss s j)"
    and d: "d = c_readableId (pl_conss s j) - 1024"
    and s': "s' = s\<lparr>pl_conss := (pl_conss s)(j := Consumer_new)\<rparr>"
  shows "pool_good (own(d \<mapsto> ODone)) s'"
proof -
  let ?own = "own(d \<mapsto> ODone)"
  have g: "owns_granted own s" "owns_prods own s" "owns_queue own s" "owns_conss own s" "trace_ok own s"
    using assms(1) by (simp_all add: pool_good_def)
  note c = conssD [OF g(4)]
  have ow: "own d = Some (OCons j)" using c(1) new d by simp
  have only: "own a \<noteq> Some (OCons j)" if "a \<noteq> d" for a using c(4) [of a j] that d by auto
  have "owns_granted ?own s'" using g(1) ow by (auto simp: owns_granted_def s')
  moreover have "owns_prods ?own s'" by (rule owns_prods_cong [OF g(2)]) (use ow in \<open>auto simp: s'\<close>)
  moreover have "owns_queue ?own s'" using g(3) ow by (auto simp: owns_queue_def s')
  moreover have "owns_conss ?own s'"
    by (rule owns_conss_upd [OF g(4), where j = j and c = Consumer_new])
      (use ow only in \<open>auto simp: s' cons_ok_def split: if_splits\<close>)
  moreover have "trace_ok ?own s'"
  proof (rule trace_ok_cong [OF g(5)])
    have "stored_upto s' a o' = stored_upto s a o'" for a o' by (cases o') (auto simp: s')
    then show "stored ?own s' = stored own s"
      using ow by (auto simp: stored_def fun_eq_iff split: option.splits)
    have "run_upto s' a o' = run_upto s a o'" if "own a = Some o'" "a \<noteq> d" for a o'
      using that only by (cases o') (auto simp: s')
    then show "executed ?own s' = executed own s"
      using ow full d by (auto simp: executed_def fun_eq_iff split: option.splits)
  qed (simp_all add: s')
  ultimately show ?thesis by (simp add: pool_good_def)
qed

text \<open>Take: a thread without a block gets a published one.\<close>

lemma good_take:
  assumes "pool_good own s" and new: "pl_conss s j = Consumer_new"
    and rq: "readable_queue (pl_circleArray s) = (a, b) # rs"
    and s': "s' = s\<lparr>pl_circleArray := (pl_circleArray s)\<lparr>readable_queue := rs\<rparr>,
      pl_conss := (pl_conss s)(j := \<lparr>c_readId = a, c_readableId = b\<rparr>)\<rparr>"
  shows "pool_good (own(a \<mapsto> OCons j)) s'"
proof -
  let ?own = "own(a \<mapsto> OCons j)" and ?c = "\<lparr>c_readId = a, c_readableId = b\<rparr>"
  have g: "owns_granted own s" "owns_prods own s" "owns_queue own s" "owns_conss own s" "trace_ok own s"
    using assms(1) by (simp_all add: pool_good_def)
  have q: "(a', b') \<in> insert (a, b) (set rs) \<longleftrightarrow> own a' = Some OQueue \<and> b' = a' + 1024" for a' b'
    using g(3) rq by (simp add: owns_queue_def)
  then have ow: "own a = Some OQueue" "b = a + 1024" by blast+
  have nobody: "own x \<noteq> Some (OCons j)" for x using conssD(5) [OF g(4)] new by blast
  have dist: "(a, b) \<notin> set rs" "distinct rs" using g(3) rq by (simp_all add: owns_queue_def)
  have a0: "0 \<le> a" using owned_range(1) [OF g(1), of a] ow by simp
  have "owns_granted ?own s'" using g(1) ow by (auto simp: owns_granted_def s' cq_ok_def)
  moreover have "owns_prods ?own s'" by (rule owns_prods_cong [OF g(2)]) (use ow in \<open>auto simp: s'\<close>)
  moreover have "owns_queue ?own s'"
  proof -
    have "(x, y) \<in> set rs \<longleftrightarrow> ?own x = Some OQueue \<and> y = x + 1024" for x y
      using q [of x y] dist(1) ow(2) by (cases "x = a") auto
    then show ?thesis using dist(2) by (simp add: owns_queue_def s')
  qed
  moreover have "owns_conss ?own s'"
    by (rule owns_conss_upd [OF g(4), where j = j and c = ?c])
      (use ow nobody a0 in \<open>auto simp: s' cons_ok_def Consumer_new_def split: if_splits\<close>)
  moreover have "trace_ok ?own s'"
  proof (rule trace_ok_cong [OF g(5)])
    have "stored_upto s' x o' = stored_upto s x o'" for x o' by (cases o') (auto simp: s')
    then show "stored ?own s' = stored own s"
      using ow by (auto simp: stored_def fun_eq_iff split: option.splits)
    have "run_upto s' x o' = run_upto s x o'" if "own x = Some o'" "x \<noteq> a" for x o'
      using that nobody by (cases o') (auto simp: s')
    then show "executed ?own s' = executed own s"
      using ow by (auto simp: executed_def fun_eq_iff s' split: option.splits)
  qed (simp_all add: s')
  ultimately show ?thesis by (simp add: pool_good_def)
qed

text \<open>Run: a thread calls the next task of its block.\<close>

lemma good_run:
  assumes "pool_good own s"
    and room: "c_readId (pl_conss s j) < c_readableId (pl_conss s j)"
    and k0: "k0 = c_readId (pl_conss s j)"
    and s': "s' = s\<lparr>pl_conss := (pl_conss s)(j := (pl_conss s j)\<lparr>c_readId := k0 + 1\<rparr>),
      pl_trace := Ran j k0 (cq_read (pl_circleArray s) k0) # pl_trace s\<rparr>"
  shows "pool_good own s'"
proof -
  let ?d = "c_readableId (pl_conss s j) - 1024" and ?c = "(pl_conss s j)\<lparr>c_readId := k0 + 1\<rparr>"
  have g: "owns_granted own s" "owns_prods own s" "owns_queue own s" "owns_conss own s" "trace_ok own s"
    using assms(1) by (simp_all add: pool_good_def)
  have new: "pl_conss s j \<noteq> Consumer_new" using room by (auto simp: Consumer_new_def)
  note c = conssD [OF g(4)]
  have ow: "own ?d = Some (OCons j)" using c(1) [OF new] .
  have blk: "block_of k0 = ?d"
    using owned_range(2) [OF g(1), of ?d] ow c(2) [OF new] room k0 by (intro block_of_eq) auto
  have only: "own a \<noteq> Some (OCons j)" if "a \<noteq> ?d" for a using c(4) [of a j] that by auto
  have "owns_granted own s'" using g(1) by (simp add: owns_granted_def s')
  moreover have "owns_prods own s'" by (rule owns_prods_cong [OF g(2)]) (simp_all add: s')
  moreover have "owns_queue own s'" using g(3) by (simp add: owns_queue_def s')
  moreover have "owns_conss own s'"
  proof (rule owns_conss_upd [OF g(4), where j = j and c = ?c])
    show "cons_ok own j ?c" using ow c(2) [OF new] room k0 by (simp add: cons_ok_def)
    show "c_readableId ?c = a + 1024 \<and> ?c \<noteq> Consumer_new" if "own a = Some (OCons j)" for a
      using c(4) [OF that] owned_range(1) [OF g(1), of a] that cons_active [of ?c] by simp
  qed (simp_all add: s')
  moreover have "trace_ok own s'"
  proof -
    have "run_upto s' a o' = run_upto s a o'" if "own a = Some o'" "a \<noteq> ?d" for a o'
      using that only by (cases o') (auto simp: s')
    then have "Collect (executed own s') = insert k0 (Collect (executed own s))"
      unfolding executed_def by (intro upto_advance [where own = own, OF ow blk]) (simp_all add: s' k0)
    moreover have "\<not> executed own s k0" using ow blk k0 by (simp add: executed_def)
    moreover have "stored_upto s' a o' = stored_upto s a o'" for a o' by (cases o') (auto simp: s')
    then have "stored own s' = stored own s" by (simp add: stored_def fun_eq_iff split: option.splits)
    moreover have "stored own s k0" using ow blk room k0 by (simp add: stored_def)
    then have "\<exists>i. Wrote i k0 (cq_read (pl_circleArray s) k0) \<in> set (pl_trace s)"
      using g(5) wrote_ids_mem [of k0 "pl_trace s"] unfolding trace_ok_def by blast
    ultimately show ?thesis using g(5) by (auto simp: trace_ok_def s')
  qed
  ultimately show ?thesis by (simp add: pool_good_def)
qed

section \<open>The invariant of the first lap\<close>

definition lap_step :: "'a MyThreadPool \<Rightarrow> 'a MyThreadPool \<Rightarrow> bool" where
  "lap_step s s' \<longleftrightarrow> pool_step s s' \<and> first_lap s'"

definition pool_inv :: "'a MyThreadPool \<Rightarrow> bool" where
  "pool_inv s \<longleftrightarrow> first_lap s \<and> (\<exists>own. pool_good own s)"

lemma pool_new_inv: "pool_inv (MyThreadPool_new T)"
proof -
  have "pool_good Map.empty (MyThreadPool_new T)"
    by (simp add: pool_good_def owns_granted_def owns_prods_def owns_queue_def owns_conss_def
        trace_ok_def prod_ok_def cons_ok_def stored_def executed_def MyThreadPool_new_def
        CircleQueue_new_ok) (simp add: CircleQueue_new_def)
  then show ?thesis
    by (auto simp: pool_inv_def first_lap_def MyThreadPool_new_def CircleQueue_new_def)
qed

lemma start_good: "pool_good own s \<Longrightarrow> pool_good own (MyThreadPool_start s)"
proof -
  let ?s = "MyThreadPool_start s"
  have "stored_upto ?s a o' = stored_upto s a o'" "run_upto ?s a o' = run_upto s a o'" for a o'
    by (cases o'; simp add: MyThreadPool_start_def)+
  then have "stored own ?s = stored own s" "executed own ?s = executed own s"
    by (simp_all add: stored_def executed_def fun_eq_iff split: option.splits)
  then show "pool_good own s \<Longrightarrow> pool_good own ?s"
    by (simp add: pool_good_def owns_granted_def owns_prods_def owns_queue_def owns_conss_def
        trace_ok_def) (simp add: MyThreadPool_start_def)
qed

text \<open>A producer asks for space: hand-over of its full block, if it has one, then the grant.\<close>

lemma acquire_good:
  assumes "pool_good own s" and "first_lap s"
    and "p_writableId (pl_prods s i) \<le> p_curWriteId (pl_prods s i)"
    and acq: "Producer_acquire (pl_prods s i) (pl_circleArray s) = (ok, p, q)"
    and s': "s' = s\<lparr>pl_circleArray := q, pl_prods := (pl_prods s)(i := p)\<rparr>"
    and lap: "first_lap s'"
  shows "\<exists>own'. pool_good own' s'"
proof -
  let ?p = "pl_prods s i" and ?q = "pl_circleArray s"
  let ?w = "cq_writeId ?q"
  have g: "owns_granted own s" "owns_prods own s" using assms(1) by (simp_all add: pool_good_def)
  have ok: "cq_ok ?q" using g(1) by (simp add: owns_granted_def)
  have room: "?w + 1024 < 2 ^ 24" using assms(2) by (simp add: first_lap_def)
  have p: "p = \<lparr>p_writeId = ?w, p_curWriteId = ?w, p_writableId = ?w + 1024\<rparr>"
    and q: "q = ?q\<lparr>readable_queue := published (p_writeId ?p) (p_writableId ?p) ?q, cq_writeId := ?w + 1024\<rparr>"
    using acq Producer_acquire_grant [OF ok, of ?p] room by auto
  show ?thesis
  proof (cases "?p = Producer_new")
    case True
    then have "published (p_writeId ?p) (p_writableId ?p) ?q = readable_queue ?q"
      by (simp add: published_def Producer_new_def)
    then have "s' = s\<lparr>pl_circleArray := ?q\<lparr>cq_writeId := ?w + 1024\<rparr>, pl_prods := (pl_prods s)(i := p)\<rparr>"
      by (simp add: s' q)
    then show ?thesis
      using good_grant [OF assms(1) True refl room] p by blast
  next
    case False
    let ?a = "p_writeId ?p"
    have act: "p_writableId ?p = ?a + 1024" "p_curWriteId ?p = p_writableId ?p" "0 \<le> ?a"
      using prodsD(1,2,4) [OF g(2) False] assms(3) owned_range(1) [OF g(1), of ?a] by auto
    let ?s1 = "s\<lparr>pl_circleArray := ?q\<lparr>readable_queue := insort_insert (?a, ?a + 1024) (readable_queue ?q)\<rparr>,
      pl_prods := (pl_prods s)(i := Producer_new)\<rparr>"
    have "pool_good (own(?a \<mapsto> OQueue)) ?s1"
      using assms(1) False act(2) by (rule good_publish) simp_all
    from good_grant [OF this _ refl _ refl, of i] room
    have "\<exists>own'. pool_good own' (?s1\<lparr>pl_circleArray := (pl_circleArray ?s1)\<lparr>cq_writeId := ?w + 1024\<rparr>,
        pl_prods := (pl_prods ?s1)(i := p)\<rparr>)"
      unfolding p by auto
    moreover have "published ?a (p_writableId ?p) ?q = insort_insert (?a, ?a + 1024) (readable_queue ?q)"
      using act by (simp add: published_def)
    ultimately show ?thesis by (simp add: s' q)
  qed
qed

lemma take_good:
  assumes "pool_good own s"
    and "c_readableId (pl_conss s j) \<le> c_readId (pl_conss s j)"
    and "tryReadSpaceByCV (pl_circleArray s) = Some ((st, en), q)"
    and s': "s' = s\<lparr>pl_circleArray := q,
      pl_conss := (pl_conss s)(j := \<lparr>c_readId = st, c_readableId = en\<rparr>)\<rparr>"
  shows "\<exists>own'. pool_good own' s'"
proof -
  let ?c = "pl_conss s j"
  obtain rs where rq: "readable_queue (pl_circleArray s) = (st, en) # rs"
    and q: "q = (pl_circleArray s)\<lparr>readable_queue := rs\<rparr>"
    using assms(3) by (auto simp: tryReadSpaceByCV_def split: list.splits)
  show ?thesis
  proof (cases "?c = Consumer_new")
    case True
    then show ?thesis using good_take [OF assms(1) True rq s' [unfolded q]] by blast
  next
    case False
    let ?s1 = "s\<lparr>pl_conss := (pl_conss s)(j := Consumer_new)\<rparr>"
    have "owns_conss own s" using assms(1) by (simp add: pool_good_def)
    from conssD(3) [OF this False] assms(2)
    have "pool_good (own(c_readableId ?c - 1024 \<mapsto> ODone)) ?s1"
      by (intro good_retire [OF assms(1) False]) simp_all
    from good_take [OF this _ _ refl, of j st en rs] rq show ?thesis
      by (auto simp: s' q)
  qed
qed

lemma pool_step_good:
  assumes "pool_step s s'" and "pool_good own s" and "first_lap s" and "first_lap s'"
  shows "\<exists>own'. pool_good own' s'"
  using assms
proof (induction rule: pool_step.induct)
  case (ps_start s)
  then show ?case using start_good by blast
next
  case (ps_acquire s i ok p q)
  then show ?case using acquire_good [OF ps_acquire(3,4,1,2) refl ps_acquire(5)] by blast
next
  case (ps_store s i x p q)
  have "to_long (p_curWriteId (pl_prods s i) + 1) = p_curWriteId (pl_prods s i) + 1"
  proof -
    have g: "owns_granted own s" "owns_prods own s" using ps_store(3) by (simp_all add: pool_good_def)
    have "pl_prods s i \<noteq> Producer_new" using ps_store(1) by (auto simp: Producer_new_def)
    from prodsD(1-4) [OF g(2) this] owned_range [OF g(1), of "p_writeId (pl_prods s i)"]
    have "0 \<le> p_curWriteId (pl_prods s i)" "p_writableId (pl_prods s i) \<le> cq_writeId (pl_circleArray s)"
      by auto
    then show ?thesis using ps_store(1,4) by (intro to_long_id) (auto simp: first_lap_def)
  qed
  then show ?case
    using good_store [OF ps_store(3,4,1) refl refl, of x] ps_store(2)
    by (auto simp: Producer_store_def)
next
  case (ps_take s j st en q)
  then show ?case using take_good [OF ps_take(6,3,4) refl] by blast
next
  case (ps_run s j x ok c q)
  have "to_long (c_readId (pl_conss s j) + 1) = c_readId (pl_conss s j) + 1"
  proof -
    have g: "owns_granted own s" "owns_conss own s" using ps_run(5) by (simp_all add: pool_good_def)
    have "pl_conss s j \<noteq> Consumer_new" using ps_run(3) by (auto simp: Consumer_new_def)
    from conssD(1-3) [OF g(2) this] owned_range [OF g(1), of "c_readableId (pl_conss s j) - 1024"]
    have "0 \<le> c_readId (pl_conss s j)" "c_readableId (pl_conss s j) \<le> cq_writeId (pl_circleArray s)"
      by auto
    then show ?thesis using ps_run(3,6) by (intro to_long_id) (auto simp: first_lap_def)
  qed
  then show ?case
    using good_run [OF ps_run(5,3) refl refl] ps_run(4) by (auto simp: Consumer_fetch_def)
qed

interpretation pool: transition_system "pool_init T" lap_step pool_inv
proof
  fix s s' :: "'a MyThreadPool"
  show "pool_init T s \<Longrightarrow> pool_inv s" by (simp add: pool_init_def pool_new_inv)
  show "pool_inv s \<Longrightarrow> lap_step s s' \<Longrightarrow> pool_inv s'"
    using pool_step_good by (auto simp: pool_inv_def lap_step_def)
qed

section \<open>Whole calls are runs of steps\<close>

text \<open>
  The relation has the loop of the worker threads and the call of the producers: a turn of
  \<open>runInMyThread\<close> that does not wait, and a \<open>Producer::write\<close>, are sequences of steps.
\<close>

lemma write_is_steps:
  assumes "Producer_write x (pl_prods s i) (pl_circleArray s) = (ok, p, q)"
    and grants: "\<And>p q. Producer_acquire (pl_prods s i) (pl_circleArray s) = (True, p, q) \<Longrightarrow>
      p_curWriteId p < p_writableId p"
  shows "\<exists>s'. pool_step\<^sup>*\<^sup>* s s' \<and> pl_circleArray s' = q \<and> pl_prods s' i = p"
proof (cases "p_writableId (pl_prods s i) \<le> p_curWriteId (pl_prods s i)")
  case False
  then have room: "p_curWriteId (pl_prods s i) < p_writableId (pl_prods s i)" by simp
  have "Producer_store x (pl_prods s i) (pl_circleArray s) = (p, q)"
    using assms(1) False by (simp add: Producer_write_def)
  from ps_store [OF room this] show ?thesis by (intro exI conjI) (rule r_into_rtranclp, auto)
next
  case True
  obtain ok1 p1 q1 where acq: "Producer_acquire (pl_prods s i) (pl_circleArray s) = (ok1, p1, q1)"
    by (cases "Producer_acquire (pl_prods s i) (pl_circleArray s)") auto
  let ?s1 = "s\<lparr>pl_circleArray := q1, pl_prods := (pl_prods s)(i := p1)\<rparr>"
  have one: "pool_step s ?s1" using True acq by (rule ps_acquire)
  show ?thesis
  proof (cases ok1)
    case False
    then have "p = p1" "q = q1" using assms(1) True acq by (simp_all add: Producer_write_def)
    then show ?thesis using one by (intro exI [of _ ?s1]) (simp add: r_into_rtranclp)
  next
    case ok1: True
    have "Producer_store x (pl_prods ?s1 i) (pl_circleArray ?s1) = (p, q)"
      using assms(1) True acq ok1 by (simp add: Producer_write_def)
    moreover have "p_curWriteId (pl_prods ?s1 i) < p_writableId (pl_prods ?s1 i)"
      using grants acq ok1 by simp
    ultimately have "pool_step ?s1 (?s1\<lparr>pl_circleArray := q, pl_prods := (pl_prods ?s1)(i := p),
        pl_trace := Wrote i (p_curWriteId (pl_prods ?s1 i)) x # pl_trace ?s1\<rparr>)" (is "pool_step _ ?s2")
      by (intro ps_store)
    with one have "pool_step\<^sup>*\<^sup>* s ?s2" by (meson converse_rtranclp_into_rtranclp r_into_rtranclp)
    then show ?thesis by (intro exI [of _ ?s2]) simp
  qed
qed

lemma turn_is_steps:
  assumes "pool_good own s" and "pl_running s" and "j < pl_threads s" and "first_lap s"
    and turn: "runInMyThread_turn T j s = Some s'"
  shows "lap_step\<^sup>*\<^sup>* s s'"
proof -
  let ?c = "pl_conss s j" and ?q = "pl_circleArray s"
  have g: "owns_granted own s" "owns_queue own s" "owns_conss own s"
    using assms(1) by (simp_all add: pool_good_def)
  show ?thesis
  proof (cases "c_readId ?c < c_readableId ?c")
    case True
    have "?c \<noteq> Consumer_new" using True by (auto simp: Consumer_new_def)
    from conssD(1-3) [OF g(3) this] owned_range [OF g(1), of "c_readableId ?c - 1024"]
    have "0 \<le> c_readId ?c" "c_readableId ?c \<le> cq_writeId ?q" by auto
    then have long: "to_long (c_readId ?c + 1) = c_readId ?c + 1"
      using assms(4) True by (intro to_long_id) (auto simp: first_lap_def)
    have "pool_step s s'"
      using turn ps_run [OF assms(2,3) True] True assms(2)
      by (simp add: runInMyThread_turn_def Consumer_read_def Consumer_fetch_def long)
    moreover have "cq_writeId (pl_circleArray s') = cq_writeId ?q"
      using turn True assms(2) by (auto simp: runInMyThread_turn_def Consumer_read_def Consumer_fetch_def)
    ultimately show ?thesis using assms(4) by (auto simp: lap_step_def first_lap_def)
  next
    case False
    then obtain st en rs where rq: "readable_queue ?q = (st, en) # rs"
      using turn assms(2)
      by (auto simp: runInMyThread_turn_def Consumer_read_def tryReadSpaceByCV_def split: list.splits)
    have "own st = Some OQueue \<and> en = st + 1024"
      using g(2) rq by (auto simp: owns_queue_def)
    then have st: "0 \<le> st" "st + 1024 \<le> cq_writeId ?q" "en = st + 1024"
      using owned_range(1,4) [OF g(1), of st] by auto
    let ?s1 = "s\<lparr>pl_circleArray := ?q\<lparr>readable_queue := rs\<rparr>,
      pl_conss := (pl_conss s)(j := \<lparr>c_readId = st, c_readableId = en\<rparr>)\<rparr>"
    have "tryReadSpaceByCV ?q = Some ((st, en), ?q\<lparr>readable_queue := rs\<rparr>)"
      using rq by (simp add: tryReadSpaceByCV_def)
    then have one: "pool_step s ?s1"
      using ps_take [OF assms(2,3), of st en] False st(1) by simp
    have long: "to_long (st + 1) = st + 1"
      using st assms(4) by (intro to_long_id) (auto simp: first_lap_def)
    have "pool_step ?s1 s'"
      using turn ps_run [of ?s1 j] assms(2,3) st False rq
      by (simp add: runInMyThread_turn_def Consumer_read_def Consumer_fetch_def tryReadSpaceByCV_def long)
    moreover have "cq_writeId (pl_circleArray s') = cq_writeId ?q"
      using turn False rq assms(2)
      by (auto simp: runInMyThread_turn_def Consumer_read_def Consumer_fetch_def tryReadSpaceByCV_def split: if_splits)
    ultimately have "lap_step s ?s1" "lap_step ?s1 s'"
      using one assms(4) by (simp_all add: lap_step_def first_lap_def)
    then show ?thesis by (meson converse_rtranclp_into_rtranclp r_into_rtranclp)
  qed
qed

section \<open>Properties\<close>

lemma pool_reach_good:
  assumes "reach (pool_init T) lap_step s"
  obtains own where "pool_good own s" and "first_lap s"
  using pool.reach_inv [OF assms] that by (auto simp: pool_inv_def)

text \<open>A run of three steps, for the witnesses.\<close>

definition pool_demo :: "nat MyThreadPool" where
  "pool_demo = (MyThreadPool_new 0)\<lparr>
     pl_circleArray := cq_write 0 7 ((CircleQueue_new 0)\<lparr>cq_writeId := 1024\<rparr>),
     pl_prods := (\<lambda>_. Producer_new)(3 := \<lparr>p_writeId = 0, p_curWriteId = 1, p_writableId = 1024\<rparr>),
     pl_trace := [Wrote 3 0 7]\<rparr>"

lemma pool_demo_reach: "reach (pool_init 0) lap_step pool_demo"
proof -
  let ?s0 = "MyThreadPool_new 0 :: nat MyThreadPool"
  let ?p = "\<lparr>p_writeId = 0, p_curWriteId = 0, p_writableId = 1024\<rparr>"
  let ?q = "(CircleQueue_new 0 :: nat CircleQueue)\<lparr>cq_writeId := 1024\<rparr>"
  let ?s1 = "?s0\<lparr>pl_circleArray := ?q, pl_prods := (\<lambda>_. Producer_new)(3 := ?p)\<rparr>"
  have "reach (pool_init 0) lap_step ?s0" by (rule reach_init) (simp add: pool_init_def)
  moreover have "Producer_acquire Producer_new (CircleQueue_new 0 :: nat CircleQueue) = (True, ?p, ?q)"
    using Producer_acquire_grant [OF CircleQueue_new_ok, of Producer_new 0]
    by (simp add: CircleQueue_new_def Producer_new_def published_def)
  then have "pool_step ?s0 ?s1"
    using ps_acquire [of ?s0 3 True ?p ?q] by (simp add: MyThreadPool_new_def Producer_new_def)
  then have "lap_step ?s0 ?s1" by (simp add: lap_step_def first_lap_def)
  moreover have "pool_step ?s1 pool_demo"
    using ps_store [of ?s1 3 7] by (simp add: Producer_store_def pool_demo_def to_long_def MyThreadPool_new_def)
  then have "lap_step ?s1 pool_demo"
    by (simp add: lap_step_def first_lap_def pool_demo_def)
  ultimately show ?thesis by (blast intro: reach_step)
qed

text \<open>Where a task that was stored and not called is.\<close>

lemma stored_where:
  assumes "pool_good own s" and "k \<in> set (wrote_ids (pl_trace s))"
    and "k \<notin> set (ran_ids (pl_trace s))"
  shows "(\<exists>i. p_writeId (pl_prods s i) \<le> k \<and> k < p_curWriteId (pl_prods s i)) \<or>
    (\<exists>(a, b) \<in> set (readable_queue (pl_circleArray s)). a \<le> k \<and> k < b) \<or>
    (\<exists>j. c_readId (pl_conss s j) \<le> k \<and> k < c_readableId (pl_conss s j))"
proof -
  have g: "owns_prods own s" "owns_queue own s" "owns_conss own s" "trace_ok own s"
    using assms(1) by (simp_all add: pool_good_def)
  have st: "stored own s k" and ex: "\<not> executed own s k"
    using assms(2,3) g(4) by (simp_all add: trace_ok_def)
  then obtain o' where o': "own (block_of k) = Some o'" by (auto simp: stored_def split: option.splits)
  note b = block_of_bounds(1,2) [of k]
  show ?thesis
  proof (cases o')
    case (OProd i)
    then have "p_writeId (pl_prods s i) \<le> k" "k < p_curWriteId (pl_prods s i)"
      using prodsD(5) [OF g(1)] o' st b by (auto simp: stored_def)
    then show ?thesis by blast
  next
    case OQueue
    then have "(block_of k, block_of k + 1024) \<in> set (readable_queue (pl_circleArray s))"
      using g(2) o' by (simp add: owns_queue_def)
    then show ?thesis using b by blast
  next
    case (OCons j)
    then have "c_readId (pl_conss s j) \<le> k" "k < c_readableId (pl_conss s j)"
      using conssD(4) [OF g(3)] o' ex b by (auto simp: executed_def)
    then show ?thesis by blast
  next
    case ODone
    then show ?thesis using ex o' b by (simp add: executed_def)
  qed
qed

text \<open>
  C5: Tasks run at most once, and only tasks that were submitted. In every interleaving of
  any number of producers with the worker threads, as long as fewer than 16383 blocks have
  been granted: no slot number is stored twice, none is run twice, and every call that a
  worker thread makes is of the task that a producer had stored under this number before.
\<close>

theorem tasks_run_once:
  assumes "reach (pool_init T) lap_step s"
  shows "distinct (wrote_ids (pl_trace s)) \<and> distinct (ran_ids (pl_trace s)) \<and> causal (pl_trace s)"
proof -
  obtain own where "pool_good own s" using assms by (rule pool_reach_good)
  then show ?thesis by (simp add: pool_good_def trace_ok_def)
qed

theorem tasks_run_once_witness:
  "distinct (wrote_ids (pl_trace pool_demo)) \<and> distinct (ran_ids (pl_trace pool_demo)) \<and>
   causal (pl_trace pool_demo)"
  using tasks_run_once [OF pool_demo_reach] .

text \<open>
  C11: No task is lost on the way. Under the same conditions a task that was stored and has
  not been run is in the block that its producer is still filling, or in a published block,
  or in the block of a worker thread that has not come to it yet.
\<close>

theorem no_task_lost:
  assumes "reach (pool_init T) lap_step s" and "k \<in> set (wrote_ids (pl_trace s))"
    and "k \<notin> set (ran_ids (pl_trace s))"
  shows "(\<exists>i. p_writeId (pl_prods s i) \<le> k \<and> k < p_curWriteId (pl_prods s i)) \<or>
    (\<exists>(a, b) \<in> set (readable_queue (pl_circleArray s)). a \<le> k \<and> k < b) \<or>
    (\<exists>j. c_readId (pl_conss s j) \<le> k \<and> k < c_readableId (pl_conss s j))"
proof -
  obtain own where "pool_good own s" using assms(1) by (rule pool_reach_good)
  then show ?thesis using assms(2,3) by (rule stored_where)
qed

theorem no_task_lost_witness:
  "(\<exists>i. p_writeId (pl_prods pool_demo i) \<le> 0 \<and> 0 < p_curWriteId (pl_prods pool_demo i)) \<or>
    (\<exists>(a, b) \<in> set (readable_queue (pl_circleArray pool_demo)). a \<le> 0 \<and> 0 < b) \<or>
    (\<exists>j. c_readId (pl_conss pool_demo j) \<le> 0 \<and> 0 < c_readableId (pl_conss pool_demo j))"
  by (rule no_task_lost [OF pool_demo_reach]) (simp_all add: pool_demo_def)

end
