(* ===== verification/Process_Mutex.thy ===== *)
theory Process_Mutex
  imports Prelude
begin

text \<open>
  \<open>class ProcessMutex\<close> of \<open>src/Process/ProcessMutex.h\<close>: one byte of shared memory that is
  taken with a compare-and-swap, and a flag \<open>owner\<close> in each process.

  An operation takes the object of the calling process and the byte and returns both. The
  interface that the proxy uses, \<open>tryLock\<close> and \<open>unlock\<close>, is the locale \<open>exclusive_lock\<close>. The
  relation \<open>pm_step\<close> interleaves the processes: one rule per access to the shared byte, so
  that a release is two steps (the assertion with the reset of \<open>owner\<close>, then the swap), and a
  process may die at any time.
\<close>

section \<open>The class\<close>

type_synonym shm_byte = "8 word"

record ProcessMutex =
  pm_shmName :: string
  pm_mutexFd :: int
  pm_owner :: bool

text \<open>
  The constructor of the master: the results of \<open>shm_open\<close>, \<open>ftruncate\<close> and \<open>mmap\<close> are
  arguments, each asserted; the byte is cleared.
\<close>

definition ProcessMutex_master :: "string \<Rightarrow> int \<Rightarrow> int \<Rightarrow> bool \<Rightarrow> (ProcessMutex \<times> shm_byte) result" where
  "ProcessMutex_master shm_name fd res mapped =
     (if fd = -1 then Inl Assert_Fail
      else if res = -1 then Inl Assert_Fail
      else if \<not> mapped then Inl Assert_Fail
      else Inr (\<lparr>pm_shmName = shm_name, pm_mutexFd = fd, pm_owner = False\<rparr>, 0))"

text \<open>The constructor of the workers does not set \<open>owner\<close>: it has the value \<open>junk\<close>.\<close>

definition ProcessMutex_worker :: "bool \<Rightarrow> string \<Rightarrow> int \<Rightarrow> bool \<Rightarrow> ProcessMutex result" where
  "ProcessMutex_worker junk shm_name fd mapped =
     (if \<not> mapped then Inl Assert_Fail
      else Inr \<lparr>pm_shmName = shm_name, pm_mutexFd = fd, pm_owner = junk\<rparr>)"

definition getMutexName :: "ProcessMutex \<Rightarrow> string" where
  [simp]: "getMutexName p = pm_shmName p"

definition getMutexFd :: "ProcessMutex \<Rightarrow> int" where
  [simp]: "getMutexFd p = pm_mutexFd p"

text \<open>The destructor takes the name out of the names of shared memory objects; mappings stay.\<close>

definition ProcessMutex_delete :: "ProcessMutex \<Rightarrow> string set \<Rightarrow> string set" where
  "ProcessMutex_delete p names = names - {pm_shmName p}"

definition compare_and_swap :: "shm_byte \<Rightarrow> shm_byte \<Rightarrow> shm_byte \<Rightarrow> bool \<times> shm_byte" where
  "compare_and_swap old new b = (if b = old then (True, new) else (False, b))"

text \<open>One evaluation of the loop condition of \<open>lock()\<close>; \<open>None\<close> when the process yields.\<close>

definition lock_turn :: "ProcessMutex \<Rightarrow> shm_byte \<Rightarrow> (ProcessMutex \<times> shm_byte) option" where
  "lock_turn p b =
     (if pm_owner p then Some (p, b)
      else let (swapped, b1) = compare_and_swap 0 1 b
           in if swapped then Some (p\<lparr>pm_owner := True\<rparr>, b1) else None)"

definition tryLock :: "ProcessMutex \<Rightarrow> shm_byte \<Rightarrow> bool \<times> ProcessMutex \<times> shm_byte" where
  "tryLock p b =
     (let (swapped, b1) = compare_and_swap 0 1 b
      in if swapped then (True, p\<lparr>pm_owner := True\<rparr>, b1) else (False, p, b1))"

definition unlock_enter :: "ProcessMutex \<Rightarrow> shm_byte \<Rightarrow> ProcessMutex result" where
  "unlock_enter p b =
     (if \<not> (pm_owner p \<and> b = 1) then Inl Assert_Fail else Inr (p\<lparr>pm_owner := False\<rparr>))"

definition unlock_swap :: "shm_byte \<Rightarrow> shm_byte" where
  "unlock_swap b = snd (compare_and_swap 1 0 b)"

definition unlock :: "ProcessMutex \<Rightarrow> shm_byte \<Rightarrow> (ProcessMutex \<times> shm_byte) result" where
  "unlock p b = rbind (unlock_enter p b) (\<lambda>p1. Inr (p1, unlock_swap b))"

section \<open>The interface of its users\<close>

text \<open>
  Objects of type \<open>'p\<close>, one per process, and a shared word. An object \<open>holds\<close> the lock or
  does not; the word is \<open>free\<close> or \<open>busy\<close>.
\<close>

locale exclusive_lock =
  fixes acquire :: "'p \<Rightarrow> 'w \<Rightarrow> bool \<times> 'p \<times> 'w"
    and release :: "'p \<Rightarrow> 'w \<Rightarrow> ('p \<times> 'w) result"
    and holds :: "'p \<Rightarrow> bool"
    and free :: "'w \<Rightarrow> bool"
    and busy :: "'w \<Rightarrow> bool"
  assumes busy_not_free: "busy w \<Longrightarrow> \<not> free w"
    and acquire_free: "free w \<Longrightarrow> \<exists>p' w'. acquire p w = (True, p', w') \<and> holds p' \<and> busy w'"
    and acquire_busy: "\<not> free w \<Longrightarrow> acquire p w = (False, p, w)"
    and release_held: "holds p \<Longrightarrow> busy w \<Longrightarrow>
          \<exists>p' w'. release p w = Inr (p', w') \<and> \<not> holds p' \<and> free w'"
    and release_not_held: "\<not> holds p \<Longrightarrow> release p w = Inl Assert_Fail"
begin

text \<open>No two processes hold the lock, and while one does the word is busy.\<close>

definition exclusive :: "('i \<Rightarrow> 'p) \<Rightarrow> 'w \<Rightarrow> bool" where
  "exclusive ps w \<longleftrightarrow> (\<forall>i j. holds (ps i) \<longrightarrow> holds (ps j) \<longrightarrow> i = j) \<and> (\<forall>i. holds (ps i) \<longrightarrow> busy w)"

lemma exclusiveD:
  assumes "exclusive ps w" and "holds (ps i)"
  shows "busy w" and "holds (ps j) \<Longrightarrow> j = i"
  using assms by (auto simp: exclusive_def)

lemma acquire_exclusive:
  assumes "exclusive ps w" and "acquire (ps i) w = (b, p', w')"
  shows "exclusive (ps(i := p')) w'" and "b \<longleftrightarrow> free w" and "b \<Longrightarrow> holds p' \<and> busy w'"
    and "\<not> b \<Longrightarrow> p' = ps i \<and> w' = w" and "b \<Longrightarrow> \<not> holds (ps j)"
proof -
  have "free w \<Longrightarrow> \<not> holds (ps j)" for j
    using assms(1) busy_not_free by (auto simp: exclusive_def)
  moreover have "free w \<Longrightarrow> b \<and> holds p' \<and> busy w'"
    using acquire_free [of w "ps i"] assms(2) by auto
  moreover have "\<not> free w \<Longrightarrow> \<not> b \<and> p' = ps i \<and> w' = w"
    using acquire_busy [of w "ps i"] assms(2) by auto
  ultimately show "exclusive (ps(i := p')) w'" and "b \<longleftrightarrow> free w" and "b \<Longrightarrow> holds p' \<and> busy w'"
    and "\<not> b \<Longrightarrow> p' = ps i \<and> w' = w" and "b \<Longrightarrow> \<not> holds (ps j)"
    using assms(1) by (cases "free w"; auto simp: exclusive_def)+
qed

lemma release_exclusive:
  assumes "exclusive ps w" and "release (ps i) w = Inr (p', w')"
  shows "exclusive (ps(i := p')) w'" and "holds (ps i)" and "\<not> holds p'" and "free w'"
proof -
  show h: "holds (ps i)" using assms(2) release_not_held [of "ps i" w] by (cases "holds (ps i)") auto
  from release_held [OF h exclusiveD(1) [OF assms(1) h]] assms(2)
  show n: "\<not> holds p'" and "free w'" by auto
  have "\<not> holds (ps j)" if "j \<noteq> i" for j
    using assms(1) h that by (auto simp: exclusive_def)
  then show "exclusive (ps(i := p')) w'"
    using n by (auto simp: exclusive_def)
qed

lemma release_total:
  assumes "exclusive ps w" and "holds (ps i)"
  shows "\<exists>p' w'. release (ps i) w = Inr (p', w')"
  using release_held [OF assms(2) exclusiveD(1) [OF assms]] by blast

end

interpretation pm: exclusive_lock tryLock unlock pm_owner "\<lambda>b. b = 0" "\<lambda>b. b = 1"
  by unfold_locales
    (auto simp: tryLock_def unlock_def unlock_enter_def unlock_swap_def compare_and_swap_def)

section \<open>Processes\<close>

record pm_system =
  ps_byte :: shm_byte
  ps_procs :: "nat \<Rightarrow> ProcessMutex"
  ps_unlocking :: "nat \<Rightarrow> bool"     \<comment> \<open>between the two steps of \<open>unlock\<close>\<close>
  ps_alive :: "nat \<Rightarrow> bool"

definition may_run :: "pm_system \<Rightarrow> nat \<Rightarrow> bool" where
  "may_run s i \<longleftrightarrow> ps_alive s i \<and> \<not> ps_unlocking s i"

inductive pm_step :: "pm_system \<Rightarrow> pm_system \<Rightarrow> bool" where
  pm_lock: "may_run s i \<Longrightarrow> lock_turn (ps_procs s i) (ps_byte s) = Some (p, b) \<Longrightarrow>
     pm_step s (s\<lparr>ps_byte := b, ps_procs := (ps_procs s)(i := p)\<rparr>)"
| pm_tryLock: "may_run s i \<Longrightarrow> tryLock (ps_procs s i) (ps_byte s) = (ok, p, b) \<Longrightarrow>
     pm_step s (s\<lparr>ps_byte := b, ps_procs := (ps_procs s)(i := p)\<rparr>)"
| pm_unlock: "may_run s i \<Longrightarrow> unlock_enter (ps_procs s i) (ps_byte s) = Inr p \<Longrightarrow>
     pm_step s (s\<lparr>ps_procs := (ps_procs s)(i := p), ps_unlocking := (ps_unlocking s)(i := True)\<rparr>)"
| pm_unlocked: "ps_alive s i \<Longrightarrow> ps_unlocking s i \<Longrightarrow>
     pm_step s (s\<lparr>ps_byte := unlock_swap (ps_byte s), ps_unlocking := (ps_unlocking s)(i := False)\<rparr>)"
| pm_die: "pm_step s (s\<lparr>ps_alive := (ps_alive s)(i := False)\<rparr>)"

inductive_cases pm_stepE: "pm_step s t"

text \<open>All processes as their constructors make them, with \<open>owner\<close> false.\<close>

definition pm_init :: "pm_system \<Rightarrow> bool" where
  "pm_init s \<longleftrightarrow> ps_byte s = 0 \<and> (\<forall>i. \<not> pm_owner (ps_procs s i) \<and> \<not> ps_unlocking s i)"

text \<open>Nobody has the byte and it is clear, or one process has it: as the owner or on its way out.\<close>

definition pm_inv :: "pm_system \<Rightarrow> bool" where
  [inv_defs]: "pm_inv s \<longleftrightarrow>
     ps_byte s = 0 \<and> (\<forall>i. \<not> pm_owner (ps_procs s i) \<and> \<not> ps_unlocking s i) \<or>
     ps_byte s = 1 \<and> (\<exists>h. pm_owner (ps_procs s h) \<noteq> ps_unlocking s h \<and>
       (\<forall>i. i \<noteq> h \<longrightarrow> \<not> pm_owner (ps_procs s i) \<and> \<not> ps_unlocking s i))"

lemma pm_invE:
  assumes "pm_inv s"
  obtains (clear) "ps_byte s = 0" "\<And>i. \<not> pm_owner (ps_procs s i)" "\<And>i. \<not> ps_unlocking s i"
  | (held) h where "ps_byte s = 1" "pm_owner (ps_procs s h) \<noteq> ps_unlocking s h"
      "\<And>i. i \<noteq> h \<Longrightarrow> \<not> pm_owner (ps_procs s i)" "\<And>i. i \<noteq> h \<Longrightarrow> \<not> ps_unlocking s i"
  using assms unfolding pm_inv_def by blast

lemma pm_init_inv: "pm_init s \<Longrightarrow> pm_inv s"
  by (simp add: pm_init_def pm_inv_def)

lemmas pm_ops = lock_turn_def tryLock_def unlock_enter_def unlock_swap_def compare_and_swap_def may_run_def

lemma pm_step_inv: "pm_inv s \<Longrightarrow> pm_step s t \<Longrightarrow> pm_inv t"
proof (erule pm_invE, goal_cases)
  case 1
  from 1(1) show ?case
    by (cases rule: pm_step.cases) (use 1 in \<open>auto simp: pm_inv_def pm_ops split: if_splits\<close>)
next
  case (2 h)
  have others: "pm_owner (ps_procs s i) \<Longrightarrow> i = h" "ps_unlocking s i \<Longrightarrow> i = h" for i
    using 2 by blast+
  from 2(1) show ?case
  proof (cases rule: pm_step.cases)
    case (pm_lock i p b)
    then have "i = h" "p = ps_procs s i" "b = 1"
      using 2 others(1) [of i] by (auto simp: pm_ops split: if_splits)
    then show ?thesis using 2 pm_lock(1) unfolding pm_inv_def by (intro disjI2 conjI exI [of _ h]) auto
  next
    case (pm_tryLock i ok p b)
    then have "p = ps_procs s i" "b = 1" using 2(2) by (auto simp: pm_ops split: if_splits)
    then show ?thesis using 2 pm_tryLock(1) unfolding pm_inv_def by (intro disjI2 conjI exI [of _ h]) auto
  next
    case (pm_unlock i p)
    then have "i = h" "\<not> pm_owner p"
      using others(1) [of i] by (auto simp: pm_ops split: if_splits)
    then show ?thesis
      using 2 pm_unlock(1) unfolding pm_inv_def by (intro disjI2 conjI exI [of _ h]) auto
  next
    case (pm_unlocked i)
    then have "i = h" using others(2) [of i] by simp
    then show ?thesis
      using 2 pm_unlocked unfolding pm_inv_def by (intro disjI1 conjI) (auto simp: pm_ops)
  next
    case (pm_die i)
    then show ?thesis using 2 unfolding pm_inv_def by (intro disjI2 conjI exI [of _ h]) auto
  qed
qed

interpretation pms: transition_system pm_init pm_step pm_inv
  by unfold_locales (auto intro: pm_init_inv pm_step_inv)

text \<open>A process that dies while it is the owner stays the owner.\<close>

definition dead_owner :: "nat \<Rightarrow> pm_system \<Rightarrow> bool" where
  "dead_owner i s \<longleftrightarrow> pm_inv s \<and> pm_owner (ps_procs s i) \<and> \<not> ps_alive s i"

lemma pm_owner_unique: "pm_inv s \<Longrightarrow> pm_owner (ps_procs s i) \<Longrightarrow> pm_owner (ps_procs s j) \<Longrightarrow> j = i"
  by (erule pm_invE) metis+

lemma pm_owner_byte: "pm_inv s \<Longrightarrow> pm_owner (ps_procs s i) \<Longrightarrow> ps_byte s = 1"
  by (erule pm_invE) auto

lemma dead_owner_step: "dead_owner i s \<Longrightarrow> pm_step s t \<Longrightarrow> dead_owner i t"
proof -
  assume d: "dead_owner i s" and st: "pm_step s t"
  have "pm_owner (ps_procs t i) \<and> \<not> ps_alive t i"
    using st by (cases rule: pm_step.cases) (use d in \<open>auto simp: dead_owner_def may_run_def\<close>)
  then show ?thesis using d pm_step_inv [OF _ st] by (simp add: dead_owner_def)
qed

lemma dead_owner_steps: "pm_step\<^sup>*\<^sup>* s t \<Longrightarrow> dead_owner i s \<Longrightarrow> dead_owner i t"
  by (induction rule: rtranclp_induct) (auto intro: dead_owner_step)

text \<open>Two processes; the first has taken the lock, and has died in the second state.\<close>

definition pm_fresh :: "pm_system" where
  "pm_fresh = \<lparr>ps_byte = 0,
     ps_procs = (\<lambda>_. \<lparr>pm_shmName = ''m'', pm_mutexFd = 3, pm_owner = False\<rparr>),
     ps_unlocking = (\<lambda>_. False), ps_alive = (\<lambda>_. True)\<rparr>"

definition pm_taken :: "pm_system" where
  "pm_taken = pm_fresh\<lparr>ps_byte := 1,
     ps_procs := (ps_procs pm_fresh)(0 := \<lparr>pm_shmName = ''m'', pm_mutexFd = 3, pm_owner = True\<rparr>)\<rparr>"

definition pm_crashed :: "pm_system" where
  "pm_crashed = pm_taken\<lparr>ps_alive := (ps_alive pm_taken)(0 := False)\<rparr>"

lemma pm_taken_reach: "reach pm_init pm_step pm_taken"
proof -
  have "reach pm_init pm_step pm_fresh" by (rule reach_init) (simp add: pm_init_def pm_fresh_def)
  moreover have "pm_step pm_fresh pm_taken"
    using pm_step.pm_tryLock [of pm_fresh 0 True "\<lparr>pm_shmName = ''m'', pm_mutexFd = 3, pm_owner = True\<rparr>" 1]
    by (simp add: pm_ops pm_fresh_def pm_taken_def)
  ultimately show ?thesis by (rule reach_step)
qed

lemma pm_crashed_reach: "reach pm_init pm_step pm_crashed"
  using reach_step [OF pm_taken_reach pm_step.pm_die] by (simp add: pm_crashed_def)

section \<open>Properties\<close>



text \<open>
  A dead owner is not noticed. When the process that owns the mutex dies, the byte stays 1
  in all that follows: no other process ever becomes the owner, every \<open>tryLock\<close> returns
  false, and no turn of \<open>lock\<close> of another process returns.
\<close>

lemma pm_dead_owner_blocks:
  assumes "reach pm_init pm_step s" and "pm_owner (ps_procs s i)" and "\<not> ps_alive s i"
    and "pm_step\<^sup>*\<^sup>* s t" and "j \<noteq> i"
  shows "\<not> pm_owner (ps_procs t j) \<and> fst (tryLock (ps_procs t j) (ps_byte t)) = False \<and>
    lock_turn (ps_procs t j) (ps_byte t) = None"
proof -
  have "dead_owner i s" using assms(1-3) by (auto simp: dead_owner_def intro: pms.reach_inv)
  then have d: "dead_owner i t" using assms(4) dead_owner_steps by blast
  then have "ps_byte t = 1" using pm_owner_byte by (auto simp: dead_owner_def)
  moreover have "\<not> pm_owner (ps_procs t j)"
    using d pm_owner_unique [of t i j] assms(5) by (auto simp: dead_owner_def)
  ultimately show ?thesis by (simp add: pm_ops)
qed

lemma pm_dead_owner_blocks_example:
  "\<not> pm_owner (ps_procs pm_crashed 1) \<and> fst (tryLock (ps_procs pm_crashed 1) (ps_byte pm_crashed)) = False \<and>
    lock_turn (ps_procs pm_crashed 1) (ps_byte pm_crashed) = None"
  by (rule pm_dead_owner_blocks [OF pm_crashed_reach, of 0])
    (simp_all add: pm_crashed_def pm_taken_def pm_fresh_def)

text \<open>
  A worker's mutex may start as the owner. The constructor of the workers does not set
  \<open>owner\<close>; when the memory happens to be non-zero, \<open>lock\<close> returns at once whatever the byte
  is, and \<open>unlock\<close> takes the mutex away from the process that has it.
\<close>

lemma worker_owner_uninitialised:
  "\<exists>p. ProcessMutex_worker True shm_name fd True = Inr p \<and> (\<forall>b. lock_turn p b = Some (p, b)) \<and>
    unlock p (ps_byte pm_taken) = Inr (p\<lparr>pm_owner := False\<rparr>, 0) \<and> pm_owner (ps_procs pm_taken 0)"
  by (simp add: ProcessMutex_worker_def unlock_def pm_ops pm_taken_def)

end
