(* ===== verification/Proxy_Server.thy ===== *)
theory Proxy_Server
  imports Tcp_Server Tunnel Thread_Pool Process_Mutex
begin

text \<open>
  \<open>class ProxyServer\<close> of \<open>src/ProxyServer/ProxyServer.h\<close>, \<open>ProxyServer.cpp\<close>: it owns the
  server, the cache, the task queue and the tunnels, and forwards the requests of browsers.

  \<open>onServerMessage\<close> copies the input of a connection and queues a task; \<open>solveOnMessage\<close> is that
  task, run by a worker thread while the IO threads go on. Its loop is a function of what the
  thread observes in each turn: whether the connection is up, the context of the connection
  (which \<open>Tunnel::onClientConnection\<close> sets in another thread), the bytes that the IO thread has
  appended to the connection's buffer since, and the time. A run over a list of observations
  tells whether the loop has ended, so that a loop that does not end is a run that is still
  going after any number of turns.
\<close>

section \<open>The server object\<close>

record ProxyServer =
  px_serverName :: string
  px_isStart :: bool
  px_pMutex :: ProcessMutex
  px_cache :: Cache
  px_server :: "(int, nat) TcpServer"
  px_tunnels :: "string \<rightharpoonup> Tunnel"
  px_threadpool :: "(string \<times> string) MyThreadPool"

definition DEFAULT_CACHE_CAPACITY :: "32 word" where
  "DEFAULT_CACHE_CAPACITY = 128"

definition DEFAULT_REDIS_PASSWD :: string where
  "DEFAULT_REDIS_PASSWD = ''Q85610034q''"

definition DEFAULT_REDIS_IP :: string where
  "DEFAULT_REDIS_IP = ''127.0.0.1''"

definition DEFAULT_REDIS_PORT :: int where
  "DEFAULT_REDIS_PORT = 6379"

definition DEFAULT_EXPIRED_TIME :: int where
  "DEFAULT_EXPIRED_TIME = 20"

text \<open>The uninitialised members of its parts and the spare descriptor are arguments.\<close>

definition ProxyServer_new :: "64 word \<Rightarrow> int \<Rightarrow> int \<Rightarrow> loop_ptr \<Rightarrow> string \<Rightarrow> string \<Rightarrow> ProcessMutex \<Rightarrow> ProxyServer result" where
  "ProxyServer_new junk_size junk_time idle loop address server_name mutex =
     rbind (TcpServer_new junk_time loop address ''proxy'' idle) (\<lambda>srv.
       Inr \<lparr>px_serverName = server_name, px_isStart = False, px_pMutex = mutex,
            px_cache = Cache_new junk_size DEFAULT_CACHE_CAPACITY DEFAULT_EXPIRED_TIME
              DEFAULT_REDIS_PASSWD DEFAULT_REDIS_IP DEFAULT_REDIS_PORT,
            px_server = srv, px_tunnels = Map.empty, px_threadpool = MyThreadPool_new ([], [])\<rparr>)"

definition setIOThreadNum :: "int \<Rightarrow> ProxyServer \<Rightarrow> ProxyServer result" where
  "setIOThreadNum n s = rbind (TcpServer_setThreadNum n (px_server s)) (\<lambda>srv. Inr (s\<lparr>px_server := srv\<rparr>))"

definition setHandler :: "int \<Rightarrow> ProxyServer \<Rightarrow> ProxyServer" where
  "setHandler cb s = s\<lparr>px_server := setSchedulCallback cb (px_server s)\<rparr>"

text \<open>
  \<open>threadInitCallback\<close> makes a producer and assigns it to its parameter: the world, the number
  of producers nobody refers to, grows by one.
\<close>

definition threadInitCallback :: "nat thread_init" where
  "threadInitCallback producer loop lost = Suc lost"

definition with_callbacks :: "('h, nat) TcpServer \<Rightarrow> ('h, nat) TcpServer" where
  "with_callbacks srv = setConnectionCallback (Bound_Callback ''onServerConnection'')
     (setMessageCallback (Bound_Callback ''onServerMessage'')
       (setThreadInitWithProducerCallback threadInitCallback srv))"

lemmas callback_setters = with_callbacks_def setConnectionCallback_def setMessageCallback_def
  setThreadInitWithProducerCallback_def

lemma with_callbacks_fields [simp]:
  "ts_started (with_callbacks s) = ts_started s" "ts_acceptor (with_callbacks s) = ts_acceptor s"
  "ts_threadPool (with_callbacks s) = ts_threadPool s"
  "ts_threadInitWithProducerCallback (with_callbacks s) = Some threadInitCallback"
  by (simp_all add: callback_setters)

definition enableListen :: "(nat \<Rightarrow> loop_ptr) \<Rightarrow> (nat \<Rightarrow> producer_ptr) \<Rightarrow> int \<Rightarrow> ProxyServer \<Rightarrow> nat
    \<Rightarrow> (ProxyServer \<times> nat) result" where
  "enableListen addr junk now s lost =
     (if \<not> px_isStart s
      then rbind (TcpServer_start addr junk now (with_callbacks (px_server s)) lost) (\<lambda>(srv, lost1).
        Inr (s\<lparr>px_server := srv, px_isStart := True\<rparr>, lost1))
      else Inr (s\<lparr>px_server := acceptorSchedulingHandler now (px_server s)\<rparr>, lost))"

definition ProxyServer_start :: "(nat \<Rightarrow> loop_ptr) \<Rightarrow> (nat \<Rightarrow> producer_ptr) \<Rightarrow> int \<Rightarrow> ProxyServer \<Rightarrow> shm_byte \<Rightarrow> nat
    \<Rightarrow> (ProxyServer \<times> shm_byte \<times> nat) result" where
  "ProxyServer_start addr junk now s b lost =
     (let s1 = s\<lparr>px_threadpool := MyThreadPool_start (px_threadpool s)\<rparr>;
          (locked, m, b1) = tryLock (px_pMutex s1) b;
          s2 = s1\<lparr>px_pMutex := m\<rparr>
      in if locked
         then rbind (enableListen addr junk now s2 lost) (\<lambda>(s3, lost1). Inr (s3, b1, lost1))
         else Inr (s2, b1, lost))"

definition onServerConnection :: "bool \<Rightarrow> conn_id \<Rightarrow> string \<Rightarrow> ProxyServer \<Rightarrow> conn_action list \<times> ProxyServer" where
  "onServerConnection connected conn nm s =
     (if connected
      then (if 1 < (1024 * 1024 * 256 :: int) then ([Set_Tcp_No_Delay conn, Start_Read conn], s)
            else ([Shutdown conn, Force_Close conn], s))
      else (case px_tunnels s nm of
              None \<Rightarrow> ([], s)
            | Some t \<Rightarrow> (Tunnel_disconnect, s\<lparr>px_tunnels := (px_tunnels s)(nm := None)\<rparr>)))"

text \<open>
  \<open>heap\<close> has the producers that exist; the task is the name of the connection with a copy of
  its input. The answer of \<open>Producer::write\<close> is dropped.
\<close>

definition onServerMessage :: "(producer_ptr \<rightharpoonup> Producer) \<Rightarrow> loop_ptr \<Rightarrow> string \<Rightarrow> string \<Rightarrow> ProxyServer
    \<Rightarrow> ((producer_ptr \<rightharpoonup> Producer) \<times> ProxyServer) result" where
  "onServerMessage heap ioLoop nm input s =
     (case pool_getProducer ioLoop (TcpServer_threadPool (px_server s)) of
        None \<Rightarrow> Inr (heap, s)
      | Some ptr \<Rightarrow>
          (case heap ptr of
             None \<Rightarrow> Inl Bad_Pointer
           | Some p \<Rightarrow>
               let (b, p1, q) = Producer_write (nm, input) p (pl_circleArray (px_threadpool s))
               in Inr (heap(ptr \<mapsto> p1), s\<lparr>px_threadpool := (px_threadpool s)\<lparr>pl_circleArray := q\<rparr>\<rparr>)))"

section \<open>\<open>solveOnMessage\<close>\<close>

record observation =
  ob_connected :: bool
  ob_context :: "conn_id option"
  ob_arrived :: string
  ob_now :: "64 word"

record 's solve_vars =
  sv_context :: HttpContext
  sv_info :: int
  sv_isCheck :: bool
  sv_buff :: string                     \<comment> \<open>the task's own copy\<close>
  sv_buf :: string                      \<comment> \<open>the readable bytes of the connection's buffer\<close>
  sv_tunnels :: "string \<rightharpoonup> Tunnel"
  sv_cache :: Cache
  sv_renv :: "'s renv"
  sv_acts :: "conn_action list"

definition solve_init :: "string \<Rightarrow> string \<Rightarrow> (string \<rightharpoonup> Tunnel) \<Rightarrow> Cache \<Rightarrow> 's renv \<Rightarrow> 's solve_vars" where
  "solve_init buf buff tns cache e = \<lparr>sv_context = HttpContext_new, sv_info = 0, sv_isCheck = False,
     sv_buff = buff, sv_buf = buf, sv_tunnels = tns, sv_cache = cache, sv_renv = e, sv_acts = []\<rparr>"

text \<open>The condition of the loop; it parses only when the first disjunct is false.\<close>

definition solve_test :: "observation \<Rightarrow> 's solve_vars \<Rightarrow> (bool \<times> 's solve_vars) result" where
  "solve_test ob v =
     (if sv_isCheck v then Inr (True, v)
      else if \<not> ob_connected ob then Inr (False, v)
      else rbind (parseRequest (sv_buff v) (sv_context v)) (\<lambda>((ok, n), c).
        Inr (ok, v\<lparr>sv_context := c, sv_info := n\<rparr>)))"

text \<open>\<open>buf->retrieve(n)\<close> (which asserts that so many bytes are there) and the erasure from \<open>buff\<close>.\<close>

definition retrieve :: "int \<Rightarrow> 's solve_vars \<Rightarrow> 's solve_vars result" where
  "retrieve n v =
     (if n < 0 \<or> int (length (sv_buf v)) < n then Inl Assert_Fail
      else Inr (v\<lparr>sv_buf := drop (nat n) (sv_buf v), sv_acts := sv_acts v @ [Retrieve (nat n)]\<rparr>))"

definition erase_buff :: "int \<Rightarrow> 's solve_vars \<Rightarrow> 's solve_vars result" where
  "erase_buff n v =
     (if n < 0 \<or> int (length (sv_buff v)) < n then Inl Out_Of_Bounds
      else Inr (v\<lparr>sv_buff := drop (nat n) (sv_buff v)\<rparr>))"

definition solve_reset :: "'s solve_vars \<Rightarrow> 's solve_vars" where
  "solve_reset v = v\<lparr>sv_context := HttpContext_reset (sv_context v)\<rparr>"

text \<open>Lines 108-123: the answer from the cache; the flag says whether the turn is over.\<close>

definition solve_cached :: "'s hiredis \<Rightarrow> nat \<Rightarrow> conn_id \<Rightarrow> observation \<Rightarrow> 's solve_vars
    \<Rightarrow> (bool \<times> 's solve_vars) result" where
  "solve_cached H thr conn ob v =
     (if getRequestMethod (sv_context v) = GetMethod
      then rbind (Cache_readCache H thr (ob_now ob) (getRequestUrl (sv_context v)) (sv_cache v) (sv_renv v))
        (\<lambda>(content, cache, e).
          let v1 = v\<lparr>sv_cache := cache, sv_renv := e\<rparr>
          in if content \<noteq> []
             then rbind (retrieve (sv_info v1) (v1\<lparr>sv_acts := sv_acts v1 @ [Send conn (createResponse content)]\<rparr>)) (\<lambda>v2.
               rbind (erase_buff (sv_info v2) v2) (\<lambda>v3. Inr (True, (solve_reset v3)\<lparr>sv_isCheck := False\<rparr>)))
             else Inr (False, v1))
      else Inr (False, v))"

text \<open>Lines 124-135: a tunnel is made.\<close>

definition solve_tunnel :: "conn_id \<Rightarrow> string \<Rightarrow> 's solve_vars \<Rightarrow> 's solve_vars result" where
  "solve_tunnel conn nm v =
     (let t = Tunnel_new conn
      in rbind (Tunnel_setup t) (\<lambda>as.
        Inr (v\<lparr>sv_acts := sv_acts v @ as @ Tunnel_connect, sv_tunnels := (sv_tunnels v)(nm \<mapsto> t),
               sv_isCheck := True\<rparr>)))"

text \<open>Lines 139-161: the request is sent to the web server.\<close>

definition solve_forward :: "conn_id \<Rightarrow> string \<Rightarrow> 's solve_vars \<Rightarrow> 's solve_vars result" where
  "solve_forward clientConn nm v =
     deref (sv_tunnels v nm) (\<lambda>t.
       let n = sv_info v;
           t1 = pushCache (getRequestUrl (sv_context v)) (\<not> hasCookie (sv_context v)) t;
           v1 = v\<lparr>sv_tunnels := (sv_tunnels v)(nm \<mapsto> t1)\<rparr>
       in if n < 0 \<or> int (length (sv_buff v1)) < n then Inl Out_Of_Bounds
          else let v2 = v1\<lparr>sv_acts := sv_acts v1 @ [Send clientConn (take (nat n) (sv_buff v1))]\<rparr>;
                   whole = sv_buf v2
               in rbind (retrieve n v2) (\<lambda>v3.
                    let v4 = solve_reset v3;
                        http = take (nat n) (sv_buff v4)
                    in rbind (erase_buff n v4) (\<lambda>v5.
                         if whole \<noteq> http then Inl Assert_Fail
                         else Inr (v5\<lparr>sv_isCheck := False\<rparr>))))"

text \<open>Lines 164-174: after the loop.\<close>

definition solve_finish :: "conn_id \<Rightarrow> string \<Rightarrow> 's solve_vars \<Rightarrow> 's solve_vars" where
  "solve_finish conn nm v =
     (if 1024 * 1024 * 10 < length (sv_buf v)
      then (let v1 = (if sv_tunnels v nm \<noteq> None
                      then v\<lparr>sv_acts := sv_acts v @ Tunnel_disconnect, sv_tunnels := (sv_tunnels v)(nm := None)\<rparr>
                      else v)
            in v1\<lparr>sv_acts := sv_acts v1 @ [Shutdown conn, Force_Close conn]\<rparr>)
      else v)"

text \<open>One turn; the flag says that the loop has ended.\<close>

definition solve_turn :: "'s hiredis \<Rightarrow> nat \<Rightarrow> conn_id \<Rightarrow> string \<Rightarrow> observation \<Rightarrow> 's solve_vars
    \<Rightarrow> (bool \<times> 's solve_vars) result" where
  "solve_turn H thr conn nm ob v0 =
     rbind (solve_test ob (v0\<lparr>sv_buf := sv_buf v0 @ ob_arrived ob\<rparr>)) (\<lambda>(go, v).
       if \<not> go then Inr (True, solve_finish conn nm v)
       else rbind (solve_cached H thr conn ob v) (\<lambda>(continue, v1).
         if continue then Inr (False, v1)
         else if \<not> sv_isCheck v1 \<and> ob_context ob = None
              then rbind (solve_tunnel conn nm v1) (\<lambda>v2. Inr (False, v2))
              else (case ob_context ob of
                      Some c \<Rightarrow> rbind (solve_forward c nm v1) (\<lambda>v2. Inr (False, v2))
                    | None \<Rightarrow> Inr (False, v1))))"

fun solve_run :: "'s hiredis \<Rightarrow> nat \<Rightarrow> conn_id \<Rightarrow> string \<Rightarrow> observation list \<Rightarrow> 's solve_vars
    \<Rightarrow> (bool \<times> 's solve_vars) result" where
  "solve_run H thr conn nm [] v = Inr (False, v)"
| "solve_run H thr conn nm (ob # obs) v =
     rbind (solve_turn H thr conn nm ob v) (\<lambda>(ended, v1).
       if ended then Inr (True, v1) else solve_run H thr conn nm obs v1)"

section \<open>A request in the buffer\<close>

text \<open>A well-formed request: a method and a url, other headers, a body.\<close>

definition request_ok :: "string \<Rightarrow> string \<Rightarrow> string \<Rightarrow> (string \<times> string) list \<Rightarrow> string \<Rightarrow> string \<Rightarrow> bool" where
  "request_ok m u ver hs body rest \<longleftrightarrow> token_ok m \<and> token_ok u \<and> LF \<notin> set ver \<and>
     (\<forall>h \<in> set hs. header_ok h) \<and> length (http_request m u ver hs body @ rest) < 2 ^ 31"

lemma parse_request_ok:
  assumes "request_ok m u ver hs body rest"
  shows "parseRequest (http_request m u ver hs body @ rest) HttpContext_new =
    Inr ((True, int (length (http_request m u ver hs body))),
         \<lparr>hc_state = kExpectBody, request_method = m, request_url = u, hc_hasCookie = True\<rparr>)"
  using assms spec_parse_render [of m u ver hs body rest HttpContext_new]
  by (simp add: request_ok_def parseRequest_spec HttpContext_new_def)

lemma solve_test_request:
  assumes "request_ok m u ver hs body rest" and "ob_connected ob"
    and "sv_buff v = http_request m u ver hs body @ rest" and "sv_context v = HttpContext_new"
    and "\<not> sv_isCheck v"
  shows "solve_test ob v = Inr (True, v\<lparr>
      sv_context := \<lparr>hc_state = kExpectBody, request_method = m, request_url = u, hc_hasCookie = True\<rparr>,
      sv_info := int (length (http_request m u ver hs body))\<rparr>)"
  using parse_request_ok [OF assms(1)] assms(2-5) by (simp add: solve_test_def)

text \<open>The turn that forwards it, when the connection to the web server is there.\<close>

lemma solve_turn_forward:
  assumes "request_ok m u ver hs body rest" and "ob_connected ob" and "ob_context ob = Some c"
    and "ob_arrived ob = []" and "m \<noteq> GetMethod" and "tns nm = Some t"
  shows "solve_turn H thr conn nm ob
      (solve_init (http_request m u ver hs body @ rest) (http_request m u ver hs body @ rest) tns cache e) =
    (if rest = []
     then Inr (False, (solve_init [] [] (tns(nm \<mapsto> pushCache u False t)) cache e)\<lparr>
            sv_info := int (length (http_request m u ver hs body)),
            sv_acts := [Send c (http_request m u ver hs body), Retrieve (length (http_request m u ver hs body))]\<rparr>)
     else Inl Assert_Fail)"
proof -
  let ?r = "http_request m u ver hs body"
  let ?v = "solve_init (?r @ rest) (?r @ rest) tns cache e"
  let ?w = "?v\<lparr>
      sv_context := \<lparr>hc_state = kExpectBody, request_method = m, request_url = u, hc_hasCookie = True\<rparr>,
      sv_info := int (length ?r)\<rparr>"
  have v: "?v\<lparr>sv_buf := sv_buf ?v @ ob_arrived ob\<rparr> = ?v" using assms(4) by (simp add: solve_init_def)
  have test: "solve_test ob ?v = Inr (True, ?w)"
    by (rule solve_test_request [OF assms(1,2)]) (simp_all add: solve_init_def)
  have cached: "solve_cached H thr conn ob ?w = Inr (False, ?w)"
    using assms(5) by (simp add: solve_cached_def)
  have fwd: "solve_forward c nm ?w = (if rest = []
      then Inr ((solve_init [] [] (tns(nm \<mapsto> pushCache u False t)) cache e)\<lparr>
            sv_info := int (length ?r), sv_acts := [Send c ?r, Retrieve (length ?r)]\<rparr>)
      else Inl Assert_Fail)"
    using assms(6)
    by (simp add: solve_forward_def solve_init_def deref_def retrieve_def erase_buff_def solve_reset_def
        HttpContext_reset_def HttpContext_new_def hasCookie_def Let_def)
  show ?thesis
    unfolding solve_turn_def v test
    using cached fwd assms(3) by simp
qed

lemma solve_test_empty:
  assumes "sv_buff v = []" and "\<not> sv_isCheck v"
  shows "\<exists>v'. solve_test ob v = Inr (False, v') \<and> sv_buf v' = sv_buf v \<and> sv_buff v' = [] \<and>
    sv_tunnels v' = sv_tunnels v \<and> sv_cache v' = sv_cache v \<and> sv_renv v' = sv_renv v \<and> sv_acts v' = sv_acts v"
  using assms by (simp add: solve_test_def parseRequest_spec spec_parse_def)

lemma solve_turn_waits:
  assumes "sv_isCheck v" and "ob_context ob = None" and "ob_arrived ob = []"
    and "request_method (sv_context v) \<noteq> GetMethod"
  shows "solve_turn H thr conn nm ob v = Inr (False, v)"
proof -
  have "v\<lparr>sv_buf := sv_buf v @ ob_arrived ob\<rparr> = v" using assms(3) by simp
  then show ?thesis
    using assms by (simp add: solve_turn_def solve_test_def solve_cached_def)
qed

lemma solve_run_waits:
  assumes "sv_isCheck v" and "request_method (sv_context v) \<noteq> GetMethod"
    and "\<forall>ob \<in> set obs. ob_context ob = None \<and> ob_arrived ob = []"
  shows "solve_run H thr conn nm obs v = Inr (False, v)"
  using assms(3)
proof (induction obs)
  case (Cons ob obs)
  then show ?case using solve_turn_waits [OF assms(1) _ _ assms(2)] by simp
qed simp

text \<open>The turn that makes a tunnel: afterwards the task waits for its connection.\<close>

definition tunnel_opened :: "string \<Rightarrow> conn_id \<Rightarrow> string \<Rightarrow> string \<Rightarrow> (string \<rightharpoonup> Tunnel) \<Rightarrow> 's solve_vars \<Rightarrow> bool" where
  "tunnel_opened m conn nm input tns v \<longleftrightarrow> sv_isCheck v \<and> request_method (sv_context v) = m \<and> sv_buff v = input \<and>
     sv_acts v = [Set_Client_Callbacks, Set_High_Water_Mark conn kServer HIGH_WATER, Client_Connect] \<and>
     sv_tunnels v = tns(nm \<mapsto> Tunnel_new conn)"

lemma solve_turn_opens:
  assumes "request_ok m u ver hs body rest" and "m \<noteq> GetMethod" and "ob_connected ob"
    and "ob_context ob = None" and "ob_arrived ob = []"
  shows "\<exists>v. solve_turn H thr conn nm ob
      (solve_init (http_request m u ver hs body @ rest) (http_request m u ver hs body @ rest) tns cache e) = Inr (False, v) \<and>
    tunnel_opened m conn nm (http_request m u ver hs body @ rest) tns v \<and> sv_cache v = cache \<and> sv_renv v = e \<and>
    sv_buf v = http_request m u ver hs body @ rest \<and> sv_info v = int (length (http_request m u ver hs body))"
proof -
  let ?r = "http_request m u ver hs body"
  let ?v = "solve_init (?r @ rest) (?r @ rest) tns cache e"
  let ?w = "?v\<lparr>
      sv_context := \<lparr>hc_state = kExpectBody, request_method = m, request_url = u, hc_hasCookie = True\<rparr>,
      sv_info := int (length ?r)\<rparr>"
  let ?w' = "?w\<lparr>sv_acts := [Set_Client_Callbacks, Set_High_Water_Mark conn kServer HIGH_WATER, Client_Connect],
      sv_tunnels := tns(nm \<mapsto> Tunnel_new conn), sv_isCheck := True\<rparr>"
  have v: "?v\<lparr>sv_buf := sv_buf ?v @ ob_arrived ob\<rparr> = ?v" using assms(5) by (simp add: solve_init_def)
  have test: "solve_test ob ?v = Inr (True, ?w)"
    by (rule solve_test_request [OF assms(1,3)]) (simp_all add: solve_init_def)
  have "solve_tunnel conn nm ?w = Inr ?w'"
    by (simp add: solve_tunnel_def Tunnel_setup_def Tunnel_new_def Tunnel_connect_def deref_def solve_init_def)
  then have "solve_turn H thr conn nm ob ?v = Inr (False, ?w')"
    unfolding solve_turn_def v test
    using assms(2,4) by (simp add: solve_cached_def solve_init_def)
  then show ?thesis by (simp add: tunnel_opened_def solve_init_def)
qed

text \<open>The next turn, when the tunnel has connected and the buffer has the same request only.\<close>

lemma solve_turn_resumes:
  assumes "sv_isCheck v" and "request_method (sv_context v) \<noteq> GetMethod" and "ob_context ob = Some d"
    and "ob_arrived ob = []" and "sv_tunnels v nm = Some t" and "sv_info v = int (length (sv_buff v))"
    and "sv_buf v = sv_buff v"
  shows "\<exists>w. solve_turn H thr conn nm ob v = Inr (False, w) \<and> Send d (sv_buff v) \<in> set (sv_acts w)"
proof -
  have "v\<lparr>sv_buf := sv_buf v @ ob_arrived ob\<rparr> = v" using assms(4) by simp
  then show ?thesis
    using assms
    by (simp add: solve_turn_def solve_test_def solve_cached_def solve_forward_def retrieve_def erase_buff_def
        solve_reset_def deref_def Let_def)
qed

section \<open>Properties\<close>

text \<open>
  C18: A request is forwarded unchanged and once. When the browser's buffer has exactly one
  well-formed request with a method other than "Get" (so also a "GET"), and its tunnel is
  connected, the task sends these bytes to the web server, consumes them, queues the url as not
  cacheable, and ends; neither cache is touched.
\<close>

theorem solve_forwards:
  assumes "request_ok m u ver hs body []" and "m \<noteq> GetMethod" and "tns nm = Some t"
    and "ob_connected ob" and "ob_context ob = Some c" and "ob_arrived ob = []" and "ob_arrived ob' = []"
  shows "\<exists>v. solve_run H thr conn nm [ob, ob']
      (solve_init (http_request m u ver hs body) (http_request m u ver hs body) tns cache e) = Inr (True, v) \<and>
    sv_acts v = [Send c (http_request m u ver hs body), Retrieve (length (http_request m u ver hs body))] \<and>
    sv_buf v = [] \<and> sv_buff v = [] \<and> sv_tunnels v = tns(nm \<mapsto> pushCache u False t) \<and>
    sv_cache v = cache \<and> sv_renv v = e"
proof -
  let ?r = "http_request m u ver hs body"
  let ?v = "(solve_init [] [] (tns(nm \<mapsto> pushCache u False t)) cache e)\<lparr>
      sv_info := int (length ?r), sv_acts := [Send c ?r, Retrieve (length ?r)]\<rparr>"
  have one: "solve_turn H thr conn nm ob (solve_init ?r ?r tns cache e) = Inr (False, ?v)"
    using solve_turn_forward [where tns = tns and nm = nm and H = H and thr = thr and conn = conn and cache = cache and e = e,
        OF assms(1,4-6,2,3)] by simp
  have v: "?v\<lparr>sv_buf := sv_buf ?v @ ob_arrived ob'\<rparr> = ?v" using assms(7) by (simp add: solve_init_def)
  obtain v' where v': "solve_test ob' ?v = Inr (False, v')" "sv_buf v' = []" "sv_buff v' = []"
      "sv_tunnels v' = tns(nm \<mapsto> pushCache u False t)" "sv_cache v' = cache" "sv_renv v' = e"
      "sv_acts v' = [Send c ?r, Retrieve (length ?r)]"
    using solve_test_empty [of ?v ob'] by (auto simp: solve_init_def)
  have "solve_turn H thr conn nm ob' ?v = Inr (True, v')"
    unfolding solve_turn_def v v'(1) using v'(2) by (simp add: solve_finish_def)
  then show ?thesis using one v' by simp
qed

definition demo_request :: string where
  "demo_request = http_request ''GET'' ''/x'' ''HTTP/1.1'' [] ''abc''"

definition demo_obs :: "conn_id option \<Rightarrow> observation" where
  "demo_obs c = \<lparr>ob_connected = True, ob_context = c, ob_arrived = [], ob_now = 0\<rparr>"

lemma demo_request_ok:
  "request_ok ''GET'' ''/x'' ''HTTP/1.1'' [] ''abc'' []" "request_ok ''GET'' ''/x'' ''HTTP/1.1'' [] ''abc'' ''GET''"
  by (simp_all add: request_ok_def token_ok_def LF_def http_request_def http_head_def header_line_def
      CRLF_def to_string_nat_small)

theorem solve_forwards_witness:
  "\<exists>v. solve_run demo_redis 1 2 ''c'' [demo_obs (Some 3), demo_obs None]
      (solve_init demo_request demo_request [''c'' \<mapsto> Tunnel_new 2] demo_cache demo_env) = Inr (True, v) \<and>
    sv_acts v = [Send 3 demo_request, Retrieve (length demo_request)]"
  using solve_forwards [OF demo_request_ok(1), of "[''c'' \<mapsto> Tunnel_new 2]" "''c''" "Tunnel_new 2"
      "demo_obs (Some 3)" 3 "demo_obs None" demo_redis 1 2 demo_cache demo_env]
  unfolding demo_request_def [symmetric]
  by (simp add: demo_obs_def GetMethod_def del: solve_run.simps) blast



text \<open>
  C38: A worker spins until the web server has answered. The first request of a browser makes
  a tunnel, starts to connect it, and keeps the worker thread in the loop for as many turns as
  the connection takes to come up: if it never does, for ever, also after the browser has gone.
\<close>

theorem solve_spins:
  assumes "request_ok m u ver hs body rest" and "m \<noteq> GetMethod" and "ob_connected ob"
    and "\<forall>ob' \<in> set (ob # obs). ob_context ob' = None \<and> ob_arrived ob' = []"
  shows "\<exists>v. solve_run H thr conn nm (ob # obs)
      (solve_init (http_request m u ver hs body @ rest) (http_request m u ver hs body @ rest) tns cache e) =
        Inr (False, v) \<and>
    sv_acts v = [Set_Client_Callbacks, Set_High_Water_Mark conn kServer HIGH_WATER, Client_Connect] \<and>
    sv_tunnels v = tns(nm \<mapsto> Tunnel_new conn) \<and> sv_buff v = http_request m u ver hs body @ rest"
proof -
  obtain v where v: "solve_turn H thr conn nm ob
      (solve_init (http_request m u ver hs body @ rest) (http_request m u ver hs body @ rest) tns cache e) = Inr (False, v)"
    and w: "tunnel_opened m conn nm (http_request m u ver hs body @ rest) tns v"
    using solve_turn_opens [OF assms(1,2,3)] assms(4) by fastforce
  have "solve_run H thr conn nm obs v = Inr (False, v)"
    using assms(2,4) w by (intro solve_run_waits) (simp_all add: tunnel_opened_def)
  then show ?thesis using v w by (simp add: tunnel_opened_def)
qed

theorem solve_spins_witness:
  "\<exists>v. solve_run demo_redis 1 2 ''c'' (demo_obs None # replicate 1000 (demo_obs None\<lparr>ob_connected := False\<rparr>))
      (solve_init (demo_request @ []) (demo_request @ []) Map.empty demo_cache demo_env) = Inr (False, v) \<and>
    sv_acts v = [Set_Client_Callbacks, Set_High_Water_Mark 2 kServer HIGH_WATER, Client_Connect] \<and>
    sv_tunnels v = [''c'' \<mapsto> Tunnel_new 2] \<and> sv_buff v = demo_request @ []"
  unfolding demo_request_def
  by (rule solve_spins [OF demo_request_ok(1)]) (auto simp: demo_obs_def GetMethod_def)

section \<open>A worker that has just started\<close>

definition launch :: "int \<Rightarrow> loop_ptr \<Rightarrow> string \<Rightarrow> ProcessMutex \<Rightarrow> nat \<Rightarrow> (nat \<Rightarrow> loop_ptr) \<Rightarrow> (nat \<Rightarrow> producer_ptr) \<Rightarrow> int
    \<Rightarrow> (ProxyServer \<times> shm_byte \<times> nat) result" where
  "launch idle loop address mutex n addr junk now =
     rbind (ProxyServer_new 0 0 idle loop address ''proxy'' mutex) (\<lambda>s0.
       rbind (setIOThreadNum (int n) s0) (\<lambda>s1. ProxyServer_start addr junk now s1 0 0))"

lemma lost_producers: "fold (run_init (Some threadInitCallback) addr junk) is lost = lost + length is"
  by (induction "is" arbitrary: lost) (simp_all add: run_init_def threadInitCallback_def)

lemma launch_run:
  assumes "0 \<le> idle"
  shows "\<exists>s. launch idle loop address mutex n addr junk now = Inr (s, 1, n) \<and>
    px_isStart s \<and> pm_owner (px_pMutex s) \<and> ac_listenning (ts_acceptor (px_server s)) \<and>
    ts_notifyOther (px_server s) = None \<and>
    cc_message (callbacks_of (px_server s)) = Some (Bound_Callback ''onServerMessage'') \<and>
    ep_ProducerMap (ts_threadPool (px_server s)) = fold (\<lambda>i m. m(addr i \<mapsto> junk i)) [0..<n] Map.empty"
proof -
  obtain p where p: "pool_start (Some threadInitCallback) addr junk (fresh_pool loop ''proxy'' n) 0 = Inr (p, n)"
      "ep_ProducerMap p = fold (\<lambda>i m. m(addr i \<mapsto> junk i)) [0..<n] Map.empty"
    using pool_start_fresh [of "Some threadInitCallback" addr junk loop "''proxy''" n 0]
    by (auto simp: lost_producers)
  have "pool_setThreadNum (int n) (EventLoopThreadPool_new loop ''proxy'') = fresh_pool loop ''proxy'' n"
    by (simp add: fresh_pool_def)
  then show ?thesis
    using assms p
    by (simp add: launch_def ProxyServer_new_def TcpServer_new_def Acceptor_new_def setIOThreadNum_def
        TcpServer_setThreadNum_def ProxyServer_start_def tryLock_def compare_and_swap_def enableListen_def
        TcpServer_start_def setNewConnectionCallback_def Acceptor_listen_def callback_setters callbacks_of_def Let_def)
qed



end
