(* ===== verification/System_Checker.thy ===== *)
theory System_Checker
  imports Prelude
begin

text \<open>
  \<open>class MemoryChecker\<close> of \<open>src/Process/SystemChecker.h\<close>: the line of \<open>/proc/<pid>/status\<close>
  that has the resident memory, and the number in it. A reverse iterator is the number of
  characters before its base: the one at base \<open>b\<close> points to \<open>s ! (b - 1)\<close>, and \<open>rend()\<close> is 0.
\<close>

record MemoryChecker =
  mk_pid :: int
  mk_checkFileName :: string
  mk_isOpen :: bool

definition MemoryChecker_new :: "nat \<Rightarrow> MemoryChecker" where
  "MemoryChecker_new pid = \<lparr>mk_pid = int pid,
     mk_checkFileName = ''/proc/'' @ to_string_nat pid @ ''/status'', mk_isOpen = False\<rparr>"

definition MemoryChecker_delete :: "MemoryChecker \<Rightarrow> MemoryChecker" where
  "MemoryChecker_delete m = (if mk_isOpen m then m\<lparr>mk_isOpen := False\<rparr> else m)"

text \<open>The body of \<open>checkMemory\<close> is commented out.\<close>

definition checkMemory :: "MemoryChecker \<Rightarrow> MemoryChecker" where
  "checkMemory m = m"

fun rfind_char :: "char \<Rightarrow> string \<Rightarrow> nat \<Rightarrow> nat" where
  "rfind_char x s 0 = 0"
| "rfind_char x s (Suc b) = (if s ! b = x then Suc b else rfind_char x s b)"

definition getMemoryToInt :: "string \<Rightarrow> int result" where
  "getMemoryToInt memoryUsed =
     (let first = length (takeWhile (\<lambda>c. c \<noteq> CHR '':'') memoryUsed)
      in if range_str memoryUsed 0 first = ''VmRSS''
         then let last1 = rfind_char (CHR '' '') memoryUsed (length memoryUsed)
              in if last1 = 0 then Inl Bad_Iterator
                 else let last2 = rfind_char (CHR '' '') memoryUsed (last1 - 1)
                      in if last2 = 0 then Inl Out_Of_Bounds
                         else Inr (to_uint32 (atoi (c_str (range_str memoryUsed (last2 - 1) (last1 - 1)))))
         else Inl Abort_Call)"

section \<open>The line that Linux prints\<close>

text \<open>The number of kilobytes is padded with spaces to eight columns.\<close>

definition vmrss_line :: "nat \<Rightarrow> string" where
  "vmrss_line n = ''VmRSS:'' @ [CHR 0x09] @ replicate (8 - length (to_string_nat n)) (CHR '' '') @
     to_string_nat n @ '' kB''"

lemma rfind_char_skip:
  "(\<And>k. a \<le> k \<Longrightarrow> k < a + n \<Longrightarrow> s ! k \<noteq> x) \<Longrightarrow> rfind_char x s (a + n) = rfind_char x s a"
  by (induction n) simp_all

lemma rfind_char_last:
  assumes "CHR '' '' \<notin> set t"
  shows "rfind_char (CHR '' '') (p @ CHR '' '' # t @ r) (length p + 1 + length t) = length p + 1"
proof -
  have "(p @ CHR '' '' # t @ r) ! k \<noteq> CHR '' ''" if "length p + 1 \<le> k" "k < length p + 1 + length t" for k
  proof -
    have "(p @ CHR '' '' # t @ r) ! k = t ! (k - (length p + 1))"
      using that by (auto simp: nth_append nth_Cons')
    moreover have "k - (length p + 1) < length t" using that by arith
    ultimately show ?thesis using assms nth_mem by metis
  qed
  then have "rfind_char (CHR '' '') (p @ CHR '' '' # t @ r) (length p + 1 + length t) =
      rfind_char (CHR '' '') (p @ CHR '' '' # t @ r) (length p + 1)"
    by (rule rfind_char_skip)
  also have "\<dots> = length p + 1" by (simp add: nth_append)
  finally show ?thesis .
qed

lemma rfind_char_none:
  assumes "CHR '' '' \<notin> set p"
  shows "rfind_char (CHR '' '') (p @ r) (length p) = 0"
proof -
  have "(p @ r) ! k \<noteq> CHR '' ''" if "k < length p" for k
    using that assms nth_mem [OF that] by (metis nth_append)
  then show ?thesis using rfind_char_skip [of 0 "length p" "p @ r"] by simp
qed

lemma digits_no_space: "CHR '' '' \<notin> set (to_string_nat n)"
proof
  assume "CHR '' '' \<in> set (to_string_nat n)"
  then have "isdigit (CHR '' '')" using to_string_nat_digits [of n] by blast
  then show False by (simp add: isdigit_def)
qed

text \<open>
  The resident memory is read correctly up to 9999999 kB and not beyond. The number is
  taken from between the last two spaces of the line; with eight digits or more the padding is
  empty, there is only one space, and a pointer to the character before the first is formed.
\<close>

lemma memory_line:
  assumes "n < 2 ^ 31"
  shows "getMemoryToInt (vmrss_line n) =
    (if length (to_string_nat n) < 8 then Inr (int n) else Inl Out_Of_Bounds)"
proof -
  let ?d = "to_string_nat n"
  let ?h = "''VmRSS:'' @ [CHR 0x09]"
  have key: "range_str (vmrss_line n) 0 (length (takeWhile (\<lambda>c. c \<noteq> CHR '':'') (vmrss_line n))) = ''VmRSS''"
    by (simp add: vmrss_line_def range_str_def)
  show ?thesis
  proof (cases "length ?d < 8")
    case True
    define k where "k = 7 - length ?d"
    have pad: "replicate (8 - length ?d) (CHR '' '') = replicate k (CHR '' '') @ [CHR '' '']"
      using True by (simp add: k_def replicate_append_same Suc_diff_le [symmetric] flip: replicate_Suc)
    define p where "p = ?h @ replicate k (CHR '' '')"
    have line: "vmrss_line n = p @ CHR '' '' # ?d @ CHR '' '' # ''kB''"
      by (simp add: vmrss_line_def pad p_def)
    have 1: "rfind_char (CHR '' '') (vmrss_line n) (length (vmrss_line n)) = length p + 1 + length ?d + 1"
      using rfind_char_last [of "''kB''" "p @ CHR '' '' # ?d" "[]"] by (simp add: line)
    have 2: "rfind_char (CHR '' '') (vmrss_line n) (length p + 1 + length ?d) = length p + 1"
      using rfind_char_last [OF digits_no_space] by (simp add: line)
    have "range_str (vmrss_line n) (length p) (length p + 1 + length ?d) = CHR '' '' # ?d"
      by (simp add: line range_str_def)
    moreover have "c_str (CHR '' '' # ?d) = CHR '' '' # ?d"
      by (rule c_str_id) (simp add: NUL_def digit_not_NUL [unfolded NUL_def])
    moreover have "atoi (CHR '' '' # ?d) = int n"
      using atoi_to_string [of "'' ''" n "[]"] assms by (simp add: isspace_def)
    moreover have "to_uint32 (int n) = int n" using assms by (simp add: to_uint32_id)
    ultimately show ?thesis
      using key 1 2 True by (simp add: getMemoryToInt_def Let_def)
  next
    case False
    then have line: "vmrss_line n = (?h @ ?d) @ CHR '' '' # ''kB''" by (simp add: vmrss_line_def)
    have 1: "rfind_char (CHR '' '') (vmrss_line n) (length (vmrss_line n)) = length (?h @ ?d) + 1"
      using rfind_char_last [of "''kB''" "?h @ ?d" "[]"] by (simp add: line)
    have "CHR '' '' \<notin> set (?h @ ?d)" using digits_no_space by simp
    then have 2: "rfind_char (CHR '' '') (vmrss_line n) (length (?h @ ?d)) = 0"
      unfolding line by (rule rfind_char_none)
    show ?thesis using key 1 2 False by (simp add: getMemoryToInt_def Let_def)
  qed
qed

lemma memory_line_example: "getMemoryToInt (vmrss_line 5) = Inr 5"
  using memory_line [of 5] by (simp add: to_string_nat.simps [of 5])

end
