(* ===== verification/Master_Worker.thy ===== *)
theory Master_Worker
  imports Proxy_Server System_Checker
begin

text \<open>
  \<open>class MasterProcess\<close> (\<open>src/Process/MasterProcess.h\<close>, \<open>MasterProcess.cpp\<close>) and \<open>class
  WorkerProcess\<close> (\<open>WorkerProcess.h\<close>, \<open>WorkerProcess.cpp\<close>): the master forks the workers and
  keeps an array of eventfds in shared memory, through which the workers are to pass the task
  of accepting on to each other.

  The results of system calls (\<open>eventfd\<close>, \<open>fork\<close>, \<open>wait\<close>, \<open>read\<close>, \<open>mmap\<close>) are arguments. The
  shared array is a list with \<open>processNum - 1\<close> entries; an access outside of it is a fault. A
  process has the descriptors that it made or inherited at its fork, \<open>mp_openFds\<close> and
  \<open>wk_openFds\<close>.
\<close>

section \<open>The master\<close>

record MasterProcess =
  mp_pMutex :: ProcessMutex
  mp_shm :: "int list"
  mp_shmName :: string
  mp_shmFd :: int
  mp_notifyId :: int
  mp_eventfds :: "(int \<times> nat) list"
  mp_hasLoop :: bool
  mp_handlers :: "int list"
  mp_eventFdQueue :: "int list"
  mp_processShmIdMap :: "int \<rightharpoonup> int"
  mp_processNum :: nat
  mp_checkInterval :: nat
  mp_openFds :: "int list"

definition DEFAULT_CHECK_INTERVAL :: nat where
  "DEFAULT_CHECK_INTERVAL = 2"

definition MasterProcess_new :: "nat \<Rightarrow> int list \<Rightarrow> string \<Rightarrow> string \<Rightarrow> (int \<times> int \<times> bool) \<Rightarrow> (int \<times> int \<times> bool)
    \<Rightarrow> (nat \<Rightarrow> int) \<Rightarrow> (MasterProcess \<times> shm_byte) result" where
  "MasterProcess_new processNum handlers programName mutexName mutex_calls shm_calls contents =
     (let (mfd, mres, mmapped) = mutex_calls; (fd, res, mapped) = shm_calls
      in rbind (ProcessMutex_master mutexName mfd mres mmapped) (\<lambda>(m, b).
        if fd = -1 then Inl Assert_Fail
        else if res = -1 then Inl Assert_Fail
        else if \<not> mapped then Inl Assert_Fail
        else Inr (\<lparr>mp_pMutex = m, mp_shm = map contents [0..<processNum - 1], mp_shmName = programName,
                   mp_shmFd = fd, mp_notifyId = 0, mp_eventfds = [], mp_hasLoop = False,
                   mp_handlers = handlers, mp_eventFdQueue = [], mp_processShmIdMap = Map.empty,
                   mp_processNum = processNum, mp_checkInterval = DEFAULT_CHECK_INTERVAL,
                   mp_openFds = []\<rparr>, b)))"

definition setCheckInterval :: "nat \<Rightarrow> MasterProcess \<Rightarrow> MasterProcess" where
  "setCheckInterval seconds m = m\<lparr>mp_checkInterval := seconds\<rparr>"

text \<open>
  The destructor: the names of shared memory that are left (the member \<open>pMutex\<close> unlinks its own),
  the descriptor that is closed, and \<open>delete eventLoop\<close>.
\<close>

definition MasterProcess_delete :: "MasterProcess \<Rightarrow> string set \<Rightarrow> (string set \<times> int) result" where
  "MasterProcess_delete m names =
     (let names1 = names - {mp_shmName m}
      in if \<not> mp_hasLoop m then Inl Bad_Pointer
         else Inr (ProcessMutex_delete (mp_pMutex m) names1, mp_shmFd m))"

text \<open>The channel is made on the event loop, which exists only after \<open>start\<close>.\<close>

definition signalProcessInit :: "int \<Rightarrow> MasterProcess \<Rightarrow> int list result" where
  "signalProcessInit sfd m =
     (if sfd = -1 then Inl Assert_Fail
      else if \<not> mp_hasLoop m then Inl Bad_Pointer
      else Inr (mp_handlers m))"

definition signalHandlers :: "MasterProcess \<Rightarrow> MasterProcess" where
  "signalHandlers m = m"

definition processIsAlive :: "int \<Rightarrow> bool" where
  "processIsAlive pid = True"

text \<open>
  \<open>start\<close>: ten spare eventfds, then for each worker an eventfd, its entry in the array, and a
  fork. \<open>forks i\<close> is the result of the i-th fork in the process that is followed: a run in
  which it is 0 is that of worker \<open>i\<close>, which leaves the loop.
\<close>

definition backup_eventfds :: "int list \<Rightarrow> MasterProcess \<Rightarrow> MasterProcess" where
  "backup_eventfds fds m =
     m\<lparr>mp_eventFdQueue := mp_eventFdQueue m @ filter (\<lambda>fd. 0 < fd) (take 10 fds),
       mp_openFds := mp_openFds m @ filter (\<lambda>fd. 0 \<le> fd) (take 10 fds)\<rparr>"

fun start_workers :: "(nat \<Rightarrow> int) \<Rightarrow> (nat \<Rightarrow> int) \<Rightarrow> nat list \<Rightarrow> int \<Rightarrow> MasterProcess
    \<Rightarrow> int \<times> nat option \<times> MasterProcess" where
  "start_workers evfd forks [] pid m = (pid, None, m)"
| "start_workers evfd forks (i # is) pid m =
     (let m1 = m\<lparr>mp_shm := (mp_shm m)[i := evfd i], mp_openFds := mp_openFds m @ [evfd i]\<rparr>
      in if forks i = 0 then (0, Some i, m1)
         else start_workers evfd forks is (forks i)
           (m1\<lparr>mp_processShmIdMap := (mp_processShmIdMap m1)(forks i \<mapsto> int i),
               mp_eventfds := mp_eventfds m1 @ [(forks i, i)]\<rparr>))"

datatype start_outcome = Is_Master MasterProcess | Is_Worker nat MasterProcess

text \<open>With no worker to fork, \<open>pid\<close> has the value \<open>junk\<close> and \<open>worker\<close> is not set.\<close>

definition MasterProcess_start :: "int list \<Rightarrow> (nat \<Rightarrow> int) \<Rightarrow> (nat \<Rightarrow> int) \<Rightarrow> int \<Rightarrow> MasterProcess \<Rightarrow> start_outcome result" where
  "MasterProcess_start backups evfd forks junk m =
     (let (pid, worker, m1) = start_workers evfd forks [0..<mp_processNum m - 1] junk (backup_eventfds backups m)
      in if pid = 0
         then (case worker of None \<Rightarrow> Inl Bad_Pointer | Some i \<Rightarrow> Inr (Is_Worker i m1))
         else Inr (Is_Master (m1\<lparr>mp_hasLoop := True\<rparr>)))"

text \<open>\<open>notify\<close> returns the eventfd it wrote to.\<close>

definition MasterProcess_notify :: "MasterProcess \<Rightarrow> (int \<times> MasterProcess) result" where
  "MasterProcess_notify m =
     (if int (mp_processNum m) - 1 = 0 then Inl Div_By_Zero
      else let id = nat (mp_notifyId m mod \<bar>int (mp_processNum m) - 1\<bar>)
           in if length (mp_shm m) \<le> id then Inl Out_Of_Bounds
              else if mp_notifyId m = 2 ^ 31 - 1 then Inl Int_Overflow
              else Inr (mp_shm m ! id, m\<lparr>mp_notifyId := mp_notifyId m + 1\<rparr>))"

text \<open>The loop of \<open>checkWorkerStatus\<close> over the entries; \<open>pids\<close> are the results of its forks.\<close>

fun check_entries :: "int list \<Rightarrow> (int \<times> nat) list \<Rightarrow> (int \<times> nat) list" where
  "check_entries pids [] = []"
| "check_entries pids ((pid, addr_no) # es) =
     (if \<not> processIsAlive pid
      then (case pids of
              [] \<Rightarrow> (pid, addr_no) # es
            | p # ps \<Rightarrow> (if p = 0 then (pid, addr_no) else (p, addr_no)) # check_entries ps es)
      else (pid, addr_no) # check_entries pids es)"

definition checkWorkerStatus :: "int list \<Rightarrow> MasterProcess \<Rightarrow> MasterProcess" where
  "checkWorkerStatus pids m = m\<lparr>mp_eventfds := check_entries pids (mp_eventfds m)\<rparr>"

text \<open>
  One turn of the loop of \<open>checkWorkerExit\<close>: \<open>pid\<close> is the result of \<open>wait\<close>, whose \<open>operator[]\<close>
  enters 0 for a process that is not in the map. The output says whether a process was forked
  and which worker object was made; the result of the fork itself is stored and not used.
\<close>

definition exit_turn :: "int \<Rightarrow> int \<Rightarrow> MasterProcess \<Rightarrow> (bool \<times> (int \<times> int) option \<times> MasterProcess) result" where
  "exit_turn pid forked m =
     (let shmId = (case mp_processShmIdMap m pid of None \<Rightarrow> 0 | Some i \<Rightarrow> i);
          m1 = m\<lparr>mp_processShmIdMap := (mp_processShmIdMap m)(pid \<mapsto> shmId)\<rparr>
      in if -1 < pid
         then (if pid = 0
               then (if shmId < 0 \<or> int (length (mp_shm m1)) \<le> shmId then Inl Out_Of_Bounds
                     else let evfd = hd (mp_eventFdQueue m1)
                          in Inr (True, Some (evfd, shmId),
                                  m1\<lparr>mp_eventFdQueue := tl (mp_eventFdQueue m1),
                                     mp_shm := (mp_shm m1)[nat shmId := evfd]\<rparr>))
               else Inr (True, None, m1))
         else Inr (False, None, m1))"

text \<open>The loop, over the results of \<open>wait\<close> and \<open>fork\<close>: how many forks, which workers.\<close>

fun exit_loop :: "(int \<times> int) list \<Rightarrow> MasterProcess \<Rightarrow> (nat \<times> (int \<times> int) list \<times> MasterProcess) result" where
  "exit_loop [] m = Inr (0, [], m)"
| "exit_loop ((pid, forked) # evs) m =
     (if mp_eventFdQueue m = [] then Inr (0, [], m)
      else rbind (exit_turn pid forked m) (\<lambda>(f, w, m1).
        rbind (exit_loop evs m1) (\<lambda>(n, ws, m2).
          Inr ((if f then Suc n else n), (case w of None \<Rightarrow> ws | Some x \<Rightarrow> x # ws), m2))))"

section \<open>A worker\<close>

record WorkerProcess =
  wk_shmName :: string
  wk_shmId :: int
  wk_processNum :: int
  wk_memoryChecker :: MemoryChecker
  wk_server :: ProxyServer
  wk_openFds :: "int list"

definition WorkerProcess_new :: "(bool \<times> bool \<times> bool \<times> 64 word \<times> int \<times> int \<times> nat) \<Rightarrow> loop_ptr \<Rightarrow> nat \<Rightarrow> MasterProcess
    \<Rightarrow> WorkerProcess result" where
  "WorkerProcess_new calls loop shm_id m =
     (let (junk_owner, mutex_mapped, mapped, junk_size, junk_time, idle, pid) = calls
      in rbind (ProcessMutex_worker junk_owner (getMutexName (mp_pMutex m)) (getMutexFd (mp_pMutex m)) mutex_mapped)
        (\<lambda>mutex. rbind (ProxyServer_new junk_size junk_time idle loop ''127.0.0.1:6666'' ''proxy'' mutex) (\<lambda>server.
          if \<not> mapped then Inl Assert_Fail
          else Inr \<lparr>wk_shmName = [], wk_shmId = int shm_id, wk_processNum = int (mp_processNum m),
                    wk_memoryChecker = MemoryChecker_new pid, wk_server = server,
                    wk_openFds = mp_openFds m\<rparr>)))"

definition getShmId :: "WorkerProcess \<Rightarrow> int" where
  [simp]: "getShmId w = wk_shmId w"

text \<open>
  The destructor: the name that was never set is unlinked, then the members go, the last first:
  the server with its threads and connections, and the mutex, which unlinks the name that all
  processes use.
\<close>

definition WorkerProcess_delete :: "WorkerProcess \<Rightarrow> string set
    \<Rightarrow> (MemoryChecker \<times> int ts_action list \<times> string set) result" where
  "WorkerProcess_delete w names =
     (let checker = MemoryChecker_delete (wk_memoryChecker w);
          names1 = names - {wk_shmName w}
      in rbind (MyThreadPool_delete (px_threadpool (wk_server w))) (\<lambda>_.
           Inr (checker, TcpServer_delete (px_server (wk_server w)),
                ProcessMutex_delete (px_pMutex (wk_server w)) names1)))"

definition shm_read :: "int list \<Rightarrow> int \<Rightarrow> int result" where
  "shm_read shm i = (if 0 \<le> i \<and> i < int (length shm) then Inr (shm ! nat i) else Inl Out_Of_Bounds)"

text \<open>\<open>start\<close> returns the descriptor whose channel it enabled.\<close>

definition WorkerProcess_start :: "(nat \<Rightarrow> loop_ptr) \<Rightarrow> (nat \<Rightarrow> producer_ptr) \<Rightarrow> int \<Rightarrow> int list \<Rightarrow> WorkerProcess \<Rightarrow> shm_byte
    \<Rightarrow> nat \<Rightarrow> (int \<times> WorkerProcess \<times> shm_byte \<times> nat) result" where
  "WorkerProcess_start addr junk now shm w b lost =
     rbind (shm_read shm (wk_shmId w)) (\<lambda>fd.
       rbind (setIOThreadNum 2 (wk_server w)) (\<lambda>s1.
         rbind (ProxyServer_start addr junk now s1 b lost) (\<lambda>(s2, b1, lost1).
           Inr (fd, w\<lparr>wk_server := s2\<rparr>, b1, lost1))))"

text \<open>\<open>acceptorScheduling\<close>: unlock, then write; the write is its output, descriptor and value.\<close>

definition acceptorScheduling :: "int \<Rightarrow> WorkerProcess \<Rightarrow> shm_byte \<Rightarrow> ((int \<times> int) \<times> WorkerProcess \<times> shm_byte) result" where
  "acceptorScheduling eventFd w b =
     (let one = to_size_t (wk_shmId w)
      in rbind (unlock (px_pMutex (wk_server w)) b) (\<lambda>(m, b1).
           Inr ((eventFd, one), w\<lparr>wk_server := (wk_server w)\<lparr>px_pMutex := m\<rparr>\<rparr>, b1)))"

definition next_slot :: "WorkerProcess \<Rightarrow> int" where
  "next_slot w = (wk_shmId w + 1) mod wk_processNum w"

definition EventHandler :: "int \<Rightarrow> (nat \<Rightarrow> loop_ptr) \<Rightarrow> (nat \<Rightarrow> producer_ptr) \<Rightarrow> int \<Rightarrow> int list \<Rightarrow> WorkerProcess \<Rightarrow> shm_byte
    \<Rightarrow> nat \<Rightarrow> (WorkerProcess \<times> shm_byte \<times> nat) result" where
  "EventHandler res addr junk now shm w b lost =
     rbind (shm_read shm (wk_shmId w)) (\<lambda>fd.
       if res = -1 then Inl Assert_Fail
       else rbind (shm_read shm (next_slot w)) (\<lambda>next.
         rbind (ProxyServer_start addr junk now (setHandler next (wk_server w)) b lost) (\<lambda>(s, b1, lost1).
           Inr (w\<lparr>wk_server := s\<rparr>, b1, lost1))))"

text \<open>
  The end of a worker. One that was only constructed takes the name of the mutex with it, which
  the master and the other workers use; one that has started cannot be destroyed at all.
\<close>

lemma new_worker_deleted:
  assumes "WorkerProcess_new calls loop i m = Inr w"
  shows "\<exists>checker as. WorkerProcess_delete w names = Inr (checker, as, names - {[], getMutexName (mp_pMutex m)})"
  using assms
  by (auto simp: WorkerProcess_new_def ProcessMutex_worker_def ProxyServer_new_def MyThreadPool_new_def
      WorkerProcess_delete_def MyThreadPool_delete_def ProcessMutex_delete_def Let_def
      split: prod.splits if_splits)

lemma enableListen_pool:
  "enableListen addr junk now s lost = Inr (s', lost') \<Longrightarrow> px_threadpool s' = px_threadpool s"
  by (auto simp: enableListen_def split: if_splits)

lemma started_worker_deleted:
  assumes "WorkerProcess_start addr junk now shm w b lost = Inr (fd, w', b', lost')"
  shows "WorkerProcess_delete w' names = Inl Abort_Call"
proof -
  obtain s1 s2 where s: "ProxyServer_start addr junk now s1 b lost = Inr (s2, b', lost')" "wk_server w' = s2"
    using assms by (auto simp: WorkerProcess_start_def)
  have "0 < pl_threads (px_threadpool s2)"
    using s(1) enableListen_pool
    by (fastforce simp: ProxyServer_start_def MyThreadPool_start_def Let_def split: prod.splits if_splits)
  then show ?thesis using s(2) by (simp add: WorkerProcess_delete_def MyThreadPool_delete_def Let_def)
qed

section \<open>The main function of the test program\<close>

text \<open>
  \<open>src/Process/TestProcess/Test.cpp\<close>: a master for four processes with one handler, for
  \<open>SIGINT\<close>. The names are unlinked first, which leaves no trace in the objects.
\<close>

definition SIGINT :: int where
  "SIGINT = 2"

definition test_main :: "(int \<times> int \<times> bool) \<Rightarrow> (int \<times> int \<times> bool) \<Rightarrow> (nat \<Rightarrow> int) \<Rightarrow> int list \<Rightarrow> (nat \<Rightarrow> int)
    \<Rightarrow> (nat \<Rightarrow> int) \<Rightarrow> int \<Rightarrow> start_outcome result" where
  "test_main mutex_calls shm_calls contents backups evfd forks junk =
     rbind (MasterProcess_new 4 [SIGINT] ''test123'' ''testmutex123'' mutex_calls shm_calls contents) (\<lambda>(m, b).
       MasterProcess_start backups evfd forks junk m)"

section \<open>What \<open>start\<close> leaves in the processes\<close>

text \<open>In the master no fork has returned 0; in worker \<open>i\<close> the i-th did, and those before did not.\<close>

lemma start_workers_master:
  "start_workers evfd forks is pid m = (pid', None, m') \<Longrightarrow>
    mp_shm m' = fold (\<lambda>i s. s[i := evfd i]) is (mp_shm m) \<and> mp_openFds m' = mp_openFds m @ map evfd is \<and>
    (\<forall>i \<in> set is. forks i \<noteq> 0) \<and> mp_processNum m' = mp_processNum m \<and> mp_notifyId m' = mp_notifyId m \<and>
    mp_eventFdQueue m' = mp_eventFdQueue m"
  by (induction "is" arbitrary: pid m) (auto simp: Let_def split: if_splits)

lemma start_workers_worker:
  "start_workers evfd forks is pid m = (pid', Some k, m') \<Longrightarrow>
    \<exists>xs ys. is = xs @ k # ys \<and> mp_openFds m' = mp_openFds m @ map evfd (xs @ [k]) \<and> forks k = 0 \<and> pid' = 0 \<and>
      mp_processNum m' = mp_processNum m \<and> mp_pMutex m' = mp_pMutex m"
proof (induction "is" arbitrary: pid m)
  case (Cons i "is")
  let ?m = "m\<lparr>mp_shm := (mp_shm m)[i := evfd i], mp_openFds := mp_openFds m @ [evfd i]\<rparr>"
  show ?case
  proof (cases "forks i = 0")
    case True
    then show ?thesis using Cons.prems by (intro exI [of _ "[]"] exI [of _ "is"]) (auto simp: Let_def)
  next
    case False
    then obtain xs ys where "is = xs @ k # ys" "mp_openFds m' = mp_openFds ?m @ map evfd (xs @ [k])" "forks k = 0" "pid' = 0"
        "mp_processNum m' = mp_processNum m" "mp_pMutex m' = mp_pMutex m"
      using Cons.prems by (auto simp: Let_def dest!: Cons.IH)
    then have "i # is = (i # xs) @ k # ys \<and> mp_openFds m' = mp_openFds m @ map evfd ((i # xs) @ [k]) \<and>
        forks k = 0 \<and> pid' = 0 \<and> mp_processNum m' = mp_processNum m \<and> mp_pMutex m' = mp_pMutex m"
      by simp
    then show ?thesis by blast
  qed
qed simp

lemma fold_list_update:
  "n \<le> length s \<Longrightarrow> fold (\<lambda>i s. s[i := f i]) [0..<n] s = map f [0..<n] @ drop n s"
proof (induction n)
  case (Suc n)
  then have "fold (\<lambda>i s. s[i := f i]) [0..<Suc n] s = (map f [0..<n] @ drop n s)[n := f n]" by simp
  also have "drop n s = s ! n # drop (Suc n) s" using Suc.prems by (simp add: Cons_nth_drop_Suc)
  finally show ?case by (simp add: list_update_append)
qed simp

lemma master_shm:
  assumes "MasterProcess_start backups evfd forks junk m = Inr (Is_Master m')"
    and "length (mp_shm m) = mp_processNum m - 1"
  shows "mp_shm m' = map evfd [0..<mp_processNum m - 1]"
proof -
  obtain pid w m1 where sw: "start_workers evfd forks [0..<mp_processNum m - 1] junk (backup_eventfds backups m) = (pid, w, m1)"
    by (metis prod_cases3)
  have "w = None"
  proof (rule ccontr)
    assume "w \<noteq> None"
    then obtain k where "w = Some k" by blast
    moreover from this have "pid = 0" using sw start_workers_worker by blast
    ultimately show False using assms(1) sw by (simp add: MasterProcess_start_def)
  qed
  then show ?thesis
    using assms sw start_workers_master [of evfd forks _ junk _ pid m1] fold_list_update [of "mp_processNum m - 1" "mp_shm m" evfd]
    by (auto simp: MasterProcess_start_def backup_eventfds_def split: if_splits)
qed

text \<open>The test program, in the master: three eventfds are in the array.\<close>

lemma test_main_master:
  assumes "test_main mutex_calls shm_calls contents backups evfd forks junk = Inr (Is_Master m)"
  shows "mp_shm m = map evfd [0, 1, 2]"
proof -
  obtain m0 b where new: "MasterProcess_new 4 [SIGINT] ''test123'' ''testmutex123'' mutex_calls shm_calls contents = Inr (m0, b)"
      and start: "MasterProcess_start backups evfd forks junk m0 = Inr (Is_Master m)"
    using assms by (auto simp: test_main_def)
  have "length (mp_shm m0) = 3" "mp_processNum m0 = 4"
    using new by (auto simp: MasterProcess_new_def Let_def split: prod.splits if_splits)
  note m0 = this start
  have "[0..<3] = [0, 1, 2::nat]" by (simp add: upt_rec)
  then show ?thesis using master_shm [OF m0(3)] m0(1,2) by simp
qed

lemma upt_split: "[0..<n] = xs @ k # ys \<Longrightarrow> k < n \<and> xs = [0..<k]"
proof -
  assume u: "[0..<n] = xs @ k # ys"
  have len: "length xs < n" using arg_cong [OF u, of length] by simp
  have "[0..<n] ! length xs = k" unfolding u by simp
  with len have "k = length xs" by simp
  moreover have "xs = take (length xs) [0..<n]" unfolding u by simp
  ultimately show ?thesis using len by (simp add: take_upt)
qed

lemma worker_outcome:
  assumes "MasterProcess_start backups evfd forks junk m = Inr (Is_Worker k m')"
  shows "k < mp_processNum m - 1 \<and> mp_processNum m' = mp_processNum m \<and>
    mp_openFds m' = mp_openFds m @ filter (\<lambda>fd. 0 \<le> fd) (take 10 backups) @ map evfd [0..<Suc k]"
proof -
  obtain pid w m1 where sw: "start_workers evfd forks [0..<mp_processNum m - 1] junk (backup_eventfds backups m) = (pid, w, m1)"
    by (metis prod_cases3)
  then have "w = Some k" "m1 = m'"
    using assms by (auto simp: MasterProcess_start_def split: if_splits option.splits)
  then show ?thesis
    using start_workers_worker [of evfd forks _ junk _ pid k m'] sw upt_split
    by (fastforce simp: backup_eventfds_def)
qed

lemma worker_fields:
  assumes "WorkerProcess_new calls loop k m = Inr w"
  shows "wk_shmId w = int k \<and> wk_processNum w = int (mp_processNum m) \<and> wk_openFds w = mp_openFds m"
  using assms by (auto simp: WorkerProcess_new_def Let_def split: prod.splits if_splits)

section \<open>Round robin of \<open>notify\<close>\<close>

definition notify_allowed :: "nat \<Rightarrow> MasterProcess \<Rightarrow> bool" where
  "notify_allowed n m \<longleftrightarrow> 2 \<le> mp_processNum m \<and> length (mp_shm m) = mp_processNum m - 1 \<and>
     0 \<le> mp_notifyId m \<and> mp_notifyId m + int n < 2 ^ 31"

definition notify_cursor :: "MasterProcess \<Rightarrow> nat" where
  "notify_cursor m = nat (mp_notifyId m mod (int (mp_processNum m) - 1))"

lemma notify_cursor_less: "notify_allowed n m \<Longrightarrow> notify_cursor m < length (mp_shm m)"
  by (simp add: notify_allowed_def notify_cursor_def nat_less_iff of_nat_diff)

interpretation nt: round_robin MasterProcess_notify mp_shm notify_cursor notify_allowed
proof
  fix n m
  show "notify_allowed n m \<Longrightarrow> notify_cursor m < length (mp_shm m)" by (rule notify_cursor_less)
  assume a: "notify_allowed (Suc n) m"
  let ?m = "m\<lparr>mp_notifyId := mp_notifyId m + 1\<rparr>"
  have "MasterProcess_notify m = Inr (mp_shm m ! notify_cursor m, ?m)"
    using a notify_cursor_less [OF a]
    by (simp add: MasterProcess_notify_def notify_cursor_def notify_allowed_def)
  moreover have "notify_cursor ?m = (notify_cursor m + 1) mod length (mp_shm m)"
  proof -
    have l: "int (length (mp_shm m)) = int (mp_processNum m) - 1"
      using a by (simp add: notify_allowed_def of_nat_diff)
    have "int (notify_cursor m) = mp_notifyId m mod int (length (mp_shm m))"
      using a by (simp add: notify_cursor_def l notify_allowed_def)
    then have "int ((notify_cursor m + 1) mod length (mp_shm m)) = (mp_notifyId m + 1) mod int (length (mp_shm m))"
      by (simp add: zmod_int mod_add_right_eq add.commute)
    then show ?thesis by (simp add: notify_cursor_def l flip: nat_int)
  qed
  moreover have "notify_allowed n ?m" using a by (simp add: notify_allowed_def)
  ultimately show "\<exists>m'. MasterProcess_notify m = Inr (mp_shm m ! notify_cursor m, m') \<and> mp_shm m' = mp_shm m \<and>
      notify_cursor m' = (notify_cursor m + 1) mod length (mp_shm m) \<and> notify_allowed n m'"
    by (intro exI [of _ ?m]) simp
qed

text \<open>The eventfds that \<open>n\<close> calls of \<open>notify\<close> write to.\<close>

fun notify_times :: "nat \<Rightarrow> MasterProcess \<Rightarrow> (int list \<times> MasterProcess) result" where
  "notify_times 0 m = Inr ([], m)"
| "notify_times (Suc n) m =
     rbind (MasterProcess_notify m) (\<lambda>(fd, m1). rbind (notify_times n m1) (\<lambda>(fds, m2). Inr (fd # fds, m2)))"

lemma notify_times_picks: "notify_times n m = nt.picks n m"
  by (induction n arbitrary: m) simp_all

section \<open>The loop that waits for dead workers\<close>

lemma exit_turn_live:
  "pid \<noteq> 0 \<Longrightarrow> \<exists>m'. exit_turn pid forked m = Inr (-1 < pid, None, m') \<and>
    mp_eventFdQueue m' = mp_eventFdQueue m \<and> mp_shm m' = mp_shm m \<and> mp_eventfds m' = mp_eventfds m"
  by (simp add: exit_turn_def Let_def)

lemma exit_loop_live:
  "\<forall>e \<in> set evs. fst e \<noteq> 0 \<Longrightarrow> mp_eventFdQueue m \<noteq> [] \<Longrightarrow>
   \<exists>m'. exit_loop evs m = Inr (length (filter (\<lambda>e. -1 < fst e) evs), [], m') \<and>
     mp_eventFdQueue m' = mp_eventFdQueue m \<and> mp_shm m' = mp_shm m \<and> mp_eventfds m' = mp_eventfds m"
proof (induction evs arbitrary: m)
  case (Cons e evs)
  obtain pid forked where e: "e = (pid, forked)" by (cases e)
  obtain m1 where m1: "exit_turn pid forked m = Inr (-1 < pid, None, m1)"
      "mp_eventFdQueue m1 = mp_eventFdQueue m" "mp_shm m1 = mp_shm m" "mp_eventfds m1 = mp_eventfds m"
    using exit_turn_live [of pid forked m] Cons.prems(1) e by auto
  obtain m2 where "exit_loop evs m1 = Inr (length (filter (\<lambda>e. -1 < fst e) evs), [], m2)"
      "mp_eventFdQueue m2 = mp_eventFdQueue m1" "mp_shm m2 = mp_shm m1" "mp_eventfds m2 = mp_eventfds m1"
    using Cons.IH [of m1] Cons.prems m1(2) by auto
  then show ?case using m1 Cons.prems(2) e by simp
qed simp

lemma check_entries_id: "check_entries pids es = es"
  by (induction es) (auto simp: processIsAlive_def)

section \<open>Properties\<close>

definition demo_master :: MasterProcess where
  "demo_master = \<lparr>mp_pMutex = \<lparr>pm_shmName = ''m'', pm_mutexFd = 3, pm_owner = False\<rparr>, mp_shm = [0, 0, 0],
     mp_shmName = ''s'', mp_shmFd = 4, mp_notifyId = 0, mp_eventfds = [], mp_hasLoop = False, mp_handlers = [2],
     mp_eventFdQueue = [], mp_processShmIdMap = Map.empty, mp_processNum = 4, mp_checkInterval = 2, mp_openFds = []\<rparr>"

text \<open>
  The master notifies the workers in turn. As long as its counter does not overflow, \<open>r\<close>
  rounds of \<open>notify\<close> from the start write to the eventfds of all workers in order, \<open>r\<close> times.
\<close>

lemma notify_round_robin:
  assumes "2 \<le> mp_processNum m" and "length (mp_shm m) = mp_processNum m - 1" and "mp_notifyId m = 0"
    and "int (r * length (mp_shm m)) < 2 ^ 31"
  shows "\<exists>m'. notify_times (r * length (mp_shm m)) m = Inr (concat (replicate r (mp_shm m)), m') \<and>
    mp_shm m' = mp_shm m"
proof -
  have "notify_allowed (r * length (mp_shm m)) m" "notify_cursor m = 0"
    using assms by (simp_all add: notify_allowed_def notify_cursor_def)
  from nt.picks_rounds [OF this] show ?thesis by (auto simp: notify_times_picks)
qed

lemma notify_round_robin_example:
  "\<exists>m'. notify_times (5 * 3) (demo_master\<lparr>mp_shm := [11, 12, 13]\<rparr>) = Inr (concat (replicate 5 [11, 12, 13]), m')"
  using notify_round_robin [of "demo_master\<lparr>mp_shm := [11, 12, 13]\<rparr>" 5]
  by (simp add: demo_master_def del: notify_times.simps) blast

text \<open>
  C32: The task of accepting is never handed on. Take any worker \<open>i\<close> as its fork leaves it, and
  the array as the master completes it. The entry of the next worker, to which the scheduling
  callback of worker \<open>i\<close> is bound, is an eventfd that was made after the fork of \<open>i\<close> and is not
  among its descriptors; for the last worker the index is outside of the array.
\<close>

theorem handover_never_arrives:
  assumes "MasterProcess_start backups evfd mforks junk m = Inr (Is_Master mm)"
    and "MasterProcess_start backups evfd wforks junk' m = Inr (Is_Worker i mi)"
    and "WorkerProcess_new calls loop i mi = Inr w"
    and "length (mp_shm m) = mp_processNum m - 1" and "mp_openFds m = []"
    and "inj_on evfd {..<mp_processNum m - 1}" and "evfd ` {..<mp_processNum m - 1} \<inter> set backups = {}"
  shows "if i + 1 < mp_processNum m - 1
    then \<exists>fd. shm_read (mp_shm mm) (next_slot w) = Inr fd \<and> fd \<notin> set (wk_openFds w)
    else shm_read (mp_shm mm) (next_slot w) = Inl Out_Of_Bounds"
proof -
  let ?n = "mp_processNum m - 1"
  have shm: "mp_shm mm = map evfd [0..<?n]" using master_shm [OF assms(1,4)] .
  have wo: "i < ?n" "mp_processNum mi = mp_processNum m"
      "mp_openFds mi = filter (\<lambda>fd. 0 \<le> fd) (take 10 backups) @ map evfd [0..<Suc i]"
    using worker_outcome [OF assms(2)] assms(5) by simp_all
  have w: "wk_shmId w = int i" "wk_processNum w = int (mp_processNum m)" "wk_openFds w = mp_openFds mi"
    using worker_fields [OF assms(3)] wo(2) by simp_all
  have "int i + 1 < int (mp_processNum m)" using wo(1) by simp
  then have nx: "next_slot w = int (i + 1)" using w(1,2) by (simp add: next_slot_def)
  show ?thesis
  proof (cases "i + 1 < ?n")
    case True
    then have "shm_read (mp_shm mm) (next_slot w) = Inr (evfd (i + 1))"
      by (simp add: shm_read_def nx shm nat_add_distrib)
    moreover have "evfd (i + 1) \<notin> set backups" using assms(7) True by blast
    moreover have "evfd (i + 1) \<notin> evfd ` {0..<Suc i}"
    proof
      assume "evfd (i + 1) \<in> evfd ` {0..<Suc i}"
      then obtain j where "j < Suc i" "evfd (i + 1) = evfd j" by auto
      then show False using inj_onD [OF assms(6), of "i + 1" j] True by simp
    qed
    moreover have "set (wk_openFds w) \<subseteq> set backups \<union> evfd ` {0..<Suc i}"
      unfolding w(3) wo(3) using set_take_subset [of 10 backups] by (auto simp del: upt_Suc)
    ultimately show ?thesis using True by (metis UnE subsetD)
  next
    case False
    then show ?thesis by (simp add: shm_read_def nx shm)
  qed
qed

theorem handover_never_arrives_witness:
  "\<exists>mm w. MasterProcess_start [5] (\<lambda>i. 20 + int i) (\<lambda>i. 100 + int i) 1 demo_master = Inr (Is_Master mm) \<and>
    wk_shmId w = 0 \<and> (\<exists>fd. shm_read (mp_shm mm) (next_slot w) = Inr fd \<and> fd \<notin> set (wk_openFds w))"
proof -
  let ?e = "\<lambda>i. 20 + int i" and ?calls = "(False, True, True, 0, 0, 9, 77)"
  obtain mm where mm: "MasterProcess_start [5] ?e (\<lambda>i. 100 + int i) 1 demo_master = Inr (Is_Master mm)"
    by (simp add: MasterProcess_start_def demo_master_def backup_eventfds_def upt_rec Let_def)
  obtain mi where mi: "MasterProcess_start [5] ?e (\<lambda>i. 0) 1 demo_master = Inr (Is_Worker 0 mi)"
    by (simp add: MasterProcess_start_def demo_master_def backup_eventfds_def upt_rec Let_def)
  obtain w where w: "WorkerProcess_new ?calls 1 0 mi = Inr w"
    by (simp add: WorkerProcess_new_def ProcessMutex_worker_def ProxyServer_new_def TcpServer_new_def Acceptor_new_def)
  have "length (mp_shm demo_master) = mp_processNum demo_master - 1" "mp_openFds demo_master = []"
      "0 + 1 < mp_processNum demo_master - 1"
    by (simp_all add: demo_master_def)
  moreover have "inj_on ?e {..<mp_processNum demo_master - 1}"
      "?e ` {..<mp_processNum demo_master - 1} \<inter> set [5] = {}"
    by (auto simp: inj_on_def)
  ultimately show ?thesis
    using handover_never_arrives [OF mm mi w] mm worker_fields [OF w] by auto
qed

text \<open>
  C36: A dead worker is not replaced. Whatever \<open>wait\<close> and \<open>fork\<close> return (\<open>wait\<close> never returns
  0), the loop forks one process for every worker that ended and makes no worker object in any
  of them; the spare eventfds, the array and the list of workers stay as they are, so the loop
  goes on for as long as the results do. The periodic check changes nothing either.
\<close>

theorem dead_worker_not_replaced:
  assumes "\<forall>e \<in> set evs. fst e \<noteq> 0" and "mp_eventFdQueue m \<noteq> []"
  shows "\<exists>m'. exit_loop evs m = Inr (length (filter (\<lambda>e. -1 < fst e) evs), [], m') \<and>
    mp_eventFdQueue m' = mp_eventFdQueue m \<and> mp_shm m' = mp_shm m \<and> mp_eventfds m' = mp_eventfds m \<and>
    checkWorkerStatus pids m' = m'"
  using exit_loop_live [OF assms] by (auto simp: checkWorkerStatus_def check_entries_id)

theorem dead_worker_not_replaced_witness:
  "\<exists>m'. exit_loop [(100, 200), (-1, -1), (101, 0)] (demo_master\<lparr>mp_eventFdQueue := [5]\<rparr>) = Inr (2, [], m') \<and>
    mp_eventFdQueue m' = [5]"
proof -
  let ?m = "demo_master\<lparr>mp_eventFdQueue := [5]\<rparr>" and ?evs = "[(100, 200), (-1, -1), (101, 0)] :: (int \<times> int) list"
  have "\<forall>e \<in> set ?evs. fst e \<noteq> 0" "mp_eventFdQueue ?m \<noteq> []" by simp_all
  from dead_worker_not_replaced [OF this] obtain m' where
    "exit_loop ?evs ?m = Inr (length (filter (\<lambda>e. -1 < fst e) ?evs), [], m')"
    "mp_eventFdQueue m' = mp_eventFdQueue ?m"
    by blast
  then show ?thesis by (intro exI [of _ m']) (simp del: exit_loop.simps)
qed

end
