(* ===== verification/Handover.thy ===== *)
theory Handover
  imports Master_Worker
begin

text \<open>
  The workers together: any number of \<open>WorkerProcess\<close>es around one byte of shared memory and
  the array of eventfds, each running the handlers of \<open>Master_Worker\<close> and \<open>Tcp_Server\<close> in its
  own loop. A worker may be woken at any time and accepts while its listening channel is
  enabled; a handover (the callback that \<open>newConnection\<close> calls) is one step with the
  connection that causes it, since other workers see of it only the swap of the byte at its end.

  The specification is a token: at most one worker listens, and the token passes from one
  worker to another only through a state in which nobody listens.
\<close>

section \<open>The system\<close>

record system =
  sy_shm :: "int list"
  sy_byte :: shm_byte
  sy_workers :: "nat \<Rightarrow> WorkerProcess"
  sy_up :: "nat \<Rightarrow> bool"
  sy_lost :: "nat \<Rightarrow> nat"
  sy_dead :: "nat \<Rightarrow> bool"

definition put_worker :: "nat \<Rightarrow> WorkerProcess \<Rightarrow> shm_byte \<Rightarrow> nat \<Rightarrow> system \<Rightarrow> system" where
  "put_worker i w b lost s = s\<lparr>sy_byte := b, sy_workers := (sy_workers s)(i := w),
     sy_up := (sy_up s)(i := True), sy_lost := (sy_lost s)(i := lost)\<rparr>"

definition tcp_of :: "WorkerProcess \<Rightarrow> (int, nat) TcpServer" where
  "tcp_of w = px_server (wk_server w)"

definition with_tcp :: "(int, nat) TcpServer \<Rightarrow> WorkerProcess \<Rightarrow> WorkerProcess" where
  "with_tcp srv w = w\<lparr>wk_server := (wk_server w)\<lparr>px_server := srv\<rparr>\<rparr>"

definition mutex_of :: "WorkerProcess \<Rightarrow> ProcessMutex" where
  "mutex_of w = px_pMutex (wk_server w)"

definition accepts :: "WorkerProcess \<Rightarrow> bool" where
  "accepts w \<longleftrightarrow> ac_reading (ts_acceptor (tcp_of w))"

inductive sys_step :: "system \<Rightarrow> system \<Rightarrow> bool" where
  sy_start: "\<not> sy_dead s i \<Longrightarrow> \<not> sy_up s i \<Longrightarrow>
     WorkerProcess_start addr junk now (sy_shm s) (sy_workers s i) (sy_byte s) (sy_lost s i) = Inr (fd, w, b, lost) \<Longrightarrow>
     sys_step s (put_worker i w b lost s)"
| sy_wake: "\<not> sy_dead s i \<Longrightarrow> sy_up s i \<Longrightarrow>
     EventHandler res addr junk now (sy_shm s) (sy_workers s i) (sy_byte s) (sy_lost s i) = Inr (w, b, lost) \<Longrightarrow>
     sys_step s (put_worker i w b lost s)"
| sy_accept: "\<not> sy_dead s i \<Longrightarrow> sy_up s i \<Longrightarrow> accepts (sy_workers s i) \<Longrightarrow>
     newConnection now (tcp_of (sy_workers s i)) = Inr ([Established nm l cbs], srv) \<Longrightarrow>
     sys_step s (put_worker i (with_tcp srv (sy_workers s i)) (sy_byte s) (sy_lost s i) s)"
| sy_handover: "\<not> sy_dead s i \<Longrightarrow> sy_up s i \<Longrightarrow> accepts (sy_workers s i) \<Longrightarrow>
     newConnection now (tcp_of (sy_workers s i)) = Inr ([Established nm l cbs, Notify fd], srv) \<Longrightarrow>
     acceptorScheduling fd (with_tcp srv (sy_workers s i)) (sy_byte s) = Inr (written, w, b) \<Longrightarrow>
     sys_step s (put_worker i w b (sy_lost s i) s)"
| sy_remove: "\<not> sy_dead s i \<Longrightarrow> sy_up s i \<Longrightarrow>
     removeConnectionInLoop nm l (tcp_of (sy_workers s i)) = Inr (acts, srv) \<Longrightarrow>
     sys_step s (put_worker i (with_tcp srv (sy_workers s i)) (sy_byte s) (sy_lost s i) s)"
| sy_die: "sys_step s (s\<lparr>sy_dead := (sy_dead s)(i := True)\<rparr>)"

inductive_cases sys_stepE: "sys_step s t"

text \<open>Workers as their constructor makes them, with \<open>owner\<close> false, and the byte cleared.\<close>

definition new_worker :: "WorkerProcess \<Rightarrow> bool" where
  "new_worker w \<longleftrightarrow> \<not> pm_owner (mutex_of w) \<and> \<not> px_isStart (wk_server w) \<and> \<not> ts_started (tcp_of w) \<and>
     \<not> ac_listenning (ts_acceptor (tcp_of w)) \<and> \<not> ac_reading (ts_acceptor (tcp_of w))"

definition sys_init :: "system \<Rightarrow> bool" where
  "sys_init s \<longleftrightarrow> sy_byte s = 0 \<and> (\<forall>i. new_worker (sy_workers s i) \<and> \<not> sy_up s i \<and> \<not> sy_dead s i)"

section \<open>One worker\<close>

text \<open>It listens exactly while it owns the mutex, and not before its server was started.\<close>

definition server_ok :: "ProxyServer \<Rightarrow> bool" where
  [inv_defs]: "server_ok p \<longleftrightarrow>
     ac_listenning (ts_acceptor (px_server p)) = pm_owner (px_pMutex p) \<and>
     ac_reading (ts_acceptor (px_server p)) = pm_owner (px_pMutex p) \<and>
     (ts_started (px_server p) \<longrightarrow> px_isStart p)"

lemma new_worker_ok: "new_worker w \<Longrightarrow> server_ok (wk_server w)"
  by (simp add: new_worker_def server_ok_def tcp_of_def mutex_of_def)

lemma TcpServer_start_fields:
  "TcpServer_start addr junk now s w = Inr (s', w') \<Longrightarrow> \<not> ts_started s \<Longrightarrow>
    ac_listenning (ts_acceptor s') \<and> ac_reading (ts_acceptor s') \<and> ts_started s'"
  by (auto simp: TcpServer_start_def Acceptor_listen_def Let_def split: if_splits)

lemma enableListen_ok:
  assumes "enableListen addr junk now p lost = Inr (p', lost')"
    and "\<not> ac_listenning (ts_acceptor (px_server p))" and "ts_started (px_server p) \<longrightarrow> px_isStart p"
    and "pm_owner (px_pMutex p)"
  shows "server_ok p' \<and> px_pMutex p' = px_pMutex p"
proof (cases "px_isStart p")
  case True
  then show ?thesis
    using assms by (auto simp: enableListen_def server_ok_def acceptorSchedulingHandler_def Acceptor_enableListen_def)
next
  case False
  then obtain srv where "TcpServer_start addr junk now (with_callbacks (px_server p)) lost = Inr (srv, lost')"
      "p' = p\<lparr>px_server := srv, px_isStart := True\<rparr>"
    using assms(1) by (auto simp: enableListen_def)
  then show ?thesis
    using TcpServer_start_fields assms(3,4) False by (fastforce simp: server_ok_def)
qed

text \<open>\<open>ProxyServer::start\<close>, whether it gets the mutex or not.\<close>

lemma ProxyServer_start_ok:
  assumes "ProxyServer_start addr junk now p b lost = Inr (p', b', lost')" and "server_ok p"
    and "b = 0 \<Longrightarrow> \<not> pm_owner (px_pMutex p)"
  shows "server_ok p' \<and> (\<exists>locked. tryLock (px_pMutex p) b = (locked, px_pMutex p', b'))"
proof -
  obtain locked m b1 where t: "tryLock (px_pMutex p) b = (locked, m, b1)" by (metis prod_cases3)
  let ?p = "p\<lparr>px_threadpool := MyThreadPool_start (px_threadpool p), px_pMutex := m\<rparr>"
  show ?thesis
  proof (cases locked)
    case True
    then have own: "b = 0" "pm_owner m" using t by (auto simp: tryLock_def compare_and_swap_def split: if_splits)
    obtain q where q: "enableListen addr junk now ?p lost = Inr (q, lost')" "p' = q" "b' = b1"
      using assms(1) t True by (auto simp: ProxyServer_start_def Let_def)
    have "server_ok q \<and> px_pMutex q = m"
      using enableListen_ok [OF q(1)] assms(2,3) own by (simp add: server_ok_def)
    then show ?thesis using t q by simp
  next
    case False
    then have "m = px_pMutex p" "p' = ?p" "b' = b1"
      using t assms(1) by (auto simp: tryLock_def compare_and_swap_def ProxyServer_start_def Let_def split: if_splits)
    then show ?thesis using t assms(2) by (auto simp: server_ok_def)
  qed
qed

lemma setIOThreadNum_ok:
  "setIOThreadNum n p = Inr p' \<Longrightarrow> server_ok p \<Longrightarrow> server_ok p' \<and> px_pMutex p' = px_pMutex p"
  by (auto simp: setIOThreadNum_def TcpServer_setThreadNum_def server_ok_def split: if_splits)

lemma setHandler_ok: "server_ok p \<Longrightarrow> server_ok (setHandler cb p) \<and> px_pMutex (setHandler cb p) = px_pMutex p"
  by (simp add: setHandler_def setSchedulCallback_def server_ok_def)

text \<open>Starting and waking a worker: the mutex changes as by one \<open>tryLock\<close>.\<close>

lemma WorkerProcess_start_ok:
  assumes "WorkerProcess_start addr junk now shm w b lost = Inr (fd, w', b', lost')"
    and "server_ok (wk_server w)" and "b = 0 \<Longrightarrow> \<not> pm_owner (mutex_of w)"
  shows "server_ok (wk_server w') \<and> (\<exists>locked. tryLock (mutex_of w) b = (locked, mutex_of w', b'))"
proof -
  obtain p p' where p: "setIOThreadNum 2 (wk_server w) = Inr p"
      "ProxyServer_start addr junk now p b lost = Inr (p', b', lost')" "w' = w\<lparr>wk_server := p'\<rparr>"
    using assms(1) by (auto simp: WorkerProcess_start_def)
  have "server_ok p" "px_pMutex p = mutex_of w"
    using setIOThreadNum_ok [OF p(1) assms(2)] by (simp_all add: mutex_of_def)
  then show ?thesis
    using ProxyServer_start_ok [OF p(2)] assms(3) p(3) by (simp add: mutex_of_def)
qed

lemma EventHandler_ok:
  assumes "EventHandler res addr junk now shm w b lost = Inr (w', b', lost')"
    and "server_ok (wk_server w)" and "b = 0 \<Longrightarrow> \<not> pm_owner (mutex_of w)"
  shows "server_ok (wk_server w') \<and> (\<exists>locked. tryLock (mutex_of w) b = (locked, mutex_of w', b'))"
proof -
  obtain fd p' where p: "ProxyServer_start addr junk now (setHandler fd (wk_server w)) b lost = Inr (p', b', lost')"
      "w' = w\<lparr>wk_server := p'\<rparr>"
    using assms(1) by (auto simp: EventHandler_def split: if_splits)
  have "server_ok (setHandler fd (wk_server w))" "px_pMutex (setHandler fd (wk_server w)) = mutex_of w"
    using setHandler_ok [OF assms(2)] by (simp_all add: mutex_of_def)
  then show ?thesis
    using ProxyServer_start_ok [OF p(1)] assms(3) p(2) by (simp add: mutex_of_def)
qed

text \<open>Accepting and removing connections, without and with a handover.\<close>

lemma newConnection_acceptor:
  assumes "newConnection now t = Inr (acts, t')"
  shows "ts_started t' = ts_started t \<and>
    (length acts = 1 \<longrightarrow> ts_acceptor t' = ts_acceptor t) \<and>
    (length acts = 2 \<longrightarrow> ac_listenning (ts_acceptor t) \<longrightarrow>
      \<not> ac_listenning (ts_acceptor t') \<and> \<not> ac_reading (ts_acceptor t'))"
  using assms
  by (auto simp: newConnection_def Let_def acceptorSchedulingHandler_def Acceptor_disableListen_def
      split: if_splits option.splits)

lemma removeConnection_acceptor:
  "removeConnectionInLoop nm l t = Inr (acts, t') \<Longrightarrow> ts_started t' = ts_started t \<and> ts_acceptor t' = ts_acceptor t"
  by (auto simp: removeConnectionInLoop_def Let_def split: if_splits)

lemma same_acceptor_ok:
  "server_ok (wk_server w) \<Longrightarrow> ts_acceptor t = ts_acceptor (tcp_of w) \<Longrightarrow> ts_started t = ts_started (tcp_of w) \<Longrightarrow>
    server_ok (wk_server (with_tcp t w)) \<and> mutex_of (with_tcp t w) = mutex_of w"
  by (simp add: server_ok_def with_tcp_def tcp_of_def mutex_of_def)

lemma handover_ok:
  assumes "server_ok (wk_server w)" and "accepts w"
    and "newConnection now (tcp_of w) = Inr ([a, c], t)"
    and "acceptorScheduling fd (with_tcp t w) b = Inr (written, w', b')"
  shows "server_ok (wk_server w') \<and> unlock (mutex_of w) b = Inr (mutex_of w', b') \<and> pm_owner (mutex_of w) \<and> \<not> accepts w'"
proof -
  have own: "pm_owner (mutex_of w)" and lis: "ac_listenning (ts_acceptor (tcp_of w))"
    using assms(1,2) by (simp_all add: server_ok_def accepts_def tcp_of_def mutex_of_def)
  have t: "ts_started t = ts_started (tcp_of w)" "\<not> ac_listenning (ts_acceptor t)" "\<not> ac_reading (ts_acceptor t)"
    using newConnection_acceptor [OF assms(3)] lis by simp_all
  obtain m where m: "unlock (mutex_of w) b = Inr (m, b')" "wk_server w' = (wk_server (with_tcp t w))\<lparr>px_pMutex := m\<rparr>"
    using assms(4) by (auto simp: acceptorScheduling_def with_tcp_def mutex_of_def Let_def)
  have "\<not> pm_owner m"
    using m(1) by (auto simp: unlock_def unlock_enter_def split: if_splits)
  then show ?thesis
    using assms(1) m t own by (simp add: server_ok_def accepts_def with_tcp_def tcp_of_def mutex_of_def)
qed

section \<open>The invariant of the system\<close>

definition sys_inv :: "system \<Rightarrow> bool" where
  [inv_defs]: "sys_inv s \<longleftrightarrow> (\<forall>i. server_ok (wk_server (sy_workers s i))) \<and>
     pm.exclusive (\<lambda>i. mutex_of (sy_workers s i)) (sy_byte s)"

lemma sys_invD:
  assumes "sys_inv s"
  shows "server_ok (wk_server (sy_workers s i))"
    and "pm.exclusive (\<lambda>i. mutex_of (sy_workers s i)) (sy_byte s)"
    and "sy_byte s = 0 \<Longrightarrow> \<not> pm_owner (mutex_of (sy_workers s i))"
  using assms by (auto simp: sys_inv_def pm.exclusive_def)

lemma put_worker_inv:
  assumes "sys_inv s" and "server_ok (wk_server w)"
    and "pm.exclusive ((\<lambda>j. mutex_of (sy_workers s j))(i := mutex_of w)) b"
  shows "sys_inv (put_worker i w b lost s)"
proof -
  have "(\<lambda>j. mutex_of (((sy_workers s)(i := w)) j)) = (\<lambda>j. mutex_of (sy_workers s j))(i := mutex_of w)"
    by (simp add: fun_eq_iff)
  then show ?thesis using assms by (simp add: sys_inv_def put_worker_def)
qed

lemma put_locked:
  assumes "sys_inv s" and "server_ok (wk_server w)"
    and "tryLock (mutex_of (sy_workers s i)) (sy_byte s) = (locked, mutex_of w, b)"
  shows "sys_inv (put_worker i w b lost s)"
  using put_worker_inv [OF assms(1,2) pm.acquire_exclusive(1) [OF sys_invD(2) [OF assms(1)] assms(3)]] .

lemma put_same_mutex:
  assumes "sys_inv s" and "server_ok (wk_server w)" and "mutex_of w = mutex_of (sy_workers s i)"
  shows "sys_inv (put_worker i w (sy_byte s) lost s)"
proof -
  have "(\<lambda>j. mutex_of (sy_workers s j))(i := mutex_of w) = (\<lambda>j. mutex_of (sy_workers s j))"
    using assms(3) by (simp add: fun_eq_iff)
  then show ?thesis using put_worker_inv [OF assms(1,2)] sys_invD(2) [OF assms(1)] by simp
qed

lemma sys_init_inv: "sys_init s \<Longrightarrow> sys_inv s"
  by (auto simp: sys_init_def sys_inv_def pm.exclusive_def new_worker_def intro: new_worker_ok)

lemma sys_step_inv: "sys_inv s \<Longrightarrow> sys_step s t \<Longrightarrow> sys_inv t"
proof -
  assume inv: "sys_inv s" and "sys_step s t"
  from this(2) show ?thesis
  proof (cases rule: sys_step.cases)
    case (sy_start i addr junk now fd w b lost)
    then show ?thesis
      using WorkerProcess_start_ok [OF sy_start(4) sys_invD(1,3) [OF inv]] put_locked [OF inv] by blast
  next
    case (sy_wake i res addr junk now w b lost)
    then show ?thesis
      using EventHandler_ok [OF sy_wake(4) sys_invD(1,3) [OF inv]] put_locked [OF inv] by blast
  next
    case (sy_accept i now nm l srv)
    then show ?thesis
      using newConnection_acceptor [OF sy_accept(5)] same_acceptor_ok [OF sys_invD(1) [OF inv]] put_same_mutex [OF inv]
      by simp
  next
    case (sy_handover i now nm l fd srv written w b)
    note h = handover_ok [OF sys_invD(1) [OF inv] sy_handover(4,5,6)]
    show ?thesis
      using put_worker_inv [OF inv _ pm.release_exclusive(1) [OF sys_invD(2) [OF inv]]] h sy_handover(1) by blast
  next
    case (sy_remove i nm l acts srv)
    then show ?thesis
      using removeConnection_acceptor [OF sy_remove(4)] same_acceptor_ok [OF sys_invD(1) [OF inv]] put_same_mutex [OF inv]
      by simp
  next
    case (sy_die i)
    then show ?thesis using inv by (simp add: sys_inv_def)
  qed
qed

interpretation sys: transition_system sys_init sys_step sys_inv
  by unfold_locales (auto intro: sys_init_inv sys_step_inv)

section \<open>The token\<close>

inductive token_step :: "nat option \<Rightarrow> nat option \<Rightarrow> bool" where
  token_take: "token_step None (Some i)"
| token_drop: "token_step (Some i) None"

definition token_init :: "nat option \<Rightarrow> bool" where
  "token_init tok \<longleftrightarrow> tok = None"

text \<open>The abstraction: the worker that lives and accepts connections.\<close>

definition listens :: "system \<Rightarrow> nat \<Rightarrow> bool" where
  "listens s i \<longleftrightarrow> \<not> sy_dead s i \<and> accepts (sy_workers s i)"

definition listener :: "system \<Rightarrow> nat option \<Rightarrow> bool" where
  "listener s tok \<longleftrightarrow> (\<forall>i. listens s i \<longleftrightarrow> tok = Some i)"

lemma accepts_owner: "sys_inv s \<Longrightarrow> accepts (sy_workers s i) \<longleftrightarrow> pm_owner (mutex_of (sy_workers s i))"
  using sys_invD(1) [of s i] by (simp add: server_ok_def accepts_def tcp_of_def mutex_of_def)

lemma accepts_unique: "sys_inv s \<Longrightarrow> accepts (sy_workers s i) \<Longrightarrow> accepts (sy_workers s j) \<Longrightarrow> i = j"
  using sys_invD(2) [of s] accepts_owner [of s] by (auto simp: pm.exclusive_def)

lemma listens_unique: "sys_inv s \<Longrightarrow> listens s i \<Longrightarrow> listens s j \<Longrightarrow> i = j"
  using accepts_unique by (simp add: listens_def)

lemma listener_exists: "sys_inv s \<Longrightarrow> \<exists>tok. listener s tok"
proof (cases "\<exists>i. listens s i")
  case True
  assume inv: "sys_inv s"
  from True obtain i where i: "listens s i" by blast
  then have "listener s (Some i)" using listens_unique [OF inv] by (auto simp: listener_def)
  then show ?thesis by blast
next
  case False
  then have "listener s None" by (simp add: listener_def)
  then show ?thesis by blast
qed

text \<open>A step changes whether a worker listens for one worker at most.\<close>

lemma sys_step_local: "sys_step s t \<Longrightarrow> \<exists>i. \<forall>j. j \<noteq> i \<longrightarrow> listens t j = listens s j"
  by (erule sys_step.cases) (auto simp: put_worker_def listens_def)

lemma token_local:
  assumes "sys_inv s" and "sys_inv t" and "\<forall>j. j \<noteq> i \<longrightarrow> listens t j = listens s j" and "listener s tok"
  shows "\<exists>tok'. listener t tok' \<and> (tok' = tok \<or> token_step tok tok')"
proof -
  obtain tok' where l: "listener t tok'" using listener_exists assms(2) by blast
  have "tok' = tok \<or> token_step tok tok'"
  proof (cases tok)
    case None
    then show ?thesis by (cases tok') (auto intro: token_take)
  next
    case (Some j)
    then have j: "listens s j" using assms(4) by (simp add: listener_def)
    show ?thesis
    proof (cases tok')
      case None
      then show ?thesis using Some token_drop by simp
    next
      case (Some k)
      then have k: "listens t k" using l by (simp add: listener_def)
      have "k = j"
        using assms(3) j k listens_unique [OF assms(1)] listens_unique [OF assms(2)] by metis
      then show ?thesis using \<open>tok = Some j\<close> Some by simp
    qed
  qed
  then show ?thesis using l by blast
qed

interpretation token: simulation sys_init sys_step sys_inv listener token_init token_step
proof
  show "sys_init s \<Longrightarrow> \<exists>tok. listener s tok \<and> token_init tok" for s
    by (intro exI [of _ None])
      (auto simp: sys_init_def new_worker_def listener_def listens_def accepts_def token_init_def)
  show "sys_inv s \<Longrightarrow> listener s tok \<Longrightarrow> sys_step s t \<Longrightarrow>
      \<exists>tok'. listener t tok' \<and> (tok' = tok \<or> token_step tok tok')" for s t tok
    using sys_step_inv [of s t] sys_step_local [of s t] token_local [of s t _ tok] by blast
qed

text \<open>In a reachable state the callback of a handover always returns: its assertion holds.\<close>

lemma handover_total:
  assumes "reach sys_init sys_step s" and "accepts (sy_workers s i)"
  shows "\<exists>r. acceptorScheduling fd (with_tcp srv (sy_workers s i)) (sy_byte s) = Inr r"
proof -
  have inv: "sys_inv s" using sys.reach_inv [OF assms(1)] .
  then obtain r where "unlock (mutex_of (sy_workers s i)) (sy_byte s) = Inr r"
    using pm.release_total [OF sys_invD(2)] accepts_owner assms(2) by (metis surj_pair)
  then show ?thesis
    by (cases r) (simp add: acceptorScheduling_def with_tcp_def mutex_of_def Let_def)
qed

section \<open>The death of the listener\<close>

text \<open>A dead owner stays the owner, since only its own steps change its mutex.\<close>

definition dead_holder :: "nat \<Rightarrow> system \<Rightarrow> bool" where
  "dead_holder i s \<longleftrightarrow> sys_inv s \<and> sy_dead s i \<and> pm_owner (mutex_of (sy_workers s i))"

lemma dead_holder_step: "dead_holder i s \<Longrightarrow> sys_step s t \<Longrightarrow> dead_holder i t"
proof -
  assume d: "dead_holder i s" and st: "sys_step s t"
  have "sy_dead t i \<and> sy_workers t i = sy_workers s i"
    using st d by (cases rule: sys_step.cases) (auto simp: put_worker_def dead_holder_def)
  then show ?thesis using d sys_step_inv [OF _ st] by (simp add: dead_holder_def)
qed

lemma dead_holder_steps: "sys_step\<^sup>*\<^sup>* s t \<Longrightarrow> dead_holder i s \<Longrightarrow> dead_holder i t"
  by (induction rule: rtranclp_induct) (auto intro: dead_holder_step)

lemma dead_holder_silent: "dead_holder i s \<Longrightarrow> \<not> listens s j"
  using accepts_unique [of s j i] accepts_owner [of s i] by (auto simp: dead_holder_def listens_def)

section \<open>The processes that the master makes\<close>

lemma WorkerProcess_new_fresh:
  assumes "WorkerProcess_new (False, calls) loop k m = Inr w"
  shows "new_worker w"
  using assms
  by (auto simp: WorkerProcess_new_def ProcessMutex_worker_def ProxyServer_new_def TcpServer_new_def Acceptor_new_def
      new_worker_def mutex_of_def tcp_of_def setNewConnectionCallback_def Let_def split: prod.splits if_splits)

text \<open>
  The system after \<open>MasterProcess::start\<close>: the byte as the master's constructor left it, the
  array as the master completed it, and the workers as the forked processes made them.
\<close>

definition forked_system :: "shm_byte \<Rightarrow> MasterProcess \<Rightarrow> (nat \<Rightarrow> WorkerProcess) \<Rightarrow> system" where
  "forked_system b mm workers = \<lparr>sy_shm = mp_shm mm, sy_byte = b, sy_workers = workers, sy_up = (\<lambda>_. False),
     sy_lost = (\<lambda>_. 0), sy_dead = (\<lambda>_. False)\<rparr>"

lemma forked_system_init:
  assumes "MasterProcess_new n handlers nm mnm mutex_calls shm_calls contents = Inr (m, b)"
    and "\<And>i. WorkerProcess_new (False, calls i) (loops i) i (masters i) = Inr (workers i)"
  shows "sys_init (forked_system b mm workers)"
proof -
  have "b = 0"
    using assms(1) by (auto simp: MasterProcess_new_def ProcessMutex_master_def Let_def split: prod.splits if_splits)
  then show ?thesis using WorkerProcess_new_fresh [OF assms(2)] by (simp add: sys_init_def forked_system_def)
qed

lemma first_start:
  assumes "new_worker w" and "\<not> ep_started (ts_threadPool (tcp_of w))" and "shm_read shm (wk_shmId w) = Inr fd"
  shows "\<exists>w' lost'. WorkerProcess_start addr junk now shm w 0 lost = Inr (fd, w', 1, lost') \<and> accepts w'"
proof -
  have "\<exists>p l. pool_start cb addr junk p0 lost = Inr (p, l)" if "\<not> ep_started p0" for cb p0
    using start_threads_run [of True cb addr junk _ "p0\<lparr>ep_started := True\<rparr>" lost] that
    by (fastforce simp: pool_start_def)
  from this [of "(ts_threadPool (tcp_of w))\<lparr>ep_numThreads := 2\<rparr>" "Some threadInitCallback"] obtain p l where
    "pool_start (Some threadInitCallback) addr junk ((ts_threadPool (tcp_of w))\<lparr>ep_numThreads := 2\<rparr>) lost = Inr (p, l)"
    using assms(2) by auto
  then show ?thesis
    using assms
    by (simp add: new_worker_def tcp_of_def mutex_of_def WorkerProcess_start_def setIOThreadNum_def
        TcpServer_setThreadNum_def pool_setThreadNum_def ProxyServer_start_def tryLock_def compare_and_swap_def
        enableListen_def TcpServer_start_def Acceptor_listen_def accepts_def callback_setters Let_def)
qed

text \<open>A system whose first worker has started, for the witnesses.\<close>

lemma first_worker_starts:
  "\<exists>s t. sys_init s \<and> sys_step s t \<and> sy_byte t = 1 \<and> listens t 0"
proof -
  obtain w where w: "WorkerProcess_new (False, True, True, 0, 0, 9, 77) 1 0 demo_master = Inr w"
    by (simp add: WorkerProcess_new_def ProcessMutex_worker_def ProxyServer_new_def TcpServer_new_def Acceptor_new_def)
  define s where "s = forked_system 0 (demo_master\<lparr>mp_shm := [5, 6, 7]\<rparr>) (\<lambda>i. w)"
  have init: "sys_init s"
    using WorkerProcess_new_fresh [OF w] by (simp add: sys_init_def s_def forked_system_def)
  have "\<not> ep_started (ts_threadPool (tcp_of w))"
    using w by (auto simp: WorkerProcess_new_def ProcessMutex_worker_def ProxyServer_new_def TcpServer_new_def
        Acceptor_new_def EventLoopThreadPool_new_def tcp_of_def)
  moreover have "shm_read [5, 6, 7] (wk_shmId w) = Inr 5" using worker_fields [OF w] by (simp add: shm_read_def)
  ultimately obtain w' lost where st: "WorkerProcess_start Suc Suc 0 [5, 6, 7] w 0 0 = Inr (5, w', 1, lost)" "accepts w'"
    using first_start [OF WorkerProcess_new_fresh [OF w]] by blast
  have "sys_step s (put_worker 0 w' 1 lost s)"
    using sys_step.sy_start [of s 0 Suc Suc 0 5 w' 1 lost] st by (simp add: s_def forked_system_def)
  moreover have "sy_byte (put_worker 0 w' 1 lost s) = 1" "listens (put_worker 0 w' 1 lost s) 0"
    using st(2) by (simp_all add: put_worker_def listens_def s_def forked_system_def)
  ultimately show ?thesis using init by blast
qed

section \<open>Properties\<close>

text \<open>
  C2: The processes implement a token. Every reachable state of the workers has one abstract
  state, the worker that accepts connections or none, and it is a reachable state of a token
  that starts free, is taken when it is free, and is dropped; it never passes from one worker
  to another directly. A step of any worker (its start, a wake-up, a new connection with or
  without a handover, the removal of a connection, its death) is a step of the token or leaves
  it as it is. Moreover a worker that accepts can always hand over: the assertion in its unlock
  holds.
\<close>

theorem handover_refines_token:
  assumes "reach sys_init sys_step s" and "sys_step s t"
  shows "(\<exists>tok tok'. listener s tok \<and> reach token_init token_step tok \<and> listener t tok' \<and>
      (tok' = tok \<or> token_step tok tok')) \<and>
    (\<forall>i. listener s (Some i) \<longrightarrow>
      (\<exists>r. acceptorScheduling fd (with_tcp srv (sy_workers s i)) (sy_byte s) = Inr r))"
proof -
  obtain tok where "listener s tok" "reach token_init token_step tok"
    using token.reach_sim [OF assms(1)] by blast
  moreover from this obtain tok' where "listener t tok'" "tok' = tok \<or> token_step tok tok'"
    using token.step_sim [OF sys.reach_inv [OF assms(1)] _ assms(2)] by blast
  moreover have "\<exists>r. acceptorScheduling fd (with_tcp srv (sy_workers s i)) (sy_byte s) = Inr r"
    if "listener s (Some i)" for i
    by (rule handover_total [OF assms(1)]) (use that in \<open>auto simp: listener_def listens_def\<close>)
  ultimately show ?thesis by blast
qed

theorem handover_refines_token_witness:
  "\<exists>s t tok tok'. sys_init s \<and> sys_step s t \<and> sy_byte t = 1 \<and>
    listener s tok \<and> listener t tok' \<and> (tok' = tok \<or> token_step tok tok')"
proof -
  obtain s t where st: "sys_init s" "sys_step s t" "sy_byte t = 1" using first_worker_starts by blast
  then show ?thesis
    using handover_refines_token [OF reach_init [where init = sys_init, OF st(1)] st(2)] by blast
qed

text \<open>
  C30: The proxy ends with its listener. When the worker that accepts connections dies, then
  whatever the other workers do afterwards (start, wake up, hand over), none of them ever
  accepts a connection again: the mutex is not given back, and the master makes no worker in
  place of the dead one.
\<close>

theorem listener_death_final:
  assumes "reach sys_init sys_step s" and "listens s i"
    and "sys_step\<^sup>*\<^sup>* (s\<lparr>sy_dead := (sy_dead s)(i := True)\<rparr>) t"
  shows "\<not> listens t j"
proof -
  have inv: "sys_inv s" using sys.reach_inv [OF assms(1)] .
  then have "dead_holder i (s\<lparr>sy_dead := (sy_dead s)(i := True)\<rparr>)"
    using assms(2) accepts_owner [OF inv] sys_step_inv [OF inv sys_step.sy_die] by (simp add: dead_holder_def listens_def)
  from dead_holder_silent [OF dead_holder_steps [OF assms(3) this]] show ?thesis .
qed

theorem listener_death_final_witness:
  "\<exists>s. reach sys_init sys_step s \<and> listens s 0 \<and> (\<forall>j. \<not> listens (s\<lparr>sy_dead := (sy_dead s)(0 := True)\<rparr>) j)"
proof -
  obtain s t where st: "sys_init s" "sys_step s t" "listens t 0" using first_worker_starts by blast
  have "reach sys_init sys_step t" 
    using reach_step [where step = sys_step, OF reach_init [where init = sys_init, OF st(1)] st(2)] .
  then show ?thesis using listener_death_final [OF _ st(3)] st(3) by blast
qed

end
