(* ===== verification/Cached_Requests.thy ===== *)
theory Cached_Requests
  imports Proxy_Server
begin

text \<open>
  The parser, the two levels of the cache and \<open>solveOnMessage\<close> together: requests whose
  responses the memory cache has. In contrast to a request that is forwarded, any number of
  them may be in the buffer at once.
\<close>

section \<open>The memory level, read repeatedly\<close>

text \<open>A read of a live entry does not change which entries are live, nor what they contain.\<close>

lemma Lru_get_keeps:
  assumes "lru_inv l" and "lru_live now u l"
  shows "\<exists>v l'. Lru_get now u l = Inr (v, l') \<and> map_of (lru_entries l) u = Some v \<and> lru_inv l' \<and>
    lru_live now' u' l' = lru_live now' u' l \<and> map_of (lru_entries l') = map_of (lru_entries l)"
proof -
  obtain n where n: "lru_map l u = Some n" "\<not> Lru_expired now l n"
    using assms(2) by (auto simp: lru_live_def split: option.splits)
  obtain v l' where g: "Lru_get now u l = Inr (v, l')" "map_of (lru_entries l) u = Some v" "lru_inv l'"
      "lru_entries l' = drop_key u (lru_entries l) @ [(u, v)]" "lru_map l' = lru_map l"
      "lru_expiredTime l' = lru_expiredTime l"
    using Lru_get_hit [OF assms(1) n] by blast
  have "map_of (lru_entries l') x = map_of (lru_entries l) x" for x
    using g(2) by (cases "x = u") (simp_all add: g(4) map_add_def map_of_filter_neq split: option.splits)
  moreover have "lru_live now' u' l' = lru_live now' u' l"
    by (simp add: lru_live_def Lru_expired_def g(5,6) split: option.splits)
  ultimately show ?thesis using g(1-3) by blast
qed

text \<open>The cache has the response \<open>v\<close> to \<open>u\<close> in memory at the time \<open>now\<close>.\<close>

definition cached :: "64 word \<Rightarrow> string \<Rightarrow> string \<Rightarrow> Cache \<Rightarrow> bool" where
  "cached now u v c \<longleftrightarrow> (\<exists>l. mc_heap (ch_memoryCache c) (mc_lru_cache (ch_memoryCache c)) = Some l \<and>
     lru_inv l \<and> lru_live now u l \<and> map_of (lru_entries l) u = Some v)"

lemma cached_read:
  assumes "cached now u v c" and "v \<noteq> []"
  shows "\<exists>c'. Cache_readCache H thr now u c e = Inr (v, c', e) \<and>
    (\<forall>now' u' v'. cached now' u' v' c \<longrightarrow> cached now' u' v' c')"
proof -
  obtain l where l: "mc_heap (ch_memoryCache c) (mc_lru_cache (ch_memoryCache c)) = Some l" "lru_inv l"
      "lru_live now u l" "map_of (lru_entries l) u = Some v"
    using assms(1) by (auto simp: cached_def)
  obtain l' where g: "Lru_get now u l = Inr (v, l')" "lru_inv l'"
    using Lru_get_keeps [OF l(2,3)] l(4) by fastforce
  have keeps: "lru_live now' u' l' = lru_live now' u' l" "map_of (lru_entries l') = map_of (lru_entries l)" for now' u'
    using Lru_get_keeps [OF l(2,3), of now' u'] g(1) by auto
  obtain m where "MemoryCache_readCache thr now u (ch_memoryCache c) = Inr (v, m)" "mc_heap m (mc_lru_cache m) = Some l'"
    using MemoryCache_read [OF l(1) g(1)] by blast
  then show ?thesis
    using assms(2) l(1) g(2) keeps by (auto simp: Cache_readCache_def cached_def)
qed

section \<open>One request\<close>

lemma solve_turn_cached:
  assumes "request_ok GetMethod u ver hs body rest" and "ob_connected ob" and "ob_arrived ob = []"
    and "sv_context v = HttpContext_new" and "\<not> sv_isCheck v"
    and "sv_buff v = http_request GetMethod u ver hs body @ rest" and "sv_buf v = sv_buff v"
    and "Cache_readCache H thr (ob_now ob) u (sv_cache v) (sv_renv v) = Inr (content, c, e)" and "content \<noteq> []"
  shows "solve_turn H thr conn nm ob v = Inr (False, v\<lparr>
      sv_info := int (length (http_request GetMethod u ver hs body)), sv_buff := rest, sv_buf := rest,
      sv_cache := c, sv_renv := e,
      sv_acts := sv_acts v @ [Send conn (createResponse content), Retrieve (length (http_request GetMethod u ver hs body))]\<rparr>)"
proof -
  let ?r = "http_request GetMethod u ver hs body"
  let ?w = "v\<lparr>
      sv_context := \<lparr>hc_state = kExpectBody, request_method = GetMethod, request_url = u, hc_hasCookie = True\<rparr>,
      sv_info := int (length ?r)\<rparr>"
  have v: "v\<lparr>sv_buf := sv_buf v @ ob_arrived ob\<rparr> = v" using assms(3) by simp
  have test: "solve_test ob v = Inr (True, ?w)"
    by (rule solve_test_request [OF assms(1,2,6,4,5)])
  have "solve_cached H thr conn ob ?w = Inr (True, v\<lparr>sv_info := int (length ?r), sv_buff := rest, sv_buf := rest,
      sv_cache := c, sv_renv := e,
      sv_acts := sv_acts v @ [Send conn (createResponse content), Retrieve (length ?r)]\<rparr>)"
    using assms(4-9)
    by (simp add: solve_cached_def retrieve_def erase_buff_def solve_reset_def HttpContext_reset_def
        HttpContext_new_def Let_def)
  then show ?thesis unfolding solve_turn_def v test by simp
qed

section \<open>A pipeline of requests\<close>

record get_request =
  gr_url :: string
  gr_version :: string
  gr_headers :: "(string \<times> string) list"
  gr_body :: string

definition render_get :: "get_request \<Rightarrow> string" where
  "render_get r = http_request GetMethod (gr_url r) (gr_version r) (gr_headers r) (gr_body r)"

definition pipeline :: "get_request list \<Rightarrow> string" where
  "pipeline rs = concat (map render_get rs)"

fun pipeline_ok :: "get_request list \<Rightarrow> string \<Rightarrow> bool" where
  "pipeline_ok [] rest = True"
| "pipeline_ok (r # rs) rest \<longleftrightarrow>
     request_ok GetMethod (gr_url r) (gr_version r) (gr_headers r) (gr_body r) (pipeline rs @ rest) \<and> pipeline_ok rs rest"

text \<open>Each request with what its turn observes, and the response that is cached at that time.\<close>

definition answered :: "Cache \<Rightarrow> get_request \<Rightarrow> observation \<times> string \<Rightarrow> bool" where
  "answered c r o_v \<longleftrightarrow> ob_connected (fst o_v) \<and> ob_arrived (fst o_v) = [] \<and>
     cached (ob_now (fst o_v)) (gr_url r) (snd o_v) c \<and> snd o_v \<noteq> []"

definition answer_actions :: "conn_id \<Rightarrow> get_request \<Rightarrow> observation \<times> string \<Rightarrow> conn_action list" where
  "answer_actions conn r o_v = [Send conn (createResponse (snd o_v)), Retrieve (length (render_get r))]"

lemma solve_run_cached:
  assumes "list_all2 (answered (sv_cache v)) rs ovs" and "pipeline_ok rs rest"
    and "sv_context v = HttpContext_new" and "\<not> sv_isCheck v"
    and "sv_buff v = pipeline rs @ rest" and "sv_buf v = sv_buff v"
  shows "\<exists>v'. solve_run H thr conn nm (map fst ovs) v = Inr (False, v') \<and>
    sv_acts v' = sv_acts v @ concat (map2 (answer_actions conn) rs ovs) \<and> sv_buff v' = rest \<and> sv_buf v' = rest \<and>
    sv_tunnels v' = sv_tunnels v \<and> sv_renv v' = sv_renv v \<and> sv_context v' = HttpContext_new"
  using assms
proof (induction rs arbitrary: v ovs)
  case Nil
  then show ?case by (simp add: pipeline_def)
next
  case (Cons r rs)
  then obtain o_v os where ovs: "ovs = o_v # os" and a: "answered (sv_cache v) r o_v"
      and all: "list_all2 (answered (sv_cache v)) rs os"
    by (auto simp: list_all2_Cons1)
  have ok: "request_ok GetMethod (gr_url r) (gr_version r) (gr_headers r) (gr_body r) (pipeline rs @ rest)"
    and oks: "pipeline_ok rs rest"
    using Cons.prems(2) by simp_all
  obtain c where c: "Cache_readCache H thr (ob_now (fst o_v)) (gr_url r) (sv_cache v) (sv_renv v) = Inr (snd o_v, c, sv_renv v)"
      "\<forall>now' u' v'. cached now' u' v' (sv_cache v) \<longrightarrow> cached now' u' v' c"
    using cached_read a by (fastforce simp: answered_def)
  let ?w = "v\<lparr>sv_info := int (length (render_get r)), sv_buff := pipeline rs @ rest, sv_buf := pipeline rs @ rest,
      sv_cache := c, sv_renv := sv_renv v, sv_acts := sv_acts v @ answer_actions conn r o_v\<rparr>"
  have turn: "solve_turn H thr conn nm (fst o_v) v = Inr (False, ?w)"
    using solve_turn_cached [OF ok _ _ Cons.prems(3,4) _ Cons.prems(6) c(1)] a Cons.prems(5)
    by (simp add: answered_def answer_actions_def render_get_def pipeline_def)
  have "list_all2 (answered (sv_cache ?w)) rs os"
    using all by (rule list_all2_mono) (use c(2) in \<open>auto simp: answered_def\<close>)
  from Cons.IH [OF this oks] Cons.prems(3,4) obtain v' where
    "solve_run H thr conn nm (map fst os) ?w = Inr (False, v')"
    "sv_acts v' = sv_acts ?w @ concat (map2 (answer_actions conn) rs os)"
    "sv_buff v' = rest \<and> sv_buf v' = rest \<and> sv_tunnels v' = sv_tunnels v \<and> sv_renv v' = sv_renv v \<and>
      sv_context v' = HttpContext_new"
    by auto
  then show ?case using ovs turn by simp
qed

section \<open>Property\<close>

text \<open>
  C19: Requests that are cached are answered, any number of them, in order. When the buffer
  starts with well-formed "Get" requests and the memory cache has a live, non-empty response to
  each at the time of its turn, every turn sends the response of one request and consumes
  exactly the bytes of that request; the rest of the buffer is left for the next turns, and
  neither Redis nor a web server is contacted.
\<close>

theorem cached_pipeline_answered:
  assumes "list_all2 (answered c) rs ovs" and "pipeline_ok rs rest"
  shows "\<exists>v. solve_run H thr conn nm (map fst ovs) (solve_init (pipeline rs @ rest) (pipeline rs @ rest) tns c e) =
      Inr (False, v) \<and>
    sv_acts v = concat (map2 (answer_actions conn) rs ovs) \<and> sv_buff v = rest \<and> sv_buf v = rest \<and>
    sv_tunnels v = tns \<and> sv_renv v = e"
  using solve_run_cached [of "solve_init (pipeline rs @ rest) (pipeline rs @ rest) tns c e" rs ovs rest H thr conn nm] assms
  by (auto simp: solve_init_def)

definition demo_get :: get_request where
  "demo_get = \<lparr>gr_url = ''/x'', gr_version = ''HTTP/1.1'', gr_headers = [], gr_body = []\<rparr>"

lemma demo_get_ok: "pipeline_ok [demo_get, demo_get] ''P''"
  by (simp add: demo_get_def pipeline_def render_get_def request_ok_def token_ok_def LF_def http_request_def
      http_head_def header_line_def CRLF_def GetMethod_def to_string_nat_small)

theorem cached_pipeline_answered_witness:
  "\<exists>c v. solve_run demo_redis 1 2 ''c'' [demo_obs None, demo_obs None]
      (solve_init (pipeline [demo_get, demo_get] @ ''P'') (pipeline [demo_get, demo_get] @ ''P'') Map.empty c demo_env) =
      Inr (False, v) \<and>
    sv_acts v = [Send 2 ''ok'', Retrieve (length (render_get demo_get)),
                 Send 2 ''ok'', Retrieve (length (render_get demo_get))] \<and> sv_buf v = ''P''"
proof -
  have "lru_entries (Lru_new 0 8) = []" "lru_cap (Lru_new 0 8) = 8"
    by (simp_all add: Lru_new_def lru_entries_def lru_cap_def sl_values_def sl_empty_def)
  then obtain l where l: "lru_inv l" "lru_live 0 ''/x'' l" "lru_entries l = [(''/x'', ''ok'')]"
    using lru.put_fits [of "Lru_new 0 8" "''/x''" 0 "''ok''"] Lru_new_inv [of 0 8] by auto
  define c where "c = demo_cache\<lparr>ch_memoryCache := (ch_memoryCache demo_cache)\<lparr>
      mc_heap := [mc_lru_cache (ch_memoryCache demo_cache) \<mapsto> l]\<rparr>\<rparr>"
  have "answered c demo_get (demo_obs None, ''ok'')"
    using l by (simp add: answered_def cached_def c_def demo_obs_def demo_get_def)
  then have "list_all2 (answered c) [demo_get, demo_get] [(demo_obs None, ''ok''), (demo_obs None, ''ok'')]" by simp
  from cached_pipeline_answered [OF this demo_get_ok, of demo_redis 1 2 "''c''" Map.empty demo_env]
  show ?thesis
    by (simp add: answer_actions_def createResponse_def del: solve_run.simps pipeline_ok.simps) blast
qed

end
