(* ===== verification/Solve_Ends.thy ===== *)
theory Solve_Ends
  imports Proxy_Server
begin

text \<open>
  When the loop of \<open>solveOnMessage\<close> ends. The measure is the length of the task's copy of the
  input: every turn in which the connection to the web server is there consumes a request of
  at least one byte, and no turn makes the copy longer. What a turn consumes it also
  retrieves from the connection's buffer.
\<close>

section \<open>One turn\<close>

definition solve_inv :: "'s solve_vars \<Rightarrow> bool" where
  [inv_defs]: "solve_inv v \<longleftrightarrow> length (sv_buff v) < 2 ^ 31 \<and> 
     (sv_isCheck v \<longrightarrow> 0 < sv_info v \<and> sv_info v \<le> int (length (sv_buff v)))"

lemma solve_test_progress:
  assumes "solve_test ob v = Inr (True, w)" and "solve_inv v"
  shows "0 < sv_info w \<and> sv_info w \<le> int (length (sv_buff v)) \<and>
    sv_buff w = sv_buff v \<and> sv_isCheck w = sv_isCheck v"
proof (cases "sv_isCheck v")
  case True
  then show ?thesis using assms by (simp add: solve_test_def solve_inv_def)
next
  case False
  then obtain n c where "parseRequest (sv_buff v) (sv_context v) = Inr ((True, n), c)"
      "w = v\<lparr>sv_context := c, sv_info := n\<rparr>"
    using assms(1) by (auto simp: solve_test_def split: if_splits)
  moreover have "length (sv_buff v) < 2 ^ 31" using assms(2) by (simp add: solve_inv_def)
  ultimately show ?thesis
    using spec_parse_local [of "sv_buff v" "sv_context v" n c] by (auto simp: parseRequest_spec)
qed

lemma solve_cached_progress:
  assumes "solve_cached H thr conn ob v = Inr (b, w)" and "0 < sv_info v"
  shows "if b then \<not> sv_isCheck w \<and> length (sv_buff w) < length (sv_buff v)
    else sv_buff w = sv_buff v \<and> sv_isCheck w = sv_isCheck v \<and> sv_info w = sv_info v"
  using assms
  by (auto simp: solve_cached_def retrieve_def erase_buff_def solve_reset_def Let_def split: if_splits)

lemma solve_forward_progress:
  assumes "solve_forward c nm v = Inr w" and "0 < sv_info v"
  shows "\<not> sv_isCheck w \<and> length (sv_buff w) < length (sv_buff v)"
  using assms
  by (auto simp: solve_forward_def deref_def retrieve_def erase_buff_def solve_reset_def Let_def
      split: if_splits option.splits)

lemma solve_tunnel_progress:
  "solve_tunnel conn nm v = Inr w \<Longrightarrow> sv_isCheck w \<and> sv_buff w = sv_buff v \<and> sv_info w = sv_info v"
  by (auto simp: solve_tunnel_def Tunnel_setup_def deref_def Let_def split: option.splits)

lemma solve_turn_progress:
  assumes "solve_turn H thr conn nm ob v = Inr (False, w)" and "solve_inv v"
  shows "solve_inv w \<and> length (sv_buff w) \<le> length (sv_buff v) \<and>
    (ob_context ob \<noteq> None \<longrightarrow> length (sv_buff w) < length (sv_buff v))"
proof -
  let ?v = "v\<lparr>sv_buf := sv_buf v @ ob_arrived ob\<rparr>"
  have inv: "solve_inv ?v" using assms(2) by (simp add: solve_inv_def)
  obtain v1 where v1: "solve_test ob ?v = Inr (True, v1)"
      and rest: "rbind (solve_cached H thr conn ob v1) (\<lambda>(continue, v2).
         if continue then Inr (False, v2)
         else if \<not> sv_isCheck v2 \<and> ob_context ob = None
              then rbind (solve_tunnel conn nm v2) (\<lambda>v3. Inr (False, v3))
              else (case ob_context ob of
                      Some c \<Rightarrow> rbind (solve_forward c nm v2) (\<lambda>v3. Inr (False, v3))
                    | None \<Rightarrow> Inr (False, v2))) = Inr (False, w)"
    using assms(1) by (auto simp: solve_turn_def split: if_splits)
  note t = solve_test_progress [OF v1 inv]
  obtain b v2 where c: "solve_cached H thr conn ob v1 = Inr (b, v2)" using rest by auto
  note p = solve_cached_progress [OF c] t
  have len: "length (sv_buff v) < 2 ^ 31" using assms(2) by (simp add: solve_inv_def)
  consider (answered) "b" "w = v2"
    | (tunnel) "\<not> b" "\<not> sv_isCheck v2" "ob_context ob = None" "solve_tunnel conn nm v2 = Inr w"
    | (wait) "\<not> b" "ob_context ob = None" "w = v2"
    | (forward) d where "\<not> b" "ob_context ob = Some d" "solve_forward d nm v2 = Inr w"
    using rest c by (cases b; cases "ob_context ob") (auto split: if_splits)
  then show ?thesis
  proof cases
    case answered
    then show ?thesis using p len by (simp add: solve_inv_def)
  next
    case tunnel
    then show ?thesis using p len solve_tunnel_progress [OF tunnel(4)] by (simp add: solve_inv_def)
  next
    case wait
    then show ?thesis using p len by (simp add: solve_inv_def)
  next
    case forward
    then have "0 < sv_info v2" "length (sv_buff v2) = length (sv_buff v)" using p by simp_all
    then show ?thesis using forward(2) solve_forward_progress [OF forward(3)] len by (simp add: solve_inv_def)
  qed
qed

lemma solve_run_progress:
  assumes "solve_run H thr conn nm obs v = Inr (False, w)" and "solve_inv v"
  shows "length (filter (\<lambda>ob. ob_context ob \<noteq> None) obs) + length (sv_buff w) \<le> length (sv_buff v)"
  using assms
proof (induction obs arbitrary: v)
  case (Cons ob obs)
  then obtain v1 where v1: "solve_turn H thr conn nm ob v = Inr (False, v1)"
      "solve_run H thr conn nm obs v1 = Inr (False, w)"
    by (auto split: if_splits)
  note p = solve_turn_progress [OF v1(1) Cons.prems(2)]
  then show ?case using Cons.IH [OF v1(2)] by (cases "ob_context ob") auto
qed simp

section \<open>Property\<close>

text \<open>
  C20: A task ends once the web server has answered. In whatever way the other threads change
  what the task observes, after more turns with a connected tunnel than its input has bytes the
  loop has ended, by its condition or by a fault; so it can run for ever only while there is no
  connection to the web server.
\<close>

theorem solve_ends:
  assumes "length buff < 2 ^ 31" and "length buff < length (filter (\<lambda>ob. ob_context ob \<noteq> None) obs)"
  shows "(\<exists>v. solve_run H thr conn nm obs (solve_init buf buff tns cache e) = Inr (True, v)) \<or>
    (\<exists>f. solve_run H thr conn nm obs (solve_init buf buff tns cache e) = Inl f)"
proof (cases "solve_run H thr conn nm obs (solve_init buf buff tns cache e)")
  case (Inr r)
  obtain ended v where r: "r = (ended, v)" by (cases r)
  have "ended"
  proof (rule ccontr)
    assume "\<not> ended"
    then have "solve_run H thr conn nm obs (solve_init buf buff tns cache e) = Inr (False, v)" using Inr r by simp
    from solve_run_progress [OF this] assms show False by (simp add: solve_inv_def solve_init_def)
  qed
  then show ?thesis using Inr r by simp
qed simp

theorem solve_ends_witness:
  "(\<exists>v. solve_run demo_redis 1 2 ''c'' (demo_obs None # replicate 9 (demo_obs (Some 3)))
      (solve_init ''GET'' ''GET'' Map.empty demo_cache demo_env) = Inr (True, v)) \<or>
    (\<exists>f. solve_run demo_redis 1 2 ''c'' (demo_obs None # replicate 9 (demo_obs (Some 3)))
      (solve_init ''GET'' ''GET'' Map.empty demo_cache demo_env) = Inl f)"
  by (rule solve_ends) (simp_all add: demo_obs_def)

end
