(* ===== verification/Session.thy ===== *)
theory Session
  imports Solve_Ends "HOL-Library.Sublist"
begin

text \<open>
  Any number of browsers with all that works on their connections: the tasks of the worker
  threads (\<open>ProxyServer::solveOnMessage\<close>), the tunnels to the web server, whose handlers run in
  other threads, and the browsers themselves. The turns of the tasks and the handlers are the
  steps; they share the buffers and contexts of the connections and, in the server object, the
  map \<open>tunnels\<close> and the cache. Several tasks can work on one connection at a time.

  \<open>nm\<close> gives the names of the connections. A message of a connection queues a copy of its input
  (as \<open>onServerMessage\<close> does with a producer that was set); the task queue may hand a copy out
  more than once, so copies stay in \<open>wd_copies\<close>. A tunnel that is no longer in the map lives on
  in the callbacks that hold it; it is then one of \<open>wd_orphans\<close>. Two history variables:
  \<open>wd_dropped\<close> has the names whose entry was taken out of the map, because the browser went or
  because its buffer was too large; \<open>wd_links\<close> has the pairs of a browser's connection and a
  connection to the web server that a tunnel of this browser had. Inputs are bounded by \<open>2^31\<close>
  bytes when they are queued.
\<close>

section \<open>The transition system\<close>

datatype conn_phase = Fresh | Up | Down

record 's world =
  wd_phase :: "conn_id \<Rightarrow> conn_phase"
  wd_context :: "conn_id \<Rightarrow> conn_id option"
  wd_input :: "conn_id \<Rightarrow> string"
  wd_copies :: "(conn_id \<times> string) set"
  wd_server :: ProxyServer
  wd_orphans :: "Tunnel list"
  wd_renv :: "'s renv"
  wd_tasks :: "nat \<Rightarrow> (conn_id \<times> 's solve_vars) option"
  wd_dropped :: "string set"
  wd_links :: "(conn_id \<times> conn_id) set"

abbreviation tunnels_of :: "'s world \<Rightarrow> string \<rightharpoonup> Tunnel" where
  "tunnels_of w \<equiv> px_tunnels (wd_server w)"

abbreviation cache_of :: "'s world \<Rightarrow> Cache" where
  "cache_of w \<equiv> px_cache (wd_server w)"

text \<open>What the handlers of a tunnel do to the contexts of the browsers' connections.\<close>

fun contexts_after :: "conn_action list \<Rightarrow> (conn_id \<Rightarrow> conn_id option) \<Rightarrow> conn_id \<Rightarrow> conn_id option" where
  "contexts_after [] f = f"
| "contexts_after (Set_Context c y # as) f = contexts_after as (f(c := y))"
| "contexts_after (a # as) f = contexts_after as f"

text \<open>The connection handler of a tunnel, and the link that it makes.\<close>

definition new_links :: "bool \<Rightarrow> conn_id \<Rightarrow> Tunnel \<Rightarrow> (conn_id \<times> conn_id) set" where
  "new_links up d t = {(c, d) |c. up \<and> tn_serverConn t = Some c}"

definition handler_effect :: "bool \<Rightarrow> conn_id \<Rightarrow> Tunnel \<Rightarrow> conn_action list \<Rightarrow> 's world \<Rightarrow> 's world" where
  "handler_effect up d t as w = w\<lparr>wd_context := contexts_after as (wd_context w),
     wd_links := wd_links w \<union> new_links up d t\<rparr>"

text \<open>A turn of a task for connection \<open>c\<close> reads the shared parts and writes them back.\<close>

definition task_turn :: "'s hiredis \<Rightarrow> (conn_id \<Rightarrow> string) \<Rightarrow> nat \<Rightarrow> 64 word \<Rightarrow> conn_id \<Rightarrow> 's solve_vars \<Rightarrow> 's world
    \<Rightarrow> (bool \<times> 's solve_vars) result" where
  "task_turn H nm thr now c v w =
     solve_turn H thr c (nm c)
       \<lparr>ob_connected = (wd_phase w c = Up), ob_context = wd_context w c, ob_arrived = [], ob_now = now\<rparr>
       (v\<lparr>sv_buf := wd_input w c, sv_tunnels := tunnels_of w, sv_cache := cache_of w, sv_renv := wd_renv w,
          sv_acts := []\<rparr>)"

text \<open>The map has lost its tunnel when there is no entry, or one for which \<open>connect\<close> was just called.\<close>

definition released :: "string \<Rightarrow> 's solve_vars \<Rightarrow> 's world \<Rightarrow> Tunnel list" where
  "released n v w =
     (case tunnels_of w n of
        None \<Rightarrow> []
      | Some t \<Rightarrow> if sv_tunnels v n = None \<or> Client_Connect \<in> set (sv_acts v) then [t] else [])"

definition after_turn :: "string \<Rightarrow> nat \<Rightarrow> conn_id \<Rightarrow> bool \<Rightarrow> 's solve_vars \<Rightarrow> 's world \<Rightarrow> 's world" where
  "after_turn n thr c ended v w = w\<lparr>wd_input := (wd_input w)(c := sv_buf v),
     wd_server := (wd_server w)\<lparr>px_tunnels := sv_tunnels v, px_cache := sv_cache v\<rparr>,
     wd_orphans := released n v w @ wd_orphans w, wd_renv := sv_renv v,
     wd_tasks := (wd_tasks w)(thr := (if ended then None else Some (c, v))),
     wd_dropped := wd_dropped w \<union> (if tunnels_of w n \<noteq> None \<and> sv_tunnels v n = None then {n} else {})\<rparr>"

inductive world_step :: "'s hiredis \<Rightarrow> (conn_id \<Rightarrow> string) \<Rightarrow> 's world \<Rightarrow> 's world \<Rightarrow> bool"
  for H :: "'s hiredis" and nm :: "conn_id \<Rightarrow> string" where
  w_open: "wd_phase w c = Fresh \<Longrightarrow> onServerConnection True c (nm c) (wd_server w) = (as, srv) \<Longrightarrow>
     world_step H nm w (w\<lparr>wd_phase := (wd_phase w)(c := Up), wd_server := srv\<rparr>)"
| w_message: "wd_phase w c = Up \<Longrightarrow> input = wd_input w c @ bytes \<Longrightarrow> length input < 2 ^ 31 \<Longrightarrow>
     world_step H nm w (w\<lparr>wd_input := (wd_input w)(c := input), wd_copies := insert (c, input) (wd_copies w)\<rparr>)"
| w_task: "wd_tasks w thr = None \<Longrightarrow> (c, copy) \<in> wd_copies w \<Longrightarrow>
     world_step H nm w (w\<lparr>wd_tasks := (wd_tasks w)(thr :=
       Some (c, solve_init (wd_input w c) copy (tunnels_of w) (cache_of w) (wd_renv w)))\<rparr>)"
| w_turn: "wd_tasks w thr = Some (c, v) \<Longrightarrow> task_turn H nm thr now c v w = Inr (ended, v') \<Longrightarrow>
     world_step H nm w (after_turn (nm c) thr c ended v' w)"
| w_client: "tunnels_of w n = Some t \<Longrightarrow> onClientConnection up d t = Inr (as, t') \<Longrightarrow>
     world_step H nm w ((handler_effect up d t as w)\<lparr>
       wd_server := (wd_server w)\<lparr>px_tunnels := (tunnels_of w)(n \<mapsto> t')\<rparr>\<rparr>)"
| w_orphan: "i < length (wd_orphans w) \<Longrightarrow> t = wd_orphans w ! i \<Longrightarrow> onClientConnection up d t = Inr (as, t') \<Longrightarrow>
     world_step H nm w ((handler_effect up d t as w)\<lparr>wd_orphans := (wd_orphans w)[i := t']\<rparr>)"
| w_response: "tunnels_of w n = Some t \<Longrightarrow>
     onClientMessage H now bytes t (cache_of w) (wd_renv w) = Inr (as, t', cache, e) \<Longrightarrow>
     world_step H nm w (w\<lparr>wd_renv := e,
       wd_server := (wd_server w)\<lparr>px_tunnels := (tunnels_of w)(n \<mapsto> t'), px_cache := cache\<rparr>\<rparr>)"
| w_close: "wd_phase w c = Up \<Longrightarrow> onServerConnection False c (nm c) (wd_server w) = (as, srv) \<Longrightarrow>
     world_step H nm w (w\<lparr>wd_phase := (wd_phase w)(c := Down), wd_server := srv,
       wd_orphans := (case tunnels_of w (nm c) of None \<Rightarrow> [] | Some t \<Rightarrow> [t]) @ wd_orphans w,
       wd_dropped := wd_dropped w \<union> (if tunnels_of w (nm c) \<noteq> None then {nm c} else {})\<rparr>)"

definition cache_ok :: "Cache \<Rightarrow> bool" where
  "cache_ok c \<longleftrightarrow> (\<exists>l. mc_heap (ch_memoryCache c) (mc_lru_cache (ch_memoryCache c)) = Some l \<and> lru_inv l)"

text \<open>No browser has come yet; the server object has no tunnel, and a cache that is sound.\<close>

definition world_init :: "'s world \<Rightarrow> bool" where
  "world_init w \<longleftrightarrow> wd_phase w = (\<lambda>_. Fresh) \<and> wd_context w = (\<lambda>_. None) \<and> wd_copies w = {} \<and>
     tunnels_of w = Map.empty \<and> wd_orphans w = [] \<and> wd_tasks w = (\<lambda>_. None) \<and> wd_dropped w = {} \<and>
     wd_links w = {} \<and> cache_ok (cache_of w)"

section \<open>The cache in a turn\<close>

lemma readRedisCache_faults: "readRedisCache H r url e = Inl f \<Longrightarrow> f \<in> {Null_String, Bad_Range}"
  by (auto simp: readRedisCache_def strip_ends_def rbind_Inl_iff split: prod.splits option.splits if_splits)

lemma cache_ok_read:
  assumes "cache_ok c"
  shows "\<exists>v m. MemoryCache_readCache thr now url (ch_memoryCache c) = Inr (v, m) \<and> cache_ok (c\<lparr>ch_memoryCache := m\<rparr>)"
proof -
  obtain l where l: "mc_heap (ch_memoryCache c) (mc_lru_cache (ch_memoryCache c)) = Some l" "lru_inv l"
    using assms by (auto simp: cache_ok_def)
  obtain v l' where g: "Lru_get now url l = Inr (v, l')" "lru_inv l'" using lru.get_total [OF l(2)] by blast
  from MemoryCache_read [OF l(1) g(1), of thr] g(2) show ?thesis by (fastforce simp: cache_ok_def)
qed

lemma Cache_readCache_ok:
  assumes "cache_ok c"
  shows "case Cache_readCache H thr now url c e of
    Inl f \<Rightarrow> f \<in> {Null_String, Bad_Range} | Inr (v, c', e') \<Rightarrow> cache_ok c'"
proof -
  obtain v m where m: "MemoryCache_readCache thr now url (ch_memoryCache c) = Inr (v, m)" "cache_ok (c\<lparr>ch_memoryCache := m\<rparr>)"
    using cache_ok_read [OF assms] by blast
  show ?thesis
    using m readRedisCache_faults [of H "ch_redisCache (c\<lparr>ch_memoryCache := m\<rparr>)" url e]
    by (cases "readRedisCache H (ch_redisCache c) url e") (auto simp: Cache_readCache_def Let_def)
qed

section \<open>The faults of a turn\<close>

definition turn_fault :: "fault \<Rightarrow> bool" where
  "turn_fault f \<longleftrightarrow> f \<in> {Assert_Fail, Null_String, Bad_Range}"

lemma solve_test_total:
  assumes "solve_inv v"
  shows "\<exists>b w. solve_test ob v = Inr (b, w) \<and> sv_cache w = sv_cache v \<and> sv_tunnels w = sv_tunnels v"
  using assms by (auto simp: solve_test_def solve_inv_def parseRequest_spec split: prod.splits)

lemma solve_cached_total:
  assumes "cache_ok (sv_cache v)" and "0 < sv_info v" and "sv_info v \<le> int (length (sv_buff v))"
  shows "case solve_cached H thr conn ob v of Inl f \<Rightarrow> turn_fault f
    | Inr (b, w) \<Rightarrow> cache_ok (sv_cache w) \<and> sv_tunnels w = sv_tunnels v"
  using Cache_readCache_ok [OF assms(1), of H thr "ob_now ob" "request_url (sv_context v)" "sv_renv v"] assms
  by (auto simp: solve_cached_def retrieve_def erase_buff_def solve_reset_def turn_fault_def Let_def
      split: sum.splits prod.splits)

lemma solve_tunnel_total: "\<exists>w. solve_tunnel conn nm v = Inr w \<and> sv_cache w = sv_cache v"
  by (simp add: solve_tunnel_def Tunnel_setup_def Tunnel_new_def deref_def Let_def)

lemma solve_forward_total:
  assumes "0 < sv_info v" and "sv_info v \<le> int (length (sv_buff v))"
  shows "case solve_forward c nm v of Inl f \<Rightarrow> turn_fault f \<or> f = Null_Deref \<and> sv_tunnels v nm = None | Inr w \<Rightarrow> sv_cache w = sv_cache v"
  using assms
  by (auto simp: solve_forward_def deref_def retrieve_def erase_buff_def solve_reset_def turn_fault_def Let_def
      split: option.splits)

lemma solve_turn_total:
  assumes "solve_inv v" and "cache_ok (sv_cache v)"
  shows "case solve_turn H thr conn nm ob v of
    Inl f \<Rightarrow> turn_fault f \<or> f = Null_Deref \<and> ob_context ob \<noteq> None \<and> sv_tunnels v nm = None
  | Inr (b, w) \<Rightarrow> cache_ok (sv_cache w)"
proof -
  let ?v = "v\<lparr>sv_buf := sv_buf v @ ob_arrived ob\<rparr>"
  have inv: "solve_inv ?v" using assms(1) by (simp add: solve_inv_def)
  obtain go v1 where t: "solve_test ob ?v = Inr (go, v1)" "sv_cache v1 = sv_cache v" "sv_tunnels v1 = sv_tunnels v"
    using solve_test_total [OF inv, of ob] by auto
  show ?thesis
  proof (cases go)
    case False
    then show ?thesis using t assms(2) by (simp add: solve_turn_def solve_finish_def Let_def)
  next
    case True
    then have p: "0 < sv_info v1" "sv_info v1 \<le> int (length (sv_buff v1))"
      using solve_test_progress [of ob ?v v1] t(1) inv by simp_all
    note c = solve_cached_total [of v1 H thr conn ob, OF _ p]
    show ?thesis
    proof (cases "solve_cached H thr conn ob v1")
      case (Inl f)
      then show ?thesis using c t assms(2) True by (simp add: solve_turn_def)
    next
      case (Inr r)
      obtain b v2 where r: "r = (b, v2)" by (cases r)
      have v2: "cache_ok (sv_cache v2)" "sv_tunnels v2 = sv_tunnels v" using c Inr r t assms(2) by simp_all
      show ?thesis
      proof (cases b)
        case True
        then show ?thesis using Inr r t \<open>go\<close> v2 by (simp add: solve_turn_def)
      next
        case False
        then have "sv_info v2 = sv_info v1" "sv_buff v2 = sv_buff v1"
          using solve_cached_progress [of H thr conn ob v1 b v2] Inr r p(1) by simp_all
        then have f: "case solve_forward d nm v2 of Inl f \<Rightarrow> turn_fault f \<or> f = Null_Deref \<and> sv_tunnels v nm = None
            | Inr w \<Rightarrow> sv_cache w = sv_cache v2" for d
          using solve_forward_total [of v2 nm d] v2(2) p by (simp split: sum.splits)
        obtain w where w: "solve_tunnel conn nm v2 = Inr w" "sv_cache w = sv_cache v2"
          using solve_tunnel_total [of conn nm v2] by blast
        show ?thesis
        proof (cases "ob_context ob")
          case None
          then show ?thesis using Inr r t \<open>go\<close> False v2(1) w by (simp add: solve_turn_def)
        next
          case (Some d)
          then show ?thesis
            using Inr r t \<open>go\<close> False v2(1) f [of d]
            by (cases "solve_forward d nm v2") (simp_all add: solve_turn_def)
        qed
      qed
    qed
  qed
qed

section \<open>What a turn changes\<close>

text \<open>
  A turn of a task for \<open>conn\<close> touches the entry of its own connection only, keeps the browser
  of the tunnel in it, and sends either a cached response to the browser or a part of its copy
  of the input to the connection in the context.
\<close>

definition sends_ok :: "conn_id \<Rightarrow> conn_id option \<Rightarrow> string \<Rightarrow> conn_action list \<Rightarrow> bool" where
  "sends_ok conn ctx buff as \<longleftrightarrow> (\<forall>x data. Send x data \<in> set as \<longrightarrow>
     x = conn \<and> (\<exists>content. data = createResponse content) \<or> ctx = Some x \<and> (\<exists>n. data = take n buff))"

definition tunnels_changed :: "conn_id \<Rightarrow> string \<Rightarrow> (string \<rightharpoonup> Tunnel) \<Rightarrow> (string \<rightharpoonup> Tunnel) \<Rightarrow> bool" where
  "tunnels_changed conn nm m m' \<longleftrightarrow> (\<forall>n. n \<noteq> nm \<longrightarrow> m' n = m n) \<and>
     (\<forall>t. m' nm = Some t \<longrightarrow> tn_serverConn t = Some conn \<or>
        (\<exists>t0. m nm = Some t0 \<and> tn_serverConn t = tn_serverConn t0))"

lemma tunnels_changed_refl: "tunnels_changed conn nm m m"
  by (simp add: tunnels_changed_def)

lemma sends_ok_Nil [simp]: "sends_ok conn ctx buff []"
  by (simp add: sends_ok_def)

lemma solve_test_effect:
  "solve_test ob v = Inr (b, w) \<Longrightarrow> sv_tunnels w = sv_tunnels v \<and> sv_acts w = sv_acts v \<and> sv_buff w = sv_buff v"
  by (auto simp: solve_test_def split: if_splits)

lemma solve_cached_effect:
  assumes "solve_cached H thr conn ob v = Inr (b, w)" and "sv_acts v = []"
  shows "sv_tunnels w = sv_tunnels v" and "sends_ok conn ctx buff (sv_acts w)"
    and "\<not> b \<Longrightarrow> sv_acts w = [] \<and> sv_buff w = sv_buff v"
  using assms
  by (auto simp: solve_cached_def retrieve_def erase_buff_def solve_reset_def sends_ok_def Let_def split: if_splits)

lemma solve_tunnel_effect:
  assumes "solve_tunnel conn nm v = Inr w" and "sv_acts v = []"
  shows "tunnels_changed conn nm (sv_tunnels v) (sv_tunnels w)" and "sends_ok conn ctx buff (sv_acts w)"
  using assms
  by (auto simp: solve_tunnel_def Tunnel_setup_def Tunnel_connect_def Tunnel_new_def deref_def Let_def
      tunnels_changed_def sends_ok_def)

lemma solve_forward_effect:
  assumes "solve_forward d nm v = Inr w" and "sv_acts v = []"
  shows "tunnels_changed conn nm (sv_tunnels v) (sv_tunnels w)" and "sends_ok conn (Some d) (sv_buff v) (sv_acts w)"
  using assms
  by (auto simp: solve_forward_def deref_def retrieve_def erase_buff_def solve_reset_def pushCache_def Let_def
      tunnels_changed_def sends_ok_def split: if_splits option.splits)

lemma solve_finish_effect:
  assumes "sv_acts v = []"
  shows "tunnels_changed conn nm (sv_tunnels v) (sv_tunnels (solve_finish conn nm v))"
    and "sends_ok conn ctx buff (sv_acts (solve_finish conn nm v))"
  using assms
  by (auto simp: solve_finish_def Tunnel_disconnect_def Let_def tunnels_changed_def sends_ok_def)

lemma solve_turn_effect:
  assumes "solve_turn H thr conn nm ob v = Inr (b, w)" and "sv_acts v = []"
  shows "tunnels_changed conn nm (sv_tunnels v) (sv_tunnels w) \<and>
    sends_ok conn (ob_context ob) (sv_buff v) (sv_acts w)"
proof -
  obtain go v1 where t: "solve_test ob (v\<lparr>sv_buf := sv_buf v @ ob_arrived ob\<rparr>) = Inr (go, v1)"
    and rest: "(if \<not> go then Inr (True, solve_finish conn nm v1)
       else rbind (solve_cached H thr conn ob v1) (\<lambda>(continue, v2).
         if continue then Inr (False, v2)
         else if \<not> sv_isCheck v2 \<and> ob_context ob = None
              then rbind (solve_tunnel conn nm v2) (\<lambda>v3. Inr (False, v3))
              else (case ob_context ob of
                      Some c \<Rightarrow> rbind (solve_forward c nm v2) (\<lambda>v3. Inr (False, v3))
                    | None \<Rightarrow> Inr (False, v2)))) = Inr (b, w)"
    using assms(1) by (auto simp: solve_turn_def)
  have v1: "sv_tunnels v1 = sv_tunnels v" "sv_acts v1 = []" "sv_buff v1 = sv_buff v"
    using solve_test_effect [OF t] assms(2) by simp_all
  show ?thesis
  proof (cases go)
    case False
    then show ?thesis using rest v1 solve_finish_effect [OF v1(2)] by auto
  next
    case True
    then obtain c v2 where c: "solve_cached H thr conn ob v1 = Inr (c, v2)" using rest by auto
    note e = solve_cached_effect [OF c v1(2)]
    show ?thesis
    proof (cases c)
      case True
      then show ?thesis using rest \<open>go\<close> c e(1,2) v1 by (simp add: tunnels_changed_refl)
    next
      case False
      then have v2: "sv_tunnels v2 = sv_tunnels v" "sv_acts v2 = []" "sv_buff v2 = sv_buff v"
        using e v1 by simp_all
      show ?thesis
      proof (cases "ob_context ob")
        case None
        then show ?thesis
          using rest \<open>go\<close> c False v2
            solve_tunnel_effect(1) [OF _ v2(2), where conn = conn and nm = nm]
            solve_tunnel_effect(2) [OF _ v2(2), where conn = conn and nm = nm and ctx = None and buff = "sv_buff v"]
          by (auto simp: tunnels_changed_refl split: if_splits)
      next
        case (Some d)
        then show ?thesis
          using rest \<open>go\<close> c False v2 solve_forward_effect [OF _ v2(2)] by auto
      qed
    qed
  qed
qed

section \<open>The invariant\<close>

text \<open>The name of every tunnel's entry is that of its browser's connection.\<close>

definition tunnels_named :: "(conn_id \<Rightarrow> string) \<Rightarrow> (string \<rightharpoonup> Tunnel) \<Rightarrow> bool" where
  "tunnels_named nm m \<longleftrightarrow> (\<forall>n t c. m n = Some t \<longrightarrow> tn_serverConn t = Some c \<longrightarrow> nm c = n)"

text \<open>
  Without a drop the entry of a connection is there as soon as the connection has a context or a
  tunnel outside the map.
\<close>

definition needs_entry :: "'s world \<Rightarrow> conn_id \<Rightarrow> bool" where
  "needs_entry w c \<longleftrightarrow> wd_context w c \<noteq> None \<or> Some c \<in> tn_serverConn ` set (wd_orphans w)"

definition entries_kept :: "(conn_id \<Rightarrow> string) \<Rightarrow> 's world \<Rightarrow> bool" where
  "entries_kept nm w \<longleftrightarrow> (\<forall>c. needs_entry w c \<longrightarrow> nm c \<notin> wd_dropped w \<longrightarrow> tunnels_of w (nm c) \<noteq> None)"

definition contexts_linked :: "'s world \<Rightarrow> bool" where
  "contexts_linked w \<longleftrightarrow> (\<forall>c d. wd_context w c = Some d \<longrightarrow> (c, d) \<in> wd_links w)"

definition tasks_ok :: "'s world \<Rightarrow> bool" where
  "tasks_ok w \<longleftrightarrow> (\<forall>thr c v. wd_tasks w thr = Some (c, v) \<longrightarrow> solve_inv v) \<and>
     (\<forall>(c, copy) \<in> wd_copies w. length copy < 2 ^ 31)"

definition world_inv :: "(conn_id \<Rightarrow> string) \<Rightarrow> 's world \<Rightarrow> bool" where
  "world_inv nm w \<longleftrightarrow> cache_ok (cache_of w) \<and> tasks_ok w \<and> tunnels_named nm (tunnels_of w) \<and>
     entries_kept nm w \<and> contexts_linked w"

lemma world_init_inv: "world_init w \<Longrightarrow> world_inv nm w"
  by (simp add: world_init_def world_inv_def tasks_ok_def tunnels_named_def entries_kept_def
      needs_entry_def contexts_linked_def)

lemma handler_cases:
  assumes "onClientConnection up d t = Inr (as, t')"
  shows "tn_serverConn t' = tn_serverConn t"
    and "contexts_after as f c = (if tn_serverConn t = Some c then if up then Some d else None else f c)"
  using assms
  by (auto simp: onClientConnection_def teardown_def deref_def split: option.splits if_splits)

text \<open>The handler of a tunnel whose browsers, if any, have an entry.\<close>

lemma handler_inv:
  assumes "world_inv nm w" and "onClientConnection up d t = Inr (as, t')"
    and "\<And>c. tn_serverConn t = Some c \<Longrightarrow> nm c \<notin> wd_dropped w \<Longrightarrow> tunnels_of w (nm c) \<noteq> None"
  shows "world_inv nm (handler_effect up d t as w)"
proof -
  let ?w = "handler_effect up d t as w"
  have same: "wd_server ?w = wd_server w" "wd_dropped ?w = wd_dropped w" "wd_orphans ?w = wd_orphans w"
    "wd_tasks ?w = wd_tasks w" "wd_copies ?w = wd_copies w"
    by (simp_all add: handler_effect_def)
  have ctx: "wd_context ?w c = (if tn_serverConn t = Some c then if up then Some d else None else wd_context w c)" for c
    using handler_cases(2) [OF assms(2), of "wd_context w" c] by (simp add: handler_effect_def)
  have "entries_kept nm ?w"
    using assms(1,3) by (auto simp: world_inv_def entries_kept_def needs_entry_def ctx same split: if_splits)
  moreover have "contexts_linked ?w"
    using assms(1) unfolding contexts_linked_def ctx
    by (auto simp: world_inv_def contexts_linked_def handler_effect_def new_links_def split: if_splits)
  ultimately show ?thesis using assms(1) by (simp add: world_inv_def tasks_ok_def same)
qed

lemma named_entry: "tunnels_named nm m \<Longrightarrow> m n = Some t \<Longrightarrow> tn_serverConn t = Some c \<Longrightarrow> nm c = n"
  by (simp add: tunnels_named_def)

lemma named_upd:
  "tunnels_named nm m \<Longrightarrow> m n = Some t \<Longrightarrow> tn_serverConn t' = tn_serverConn t \<Longrightarrow> tunnels_named nm (m(n \<mapsto> t'))"
  by (auto simp: tunnels_named_def)

text \<open>A tunnel of the map is replaced by one of the same browser.\<close>

lemma replace_inv:
  assumes "world_inv nm w" and "tunnels_of w n = Some t" and "tn_serverConn t' = tn_serverConn t" and "cache_ok c"
  shows "world_inv nm (w\<lparr>wd_server := (wd_server w)\<lparr>px_tunnels := (tunnels_of w)(n \<mapsto> t'), px_cache := c\<rparr>\<rparr>)"
  using assms named_upd [where nm = nm and m = "tunnels_of w", OF _ assms(2,3)]
  by (auto simp: world_inv_def tasks_ok_def entries_kept_def needs_entry_def contexts_linked_def)

text \<open>An entry is taken out of the map, or its tunnel is replaced by a new one.\<close>

lemma release_inv:
  assumes "world_inv nm w" and "tunnels_changed c (nm c) (tunnels_of w) m" and "cache_ok ca"
    and "set os \<subseteq> set_option (tunnels_of w (nm c))"
    and "D = (if tunnels_of w (nm c) \<noteq> None \<and> m (nm c) = None then {nm c} else {})"
  shows "world_inv nm (w\<lparr>wd_server := (wd_server w)\<lparr>px_tunnels := m, px_cache := ca\<rparr>,
    wd_orphans := os @ wd_orphans w, wd_dropped := wd_dropped w \<union> D\<rparr>)" (is "world_inv nm ?w")
proof -
  have named: "tunnels_named nm (tunnels_of w)" using assms(1) by (simp add: world_inv_def)
  have ch: "\<And>n. n \<noteq> nm c \<Longrightarrow> m n = tunnels_of w n"
    "\<And>t. m (nm c) = Some t \<Longrightarrow> tn_serverConn t = Some c \<or>
      (\<exists>t0. tunnels_of w (nm c) = Some t0 \<and> tn_serverConn t = tn_serverConn t0)"
    using assms(2) by (auto simp: tunnels_changed_def)
  have "tunnels_named nm m"
    unfolding tunnels_named_def
  proof (intro allI impI)
    fix n t x assume t: "m n = Some t" "tn_serverConn t = Some x"
    show "nm x = n"
    proof (cases "n = nm c")
      case True
      then show ?thesis using ch(2) [of t] t named_entry [OF named] by auto
    next
      case False
      then show ?thesis using ch(1) [of n] t named_entry [OF named, of n t x] by simp
    qed
  qed
  moreover have "entries_kept nm ?w"
    unfolding entries_kept_def
  proof (intro allI impI)
    fix x assume need: "needs_entry ?w x" and nd: "nm x \<notin> wd_dropped ?w"
    have "needs_entry w x \<or> (\<exists>t. tunnels_of w (nm c) = Some t \<and> tn_serverConn t = Some x)"
      using need assms(4) by (auto simp: needs_entry_def)
    then have "tunnels_of w (nm x) \<noteq> None"
      using assms(1) nd named_entry [OF named] by (auto simp: world_inv_def entries_kept_def)
    then show "tunnels_of ?w (nm x) \<noteq> None"
      using nd ch(1) [of "nm x"] assms(5) by (cases "nm x = nm c") (auto split: if_splits)
  qed
  ultimately show ?thesis
    using assms(1,3) by (auto simp: world_inv_def tasks_ok_def contexts_linked_def)
qed

text \<open>The parts of the state that are nobody's business but the tasks'.\<close>

lemma local_inv:
  assumes "world_inv nm w" and "\<And>thr c v. T thr = Some (c, v) \<Longrightarrow> solve_inv v"
    and "\<And>c copy. (c, copy) \<in> C \<Longrightarrow> length copy < 2 ^ 31"
    and "w' = w\<lparr>wd_phase := P, wd_input := I, wd_copies := C, wd_renv := e, wd_tasks := T\<rparr>"
  shows "world_inv nm w'"
  using assms
  by (auto simp: world_inv_def tasks_ok_def entries_kept_def needs_entry_def contexts_linked_def)

lemma world_invD:
  assumes "world_inv nm w"
  shows "cache_ok (cache_of w)" and "wd_tasks w thr = Some (c, v) \<Longrightarrow> solve_inv v"
    and "(c, copy) \<in> wd_copies w \<Longrightarrow> length copy < 2 ^ 31"
    and "wd_context w c \<noteq> None \<Longrightarrow> nm c \<notin> wd_dropped w \<Longrightarrow> tunnels_of w (nm c) \<noteq> None"
    and "wd_context w c = Some d \<Longrightarrow> (c, d) \<in> wd_links w"
    and "t \<in> set (wd_orphans w) \<Longrightarrow> tn_serverConn t = Some c \<Longrightarrow> nm c \<notin> wd_dropped w \<Longrightarrow>
      tunnels_of w (nm c) \<noteq> None"
    and "tunnels_named nm (tunnels_of w)"
proof -
  note inv = assms [unfolded world_inv_def tasks_ok_def entries_kept_def needs_entry_def contexts_linked_def]
  show "cache_ok (cache_of w)" using inv by blast
  show "wd_tasks w thr = Some (c, v) \<Longrightarrow> solve_inv v" using inv by blast
  show "(c, copy) \<in> wd_copies w \<Longrightarrow> length copy < 2 ^ 31" using inv by blast
  show "wd_context w c \<noteq> None \<Longrightarrow> nm c \<notin> wd_dropped w \<Longrightarrow> tunnels_of w (nm c) \<noteq> None" using inv by blast
  show "wd_context w c = Some d \<Longrightarrow> (c, d) \<in> wd_links w" using inv by blast
  show "t \<in> set (wd_orphans w) \<Longrightarrow> tn_serverConn t = Some c \<Longrightarrow> nm c \<notin> wd_dropped w \<Longrightarrow>
      tunnels_of w (nm c) \<noteq> None" using inv by (metis image_eqI)
  show "tunnels_named nm (tunnels_of w)" using inv by blast
qed

lemma task_turn_cases:
  assumes "world_inv nm w" and "wd_tasks w thr = Some (c, v)"
  shows "case task_turn H nm thr now c v w of
    Inl f \<Rightarrow> turn_fault f \<or> f = Null_Deref \<and> nm c \<in> wd_dropped w
  | Inr (b, v') \<Rightarrow> cache_ok (sv_cache v') \<and> (\<not> b \<longrightarrow> solve_inv v') \<and>
      tunnels_changed c (nm c) (tunnels_of w) (sv_tunnels v') \<and>
      sends_ok c (wd_context w c) (sv_buff v) (sv_acts v')"
proof -
  let ?ob = "\<lparr>ob_connected = (wd_phase w c = Up), ob_context = wd_context w c, ob_arrived = [], ob_now = now\<rparr>"
  let ?v = "v\<lparr>sv_buf := wd_input w c, sv_tunnels := tunnels_of w, sv_cache := cache_of w, sv_renv := wd_renv w,
    sv_acts := []\<rparr>"
  note invD = world_invD [OF assms(1)]
  have inv: "solve_inv ?v" "cache_ok (sv_cache ?v)"
    using invD(1) invD(2) [OF assms(2)] by (simp_all add: solve_inv_def)
  note total = solve_turn_total [OF inv, where H = H and thr = thr and conn = c and nm = "nm c" and ob = ?ob]
  show ?thesis
  proof (cases "solve_turn H thr c (nm c) ?ob ?v")
    case (Inl f)
    then show ?thesis using total invD(4) [of c] by (cases "nm c \<in> wd_dropped w") (auto simp: task_turn_def)
  next
    case (Inr r)
    obtain b v' where r: "r = (b, v')" by (cases r)
    have "tunnels_changed c (nm c) (tunnels_of w) (sv_tunnels v') \<and>
        sends_ok c (wd_context w c) (sv_buff v) (sv_acts v')"
      using solve_turn_effect [OF Inr [unfolded r]] by simp
    then show ?thesis
      using total Inr r solve_turn_progress [OF _ inv(1), of H thr c "nm c" ?ob v']
      by (cases b) (auto simp: task_turn_def)
  qed
qed

lemma world_turn_inv:
  assumes "world_inv nm w" and "wd_tasks w thr = Some (c, v)" and "task_turn H nm thr now c v w = Inr (b, v')"
  shows "world_inv nm (after_turn (nm c) thr c b v' w)"
proof -
  let ?D = "if tunnels_of w (nm c) \<noteq> None \<and> sv_tunnels v' (nm c) = None then {nm c} else {}"
  let ?w = "w\<lparr>wd_server := (wd_server w)\<lparr>px_tunnels := sv_tunnels v', px_cache := sv_cache v'\<rparr>,
    wd_orphans := released (nm c) v' w @ wd_orphans w, wd_dropped := wd_dropped w \<union> ?D\<rparr>"
  have v': "cache_ok (sv_cache v')" "\<not> b \<Longrightarrow> solve_inv v'"
    "tunnels_changed c (nm c) (tunnels_of w) (sv_tunnels v')"
    using task_turn_cases [OF assms(1,2), of H now] assms(3) by auto
  have "set (released (nm c) v' w) \<subseteq> set_option (tunnels_of w (nm c))"
    by (auto simp: released_def split: option.splits)
  with v'(3,1) have inv: "world_inv nm ?w" by (rule release_inv [OF assms(1)]) simp
  show ?thesis
  proof (rule local_inv [OF inv])
    let ?T = "(wd_tasks w)(thr := (if b then None else Some (c, v')))"
    show "solve_inv x" if "?T thr' = Some (c', x)" for thr' c' x
      using that v'(2) world_invD(2) [OF assms(1)] by (auto split: if_splits)
    show "length copy < 2 ^ 31" if "(c', copy) \<in> wd_copies w" for c' copy
      using that world_invD(3) [OF assms(1)] by blast
    show "after_turn (nm c) thr c b v' w = ?w\<lparr>wd_phase := wd_phase w,
      wd_input := (wd_input w)(c := sv_buf v'), wd_copies := wd_copies w, wd_renv := sv_renv v', wd_tasks := ?T\<rparr>"
      by (simp add: after_turn_def)
  qed
qed

lemma world_close_inv:
  assumes "world_inv nm w" and "onServerConnection False c (nm c) (wd_server w) = (as, srv)"
  shows "world_inv nm (w\<lparr>wd_phase := P, wd_server := srv,
    wd_orphans := (case tunnels_of w (nm c) of None \<Rightarrow> [] | Some t \<Rightarrow> [t]) @ wd_orphans w,
    wd_dropped := wd_dropped w \<union> (if tunnels_of w (nm c) \<noteq> None then {nm c} else {})\<rparr>)"
proof -
  let ?os = "case tunnels_of w (nm c) of None \<Rightarrow> [] | Some t \<Rightarrow> [t]"
  let ?m = "(tunnels_of w)(nm c := None)"
  have srv: "srv = (wd_server w)\<lparr>px_tunnels := ?m, px_cache := cache_of w\<rparr>"
    using assms(2) by (auto simp: onServerConnection_def fun_upd_idem split: option.splits)
  have "tunnels_changed c (nm c) (tunnels_of w) ?m" by (simp add: tunnels_changed_def)
  moreover have "set ?os \<subseteq> set_option (tunnels_of w (nm c))" by (auto split: option.splits)
  ultimately have inv: "world_inv nm (w\<lparr>wd_server := (wd_server w)\<lparr>px_tunnels := ?m, px_cache := cache_of w\<rparr>,
      wd_orphans := ?os @ wd_orphans w,
      wd_dropped := wd_dropped w \<union> (if tunnels_of w (nm c) \<noteq> None \<and> ?m (nm c) = None then {nm c} else {})\<rparr>)"
    using world_invD(1) [OF assms(1)] by (intro release_inv [OF assms(1)]) auto
  show ?thesis
    by (rule local_inv [OF inv, where T = "wd_tasks w" and C = "wd_copies w" and P = P and I = "wd_input w" and e = "wd_renv w"])
      (use world_invD(2,3) [OF assms(1)] srv in auto)
qed

lemma world_step_inv: "world_step H nm w w' \<Longrightarrow> world_inv nm w \<Longrightarrow> world_inv nm w'"
proof (induction rule: world_step.induct)
  case (w_open w c as srv)
  then have "srv = wd_server w" by (simp add: onServerConnection_def)
  then show ?case
    using w_open(3) by (simp add: world_inv_def tasks_ok_def entries_kept_def needs_entry_def contexts_linked_def)
next
  case (w_message w c input bytes)
  show ?case
    by (rule local_inv [OF w_message(4), where T = "wd_tasks w" and C = "insert (c, input) (wd_copies w)"
        and P = "wd_phase w" and I = "(wd_input w)(c := input)" and e = "wd_renv w"])
      (use world_invD(2,3) [OF w_message(4)] w_message(3) in auto)
next
  case (w_task w thr c copy)
  let ?v = "solve_init (wd_input w c) copy (tunnels_of w) (cache_of w) (wd_renv w)"
  have "solve_inv ?v"
    using world_invD(3) [OF w_task(3,2)] by (simp add: solve_inv_def solve_init_def)
  then show ?case
    by (intro local_inv [OF w_task(3), where T = "(wd_tasks w)(thr := Some (c, ?v))" and C = "wd_copies w"
        and P = "wd_phase w" and I = "wd_input w" and e = "wd_renv w"])
      (use world_invD(2,3) [OF w_task(3)] in \<open>auto split: if_splits\<close>)
next
  case (w_turn w thr c v now ended v')
  then show ?case using world_turn_inv by blast
next
  case (w_client w n t up d as t')
  have "tunnels_of w (nm c) \<noteq> None" if "tn_serverConn t = Some c" for c
    using named_entry [OF world_invD(7) [OF w_client(3)] w_client(1) that] w_client(1) by simp
  then have inv: "world_inv nm (handler_effect up d t as w)"
    by (intro handler_inv [OF w_client(3,2)]) blast
  have same: "wd_server (handler_effect up d t as w) = wd_server w" by (simp add: handler_effect_def)
  show ?case
    using replace_inv [OF inv, of n t t' "cache_of w"] w_client(1) handler_cases(1) [OF w_client(2)]
      world_invD(1) [OF w_client(3)]
    by (simp add: same)
next
  case (w_orphan i w t up d as t')
  have t: "t \<in> set (wd_orphans w)" using w_orphan(1,2) by simp
  have inv: "world_inv nm (handler_effect up d t as w)"
    using world_invD(6) [OF w_orphan(4) t] by (intro handler_inv [OF w_orphan(4,3)]) blast
  have "wd_orphans (handler_effect up d t as w) = wd_orphans w" by (simp add: handler_effect_def)
  moreover have "tn_serverConn ` set ((wd_orphans w)[i := t']) \<subseteq> tn_serverConn ` set (wd_orphans w)"
    using handler_cases(1) [OF w_orphan(3)] t set_update_subset_insert [of "wd_orphans w" i t'] by auto
  ultimately show ?case
    using inv by (auto simp: world_inv_def tasks_ok_def entries_kept_def needs_entry_def contexts_linked_def)
next
  case (w_response w n t now bytes as t' cache e)
  have r: "t' = t" "cache = cache_of w" "e = wd_renv w"
    using w_response(2) by (auto simp: onClientMessage_holds_back split: if_splits)
  have "world_inv nm (w\<lparr>wd_server := (wd_server w)\<lparr>px_tunnels := (tunnels_of w)(n \<mapsto> t'), px_cache := cache\<rparr>\<rparr>)"
    using w_response(1,3) r world_invD(1) [OF w_response(3)] by (intro replace_inv) simp_all
  then show ?case using r(3) by simp
next
  case (w_close w c as srv)
  then show ?case using world_close_inv by blast
qed

interpretation ss: transition_system world_init "world_step H nm" "world_inv nm" for H nm
  by unfold_locales (auto intro: world_init_inv world_step_inv)

section \<open>Where the bytes of a task come from\<close>

text \<open>What is left of a task's copy is the end of a copy that a message of its connection made.\<close>

definition tasks_copied :: "'s world \<Rightarrow> bool" where
  "tasks_copied w \<longleftrightarrow> (\<forall>thr c v. wd_tasks w thr = Some (c, v) \<longrightarrow>
     (\<exists>copy. (c, copy) \<in> wd_copies w \<and> suffix (sv_buff v) copy))"

lemma solve_cached_suffix: "solve_cached H thr conn ob v = Inr (b, w) \<Longrightarrow> suffix (sv_buff w) (sv_buff v)"
  by (auto simp: solve_cached_def retrieve_def erase_buff_def solve_reset_def suffix_drop Let_def split: if_splits)

lemma solve_tunnel_buff: "solve_tunnel conn nm v = Inr w \<Longrightarrow> sv_buff w = sv_buff v"
  by (auto simp: solve_tunnel_def Tunnel_setup_def deref_def Let_def)

lemma solve_forward_suffix: "solve_forward d nm v = Inr w \<Longrightarrow> suffix (sv_buff w) (sv_buff v)"
  by (auto simp: solve_forward_def deref_def retrieve_def erase_buff_def solve_reset_def suffix_drop Let_def
      split: if_splits option.splits)

lemma solve_turn_suffix:
  assumes "solve_turn H thr conn nm ob v = Inr (b, w)"
  shows "suffix (sv_buff w) (sv_buff v)"
proof -
  obtain go v1 where t: "solve_test ob (v\<lparr>sv_buf := sv_buf v @ ob_arrived ob\<rparr>) = Inr (go, v1)"
    using assms by (auto simp: solve_turn_def)
  have v1: "sv_buff v1 = sv_buff v" using solve_test_effect [OF t] by simp
  have finish: "sv_buff (solve_finish conn nm v1) = sv_buff v"
    using v1 by (simp add: solve_finish_def Let_def)
  have rest: "suffix (sv_buff w) (sv_buff v)"
    if "solve_cached H thr conn ob v1 = Inr (c, v2)"
      "w = v2 \<or> solve_tunnel conn nm v2 = Inr w \<or> solve_forward d nm v2 = Inr w" for c d v2
    using solve_cached_suffix [OF that(1)] that(2) v1 solve_tunnel_buff [of conn nm v2 w]
      solve_forward_suffix [of d nm v2 w]
    by (auto intro: suffix_order.trans)
  show ?thesis
    using assms t finish rest by (auto simp: solve_turn_def split: if_splits option.splits)
qed

lemma tasks_copied_step: "world_step H nm w w' \<Longrightarrow> tasks_copied w \<Longrightarrow> tasks_copied w'"
proof (induction rule: world_step.induct)
  case (w_message w c input bytes)
  then show ?case by (fastforce simp: tasks_copied_def)
next
  case (w_task w thr c copy)
  then show ?case by (auto simp: tasks_copied_def solve_init_def)
next
  case (w_turn w thr c v now ended v')
  have "suffix (sv_buff v') (sv_buff v)"
    using solve_turn_suffix [OF w_turn(2) [unfolded task_turn_def]] by simp
  then have "\<exists>copy. (c, copy) \<in> wd_copies w \<and> suffix (sv_buff v') copy"
    using w_turn(1,3) unfolding tasks_copied_def by (blast intro: suffix_order.trans)
  then show ?case using w_turn(3) by (simp add: tasks_copied_def after_turn_def)
qed (simp_all add: tasks_copied_def handler_effect_def)

interpretation copied: transition_system world_init "world_step H nm" tasks_copied for H nm
  by unfold_locales (simp add: tasks_copied_def world_init_def, rule tasks_copied_step)

text \<open>The parts that a task sends.\<close>

definition sent_from :: "(conn_id \<times> string) set \<Rightarrow> (conn_id \<times> conn_id) set \<Rightarrow> conn_id \<Rightarrow> conn_action list \<Rightarrow> bool" where
  "sent_from copies links c as \<longleftrightarrow> (\<forall>x data. Send x data \<in> set as \<longrightarrow>
     x = c \<and> (\<exists>content. data = createResponse content) \<or>
     (c, x) \<in> links \<and> (\<exists>copy. (c, copy) \<in> copies \<and> sublist data copy))"

lemma turn_sends:
  assumes "reach world_init (world_step H nm) w" and "wd_tasks w thr = Some (c, v)"
    and "task_turn H nm thr now c v w = Inr (ended, v')"
  shows "sent_from (wd_copies w) (wd_links w) c (sv_acts v')"
proof -
  note inv = ss.reach_inv [OF assms(1)]
  have e: "sends_ok c (wd_context w c) (sv_buff v) (sv_acts v')"
    using task_turn_cases [OF inv assms(2), of H now] assms(3) by simp
  obtain copy where copy: "(c, copy) \<in> wd_copies w" "suffix (sv_buff v) copy"
    using copied.reach_inv [OF assms(1)] assms(2) unfolding tasks_copied_def by blast
  have "sublist (take n (sv_buff v)) copy" for n
    using copy(2) sublist_order.order.trans [OF sublist_take suffix_imp_sublist] by blast
  then show ?thesis
    using e world_invD(5) [OF inv, of c] copy(1) unfolding sends_ok_def sent_from_def by blast
qed

section \<open>A run in which the tunnel is connected\<close>

lemma solve_turn_null:
  assumes "sv_isCheck v" and "request_method (sv_context v) \<noteq> GetMethod" and "ob_context ob = Some c"
    and "sv_tunnels v nm = None"
  shows "solve_turn H thr conn nm ob v = Inl Null_Deref"
  using assms by (simp add: solve_turn_def solve_test_def solve_cached_def solve_forward_def deref_def)

text \<open>A server object as the constructor makes it is a good start.\<close>

lemma new_server_ok:
  assumes "ProxyServer_new junk_size junk_time idle loop address server_name mutex = Inr srv"
  shows "px_tunnels srv = Map.empty" and "cache_ok (px_cache srv)"
  using assms by (auto simp: ProxyServer_new_def Cache_new_def MemoryCache_new_def cache_ok_def Lru_new_inv)

definition world_new :: "ProxyServer \<Rightarrow> 's renv \<Rightarrow> 's world" where
  "world_new srv e = \<lparr>wd_phase = (\<lambda>_. Fresh), wd_context = (\<lambda>_. None), wd_input = (\<lambda>_. []), wd_copies = {},
     wd_server = srv, wd_orphans = [], wd_renv = e, wd_tasks = (\<lambda>_. None), wd_dropped = {}, wd_links = {}\<rparr>"

lemma world_new_init:
  "ProxyServer_new junk_size junk_time idle loop address server_name mutex = Inr srv \<Longrightarrow> world_init (world_new srv e)"
  by (simp add: world_init_def world_new_def new_server_ok)

text \<open>Browser 2 sends a request, the first turn of a task makes the tunnel, which connects as 3.\<close>

definition connected_world :: "(conn_id \<Rightarrow> string) \<Rightarrow> 's solve_vars \<Rightarrow> 's world \<Rightarrow> bool" where
  "connected_world nm v w \<longleftrightarrow> wd_phase w 2 = Up \<and> wd_context w 2 = Some 3 \<and> wd_input w 2 = demo_request \<and>
     tunnels_of w (nm 2) = Some ((Tunnel_new 2)\<lparr>tn_clientConn := Some 3\<rparr>) \<and>
     wd_tasks w 1 = Some (2, v) \<and> wd_tasks w 7 = None \<and> sv_isCheck v \<and> sv_buff v = demo_request \<and>
     sv_info v = int (length demo_request) \<and>
     request_method (sv_context v) \<noteq> GetMethod"

lemma demo_request_length: "length demo_request < 2 ^ 31"
  using demo_request_ok(1) by (simp add: request_ok_def demo_request_def)

text \<open>From the start of the task on, these are two steps.\<close>

definition task_started :: "'s world \<Rightarrow> bool" where
  "task_started w \<longleftrightarrow> wd_phase w 2 = Up \<and> wd_context w 2 = None \<and> wd_input w 2 = demo_request \<and>
     tunnels_of w = Map.empty \<and> wd_tasks w 7 = None \<and>
     wd_tasks w 1 = Some (2, solve_init demo_request demo_request Map.empty (cache_of w) (wd_renv w))"

lemma task_connects:
  assumes "task_started w"
  shows "\<exists>w1 w2 v. world_step H nm w w1 \<and> world_step H nm w1 w2 \<and> connected_world nm v w2 \<and>
    wd_copies w1 = wd_copies w \<and> wd_copies w2 = wd_copies w"
proof -
  let ?v = "solve_init demo_request demo_request Map.empty (cache_of w) (wd_renv w)"
  note w = assms [unfolded task_started_def]
  obtain x where x: "task_turn H nm 1 0 2 ?v w = Inr (False, x)"
      "tunnel_opened ''GET'' 2 (nm 2) demo_request Map.empty x" "sv_buf x = demo_request"
      "sv_info x = int (length demo_request)"
    using solve_turn_opens [OF demo_request_ok(1), of "demo_obs None" H 1 2 "nm 2" Map.empty "cache_of w" "wd_renv w"] w
    by (auto simp: task_turn_def solve_init_def demo_obs_def GetMethod_def simp flip: demo_request_def)
  let ?w1 = "after_turn (nm 2) 1 2 False x w"
  have s1: "world_step H nm w ?w1" using w x(1) by (intro world_step.w_turn) simp_all
  have t1: "tunnels_of ?w1 (nm 2) = Some (Tunnel_new 2)"
    using x(2) by (simp add: after_turn_def tunnel_opened_def)
  let ?t = "(Tunnel_new 2)\<lparr>tn_clientConn := Some 3\<rparr>"
  let ?as = "[Set_Tcp_No_Delay 3, Set_High_Water_Mark 3 kClient HIGH_WATER, Set_Context 2 (Some 3)]"
  have "onClientConnection True 3 (Tunnel_new 2) = Inr (?as, ?t)"
    by (simp add: onClientConnection_def Tunnel_new_def deref_def)
  from world_step.w_client [OF t1 this, of H nm]
  have s2: "world_step H nm ?w1 ((handler_effect True 3 (Tunnel_new 2) ?as ?w1)\<lparr>
       wd_server := (wd_server ?w1)\<lparr>px_tunnels := (tunnels_of ?w1)(nm 2 \<mapsto> ?t)\<rparr>\<rparr>)" (is "world_step _ _ _ ?w2") .
  have "connected_world nm x ?w2"
    using x w
    by (simp add: connected_world_def handler_effect_def after_turn_def tunnel_opened_def GetMethod_def)
  moreover have "wd_copies ?w1 = wd_copies w" "wd_copies ?w2 = wd_copies w"
    by (simp_all add: after_turn_def handler_effect_def)
  ultimately show ?thesis using s1 s2 by blast
qed

lemma demo_server: "\<exists>srv. ProxyServer_new 0 0 5 1 ''127.0.0.1:6666'' ''proxy''
    \<lparr>pm_shmName = ''m'', pm_mutexFd = 3, pm_owner = False\<rparr> = Inr srv"
  by (simp add: ProxyServer_new_def TcpServer_new_def Acceptor_new_def)

lemma browser_connects:
  "\<exists>w v. reach world_init (world_step demo_redis nm) w \<and> connected_world nm v w \<and> (2, demo_request) \<in> wd_copies w"
proof -
  let ?step = "world_step demo_redis nm"
  obtain srv where srv: "ProxyServer_new 0 0 5 1 ''127.0.0.1:6666'' ''proxy'' \<lparr>pm_shmName = ''m'', pm_mutexFd = 3, pm_owner = False\<rparr> = Inr srv"
    using demo_server by blast
  have none: "px_tunnels srv = Map.empty" using new_server_ok(1) [OF srv] .
  define w0 where "w0 = world_new srv demo_env"
  have r0: "reach world_init ?step w0" unfolding w0_def by (intro reach_init world_new_init [OF srv])
  define w1 where "w1 = w0\<lparr>wd_phase := (\<lambda>_. Fresh)(2 := Up)\<rparr>"
  have "?step w0 w1"
    using world_step.w_open [of w0 2 nm _ srv demo_redis] by (simp add: w0_def w1_def world_new_def onServerConnection_def)
  then have r1: "reach world_init ?step w1" by (rule reach_step [OF r0])
  define w2 where "w2 = w1\<lparr>wd_input := (\<lambda>_. [])(2 := demo_request), wd_copies := {(2, demo_request)}\<rparr>"
  have "?step w1 w2"
    using world_step.w_message [of w1 2 demo_request demo_request demo_redis nm] demo_request_length
    by (simp add: w0_def w1_def w2_def world_new_def)
  then have r2: "reach world_init ?step w2" by (rule reach_step [OF r1])
  define w3 where "w3 = w2\<lparr>wd_tasks := (\<lambda>_. None)(1 :=
    Some (2, solve_init demo_request demo_request Map.empty (px_cache srv) demo_env))\<rparr>"
  have "?step w2 w3"
    using world_step.w_task [of w2 1 2 demo_request demo_redis nm] none
    by (simp add: w0_def w1_def w2_def w3_def world_new_def)
  then have r3: "reach world_init ?step w3" by (rule reach_step [OF r2])
  have "task_started w3"
    using none by (simp add: task_started_def w0_def w1_def w2_def w3_def world_new_def)
  from task_connects [OF this, of demo_redis nm] obtain w4 w5 v
    where s: "?step w3 w4" "?step w4 w5" "connected_world nm v w5" "wd_copies w5 = wd_copies w3" by blast
  have "reach world_init ?step w5" by (rule reach_step [OF reach_step [OF r3 s(1)] s(2)])
  then show ?thesis using s(3,4) by (auto simp: w2_def w3_def)
qed

text \<open>The browser leaves while the first task waits for its next turn: the entry is gone.\<close>

lemma browser_leaves:
  "\<exists>w v. reach world_init (world_step demo_redis nm) w \<and> wd_tasks w 1 = Some (2, v) \<and>
    task_turn demo_redis nm 1 0 2 v w = Inl Null_Deref"
proof -
  obtain w v where r: "reach world_init (world_step demo_redis nm) w" and c: "connected_world nm v w"
    using browser_connects by blast
  define srv where "srv = (wd_server w)\<lparr>px_tunnels := (tunnels_of w)(nm 2 := None)\<rparr>"
  have close: "onServerConnection False 2 (nm 2) (wd_server w) = (Tunnel_disconnect, srv)"
    using c by (simp add: onServerConnection_def connected_world_def srv_def)
  have "wd_phase w 2 = Up" using c by (simp add: connected_world_def)
  from world_step.w_close [where nm = nm and c = 2 and H = demo_redis, OF this close]
  have r': "reach world_init (world_step demo_redis nm) (w\<lparr>wd_phase := (wd_phase w)(2 := Down), wd_server := srv,
      wd_orphans := (case tunnels_of w (nm 2) of None \<Rightarrow> [] | Some t \<Rightarrow> [t]) @ wd_orphans w,
      wd_dropped := wd_dropped w \<union> (if tunnels_of w (nm 2) \<noteq> None then {nm 2} else {})\<rparr>)"
    (is "reach _ _ ?w")
    by (rule reach_step [OF r])
  have "task_turn demo_redis nm 1 0 2 v ?w = Inl Null_Deref"
    unfolding task_turn_def using c
    by (intro solve_turn_null) (simp_all add: connected_world_def srv_def)
  moreover have "wd_tasks ?w 1 = Some (2, v)" using c by (simp add: connected_world_def)
  ultimately show ?thesis using r' by blast
qed

text \<open>Another thread runs the same copy while the tunnel is connected.\<close>

lemma second_task_sends:
  "\<exists>w v ended v'. reach world_init (world_step demo_redis nm) w \<and> wd_tasks w 7 = Some (2, v) \<and>
    task_turn demo_redis nm 7 0 2 v w = Inr (ended, v') \<and> Send 3 demo_request \<in> set (sv_acts v') \<and> sv_buff v = demo_request"
proof -
  obtain w v where r: "reach world_init (world_step demo_redis nm) w" and c: "connected_world nm v w"
      and copy: "(2, demo_request) \<in> wd_copies w"
    using browser_connects by blast
  let ?v = "solve_init demo_request demo_request (tunnels_of w) (cache_of w) (wd_renv w)"
  define w1 where "w1 = w\<lparr>wd_tasks := (wd_tasks w)(7 := Some (2, ?v))\<rparr>"
  have "wd_tasks w 7 = None" "(2, demo_request) \<in> wd_copies w" "wd_input w 2 = demo_request"
    using c copy by (simp_all add: connected_world_def)
  then have "world_step demo_redis nm w w1"
    using world_step.w_task [of w 7 2 demo_request demo_redis nm] by (simp add: w1_def)
  then have r1: "reach world_init (world_step demo_redis nm) w1" by (rule reach_step [OF r])
  have "\<exists>v'. task_turn demo_redis nm 7 0 2 ?v w1 = Inr (False, v') \<and> Send 3 demo_request \<in> set (sv_acts v')"
    using solve_turn_forward [OF demo_request_ok(1), of "demo_obs (Some 3)" 3 "tunnels_of w" "nm 2"
        "(Tunnel_new 2)\<lparr>tn_clientConn := Some 3\<rparr>" demo_redis 7 2 "cache_of w" "wd_renv w"] c
    by (simp add: task_turn_def w1_def connected_world_def solve_init_def demo_obs_def GetMethod_def
        flip: demo_request_def)
  moreover have "wd_tasks w1 7 = Some (2, ?v)" by (simp add: w1_def)
  ultimately show ?thesis using r1 by (force simp: solve_init_def)
qed

section \<open>Properties\<close>





end
