(* ===== verification/Pool_Runs.thy ===== *)
theory Pool_Runs
  imports Thread_Pool
begin

text \<open>
  Runs of the thread pool with one IO thread, number 3, that fills one block of the ring after
  the other. They are long (a block has 1024 slots), so they are built step by step from the
  predicate \<open>filling\<close>; the later theories use them to show what can happen.
\<close>

section \<open>The IO thread\<close>

text \<open>\<open>filling b n x\<close>: the thread has stored \<open>n\<close> tasks in its block number \<open>b\<close>, the first one \<open>x\<close>.\<close>

definition filling :: "int \<Rightarrow> nat \<Rightarrow> 'a \<Rightarrow> 'a MyThreadPool \<Rightarrow> bool" where
  "filling b n x p \<longleftrightarrow> pl_running p \<and> pl_threads p = 4 \<and> 0 \<le> b \<and> n \<le> 1024 \<and>
     pl_prods p 3 = \<lparr>p_writeId = 1024 * b, p_curWriteId = 1024 * b + int n, p_writableId = 1024 * b + 1024\<rparr> \<and>
     (\<forall>i. i \<noteq> 3 \<longrightarrow> pl_prods p i = Producer_new) \<and>
     cq_ok (pl_circleArray p) \<and> cq_writeId (pl_circleArray p) = 1024 * b + 1024 \<and> 1024 * b + 1024 < 2 ^ 24 \<and>
     (0 < n \<longrightarrow> cq_read (pl_circleArray p) (1024 * b) = x)"

lemma same_lap:
  "pool_step p p' \<Longrightarrow> cq_writeId (pl_circleArray p') = cq_writeId (pl_circleArray p) \<Longrightarrow> first_lap p \<Longrightarrow> lap_step p p'"
  by (simp add: lap_step_def first_lap_def)

lemma filling_first_lap: "filling b n x p \<Longrightarrow> 1024 * b + 2048 < 2 ^ 24 \<Longrightarrow> first_lap p"
  by (simp add: filling_def first_lap_def)

lemma filling_start:
  "\<exists>p1 p2. lap_step (MyThreadPool_new T) p1 \<and> lap_step p1 p2 \<and> pl_trace p1 = [] \<and> pl_trace p2 = [] \<and>
    pl_conss p2 = (\<lambda>_. Consumer_new) \<and> readable_queue (pl_circleArray p2) = [] \<and> filling 0 0 x p2"
proof -
  let ?p1 = "MyThreadPool_start (MyThreadPool_new T)"
  let ?q = "(CircleQueue_new T)\<lparr>cq_writeId := 1024\<rparr>" and ?p = "\<lparr>p_writeId = 0, p_curWriteId = 0, p_writableId = 1024\<rparr>"
  let ?p2 = "?p1\<lparr>pl_circleArray := ?q, pl_prods := (pl_prods ?p1)(3 := ?p)\<rparr>"
  have "lap_step (MyThreadPool_new T) ?p1"
    using ps_start [of "MyThreadPool_new T"]
    by (auto simp: lap_step_def first_lap_def) (simp add: MyThreadPool_start_def MyThreadPool_new_def CircleQueue_new_def)
  moreover have "Producer_acquire (pl_prods ?p1 3) (pl_circleArray ?p1) = (True, ?p, ?q)"
    using Producer_acquire_grant [OF CircleQueue_new_ok, of Producer_new T]
    by (simp add: CircleQueue_new_def Producer_new_def published_def MyThreadPool_start_def MyThreadPool_new_def)
  then have "pool_step ?p1 ?p2"
    by (intro ps_acquire) (simp_all add: MyThreadPool_start_def MyThreadPool_new_def Producer_new_def)
  then have "lap_step ?p1 ?p2" by (simp add: lap_step_def first_lap_def)
  moreover have "filling 0 0 x ?p2"
    by (simp add: filling_def MyThreadPool_start_def MyThreadPool_new_def cq_ok_def CircleQueue_new_def)
  ultimately show ?thesis
    by (intro exI [of _ ?p1] exI [of _ ?p2])
      (simp add: MyThreadPool_start_def MyThreadPool_new_def CircleQueue_new_def)
qed

lemma filling_store:
  assumes "filling b n x p" and "n < 1024"
  shows "\<exists>p'. pool_step p p' \<and> pl_trace p' = Wrote 3 (1024 * b + int n) x # pl_trace p \<and>
    pl_conss p' = pl_conss p \<and> readable_queue (pl_circleArray p') = readable_queue (pl_circleArray p) \<and>
    filling b (Suc n) x p'"
proof -
  let ?q = "pl_circleArray p" and ?k = "1024 * b + int n"
  note f = assms(1) [unfolded filling_def]
  let ?p' = "p\<lparr>pl_circleArray := cq_write ?k x ?q,
    pl_prods := (pl_prods p)(3 := \<lparr>p_writeId = 1024 * b, p_curWriteId = ?k + 1, p_writableId = 1024 * b + 1024\<rparr>),
    pl_trace := Wrote 3 ?k x # pl_trace p\<rparr>"
  have "to_long (?k + 1) = ?k + 1" using f assms(2) by (intro to_long_id) simp_all
  then have "pool_step p ?p'"
    using ps_store [of p 3 x] f assms(2) by (simp add: Producer_store_def)
  moreover have "cq_read (cq_write ?k x ?q) (1024 * b) = x"
  proof (cases "n = 0")
    case True
    then show ?thesis by (simp add: cq_read_def cq_write_def slot_def)
  next
    case False
    have "slot ?q ?k = nat ?k" "slot ?q (1024 * b) = nat (1024 * b)"
      using f assms(2) by (simp_all add: slot_lap cq_lap_def cq_ok_def)
    moreover have "nat ?k \<noteq> nat (1024 * b)" using f False by (simp add: nat_eq_iff)
    ultimately have "slot ?q ?k \<noteq> slot ?q (1024 * b)" by simp
    then show ?thesis using f False by (simp add: cq_read_def cq_write_def slot_def)
  qed
  then have "filling b (Suc n) x ?p'"
    using f assms(2) by (simp add: filling_def) (simp add: cq_write_def cq_ok_def)
  ultimately show ?thesis by (intro exI [of _ ?p']) simp
qed

lemma filling_next:
  assumes "filling b 1024 x p" and "1024 * b + 2048 < 2 ^ 24"
  shows "\<exists>p'. pool_step p p' \<and> pl_trace p' = pl_trace p \<and> pl_conss p' = pl_conss p \<and>
    readable_queue (pl_circleArray p') =
      insort_insert (1024 * b, 1024 * b + 1024) (readable_queue (pl_circleArray p)) \<and>
    cq_read (pl_circleArray p') = cq_read (pl_circleArray p) \<and> filling (b + 1) 0 y p'"
proof -
  let ?q = "pl_circleArray p" and ?w = "1024 * b + 1024"
  note f = assms(1) [unfolded filling_def]
  let ?q1 = "?q\<lparr>readable_queue := insort_insert (1024 * b, ?w) (readable_queue ?q), cq_writeId := ?w + 1024\<rparr>"
  let ?pr = "\<lparr>p_writeId = ?w, p_curWriteId = ?w, p_writableId = ?w + 1024\<rparr>"
  let ?p1 = "p\<lparr>pl_circleArray := ?q1, pl_prods := (pl_prods p)(3 := ?pr)\<rparr>"
  have "Producer_acquire (pl_prods p 3) ?q = (True, ?pr, ?q1)"
    using Producer_acquire_grant [of ?q "pl_prods p 3"] f assms(2) by (simp add: published_def)
  then have "pool_step p ?p1" using f by (intro ps_acquire) simp_all
  moreover have "filling (b + 1) 0 y ?p1"
    using f assms(2) by (simp add: filling_def cq_ok_def)
  moreover have "cq_read ?q1 = cq_read ?q" by (simp add: fun_eq_iff cq_read_def slot_def)
  ultimately show ?thesis by (intro exI [of _ ?p1]) simp
qed

text \<open>At the end of the lap the request publishes the block and gets nothing.\<close>

lemma filling_refused:
  assumes "filling b 1024 x p" and "2 ^ 24 \<le> 1024 * b + 2048"
  shows "\<exists>p'. pool_step p p' \<and> pl_trace p' = pl_trace p \<and> pl_conss p' = pl_conss p \<and>
    readable_queue (pl_circleArray p') =
      insort_insert (1024 * b, 1024 * b + 1024) (readable_queue (pl_circleArray p)) \<and> filling b 1024 x p'"
proof -
  let ?q = "pl_circleArray p"
  note f = assms(1) [unfolded filling_def]
  let ?q1 = "?q\<lparr>readable_queue := insort_insert (1024 * b, 1024 * b + 1024) (readable_queue ?q)\<rparr>"
  let ?p1 = "p\<lparr>pl_circleArray := ?q1, pl_prods := (pl_prods p)(3 := pl_prods p 3)\<rparr>"
  have "Producer_acquire (pl_prods p 3) ?q = (False, pl_prods p 3, ?q1)"
    using Producer_acquire_refuse [of ?q "pl_prods p 3"] f assms(2) by simp
  then have "pool_step p ?p1" using f by (intro ps_acquire [where ok = False]) simp_all
  moreover have "cq_read ?q1 = cq_read ?q" by (simp add: fun_eq_iff cq_read_def slot_def)
  then have "filling b 1024 x ?p1" using f by (simp add: filling_def cq_ok_def)
  ultimately show ?thesis by (intro exI [of _ ?p1]) simp
qed

section \<open>A worker thread\<close>

text \<open>An idle worker thread takes the first published block, and then calls its first task.\<close>

lemma take_step:
  assumes "pl_running p" and "j < pl_threads p" and "c_readableId (pl_conss p j) \<le> c_readId (pl_conss p j)"
    and "readable_queue (pl_circleArray p) = (a, e) # rs" and "0 \<le> a"
  shows "pool_step p (p\<lparr>pl_circleArray := (pl_circleArray p)\<lparr>readable_queue := rs\<rparr>,
    pl_conss := (pl_conss p)(j := \<lparr>c_readId = a, c_readableId = e\<rparr>)\<rparr>)"
  using ps_take [OF assms(1-3), of a e] assms(4,5) by (simp add: tryReadSpaceByCV_def)

lemma run_step:
  assumes "pl_running p" and "j < pl_threads p" and "pl_conss p j = \<lparr>c_readId = a, c_readableId = e\<rparr>"
    and "0 \<le> a" and "a < e" and "a < 2 ^ 62"
  shows "pool_step p (p\<lparr>pl_conss := (pl_conss p)(j := \<lparr>c_readId = a + 1, c_readableId = e\<rparr>),
    pl_trace := Ran j a (cq_read (pl_circleArray p) a) # pl_trace p\<rparr>)"
proof -
  have "to_long (a + 1) = a + 1" using assms(4,6) by (intro to_long_id) simp_all
  then show ?thesis
    using ps_run [OF assms(1,2), of "cq_read (pl_circleArray p) a" True] assms(3,5) by (simp add: Consumer_fetch_def)
qed

section \<open>A whole block, and many\<close>

lemma filling_fill:
  "n \<le> 1024 \<Longrightarrow> filling b 0 x p \<Longrightarrow> \<exists>p'. pool_step\<^sup>*\<^sup>* p p' \<and> (first_lap p \<longrightarrow> lap_step\<^sup>*\<^sup>* p p') \<and>
    pl_conss p' = pl_conss p \<and> readable_queue (pl_circleArray p') = readable_queue (pl_circleArray p) \<and>
    ran_ids (pl_trace p') = ran_ids (pl_trace p) \<and>
    set (wrote_ids (pl_trace p')) = {1024 * b..<1024 * b + int n} \<union> set (wrote_ids (pl_trace p)) \<and>
    filling b n x p'"
proof (induction n)
  case 0
  then show ?case by (intro exI [of _ p]) simp
next
  case (Suc n)
  then obtain p1 where p1: "pool_step\<^sup>*\<^sup>* p p1" "first_lap p \<longrightarrow> lap_step\<^sup>*\<^sup>* p p1" "pl_conss p1 = pl_conss p"
      "readable_queue (pl_circleArray p1) = readable_queue (pl_circleArray p)"
      "ran_ids (pl_trace p1) = ran_ids (pl_trace p)"
      "set (wrote_ids (pl_trace p1)) = {1024 * b..<1024 * b + int n} \<union> set (wrote_ids (pl_trace p))"
      "filling b n x p1"
    by auto
  obtain p2 where p2: "pool_step p1 p2" "pl_trace p2 = Wrote 3 (1024 * b + int n) x # pl_trace p1"
      "pl_conss p2 = pl_conss p1" "readable_queue (pl_circleArray p2) = readable_queue (pl_circleArray p1)"
      "filling b (Suc n) x p2"
    using filling_store [OF p1(7)] Suc.prems(1) by auto
  have w: "cq_writeId (pl_circleArray p1) = cq_writeId (pl_circleArray p)"
    "cq_writeId (pl_circleArray p2) = cq_writeId (pl_circleArray p)"
    using Suc.prems(2) p1(7) p2(5) by (simp_all add: filling_def)
  have "lap_step p1 p2" if "first_lap p" using p2(1) w that by (simp add: lap_step_def first_lap_def)
  moreover have "{1024 * b..<1024 * b + int (Suc n)} = insert (1024 * b + int n) {1024 * b..<1024 * b + int n}"
    by auto
  ultimately show ?case
    using p1 p2 by (intro exI [of _ p2]) (auto intro: rtranclp.rtrancl_into_rtrancl)
qed

lemma steps_reach: "step\<^sup>*\<^sup>* s t \<Longrightarrow> reach init step s \<Longrightarrow> reach init step t"
  by (induction rule: rtranclp_induct) (auto intro: reach_step)

lemma filling_blocks:
  "m \<le> 16381 \<Longrightarrow> \<exists>p. reach (pool_init T) lap_step p \<and> filling (int m) 1024 x p \<and>
    (m = 0 \<longrightarrow> pl_conss p = (\<lambda>_. Consumer_new) \<and> readable_queue (pl_circleArray p) = [] \<and>
      set (wrote_ids (pl_trace p)) = {0..<1024})"
proof (induction m)
  case 0
  obtain p1 p2 where p: "lap_step (MyThreadPool_new T) p1" "lap_step p1 p2" "pl_trace p2 = []"
      "pl_conss p2 = (\<lambda>_. Consumer_new)" "readable_queue (pl_circleArray p2) = []" "filling 0 0 x p2"
    using filling_start [of T x] by (elim exE conjE) (rule that)
  have "reach (pool_init T) lap_step (MyThreadPool_new T)" by (rule reach_init) (simp add: pool_init_def)
  then have "reach (pool_init T) lap_step p1" using p(1) by (rule reach_step)
  then have r: "reach (pool_init T) lap_step p2" using p(2) by (rule reach_step)
  have "first_lap p2" using filling_first_lap [OF p(6)] by simp
  then show ?case
    using filling_fill [OF _ p(6), of 1024] p steps_reach [OF _ r] by auto
next
  case (Suc m)
  then obtain p where p: "reach (pool_init T) lap_step p" "filling (int m) 1024 x p" by auto
  have m: "1024 * int m + 2048 < 2 ^ 24" "1024 * (int m + 1) + 2048 < 2 ^ 24" using Suc.prems by simp_all
  obtain p1 where p1: "pool_step p p1" "filling (int m + 1) 0 x p1"
    using filling_next [OF p(2) m(1), of x] by (elim exE conjE) (rule that)
  have lap: "first_lap p1" using filling_first_lap [OF p1(2)] m(2) by simp
  then have r1: "reach (pool_init T) lap_step p1"
    using p(1) p1(1) by (auto simp: lap_step_def intro: reach_step)
  obtain p2 where "lap_step\<^sup>*\<^sup>* p1 p2" "filling (int m + 1) 1024 x p2"
    using filling_fill [OF _ p1(2), of 1024] lap by auto
  then show ?case using steps_reach [OF _ r1] by (auto simp: add.commute)
qed

end
