(* ===== verification/Proxy_System.thy ===== *)
theory Proxy_System
  imports Session Pool_Runs
begin

text \<open>
  The thread pool and the sessions together. A message of a connection is stored as a task by the
  producer of some IO thread; a worker thread that calls a task runs \<open>solveOnMessage\<close> on the copy
  of the input that the task carries. The pool moves its blocks by the steps of \<open>lap_step\<close>, whose
  trace says what was stored and called; the sessions move by \<open>world_step\<close>, with the worker
  thread's number as that of its task. The sessions' own set of copies is not used here: what a
  worker gets comes out of the ring. The producers are there by assumption: a proxy that was started
  has none for its IO threads (\<open>Proxy_Server\<close>), so this is the program once they are set.
\<close>

section \<open>The system\<close>

record 's proxy =
  py_pool :: "(conn_id \<times> string) MyThreadPool"
  py_world :: "'s world"

definition input_of :: "conn_id \<Rightarrow> string \<Rightarrow> 's world \<Rightarrow> 's world" where
  "input_of c input w = w\<lparr>wd_input := (wd_input w)(c := input)\<rparr>"

definition start_task :: "nat \<Rightarrow> conn_id \<Rightarrow> string \<Rightarrow> 's world \<Rightarrow> 's world" where
  "start_task j c copy w = w\<lparr>wd_tasks := (wd_tasks w)(j :=
     Some (c, solve_init (wd_input w c) copy (tunnels_of w) (cache_of w) (wd_renv w)))\<rparr>"

inductive proxy_step :: "'s hiredis \<Rightarrow> (conn_id \<Rightarrow> string) \<Rightarrow> 's proxy \<Rightarrow> 's proxy \<Rightarrow> bool"
  for H :: "'s hiredis" and nm :: "conn_id \<Rightarrow> string" where
  py_block: "lap_step (py_pool s) p \<Longrightarrow> pl_trace p = pl_trace (py_pool s) \<Longrightarrow>
     proxy_step H nm s (s\<lparr>py_pool := p\<rparr>)"
| py_message: "wd_phase (py_world s) c = Up \<Longrightarrow> input = wd_input (py_world s) c @ bytes \<Longrightarrow>
     length input < 2 ^ 31 \<Longrightarrow> lap_step (py_pool s) p \<Longrightarrow>
     pl_trace p = Wrote i k (c, input) # pl_trace (py_pool s) \<Longrightarrow>
     proxy_step H nm s (s\<lparr>py_pool := p, py_world := input_of c input (py_world s)\<rparr>)"
| py_call: "wd_tasks (py_world s) j = None \<Longrightarrow> lap_step (py_pool s) p \<Longrightarrow>
     pl_trace p = Ran j k (c, copy) # pl_trace (py_pool s) \<Longrightarrow>
     proxy_step H nm s (s\<lparr>py_pool := p, py_world := start_task j c copy (py_world s)\<rparr>)"
| py_session: "world_step H nm (py_world s) w \<Longrightarrow> wd_copies w = {} \<Longrightarrow>
     proxy_step H nm s (s\<lparr>py_world := w\<rparr>)"

definition proxy_init :: "'s proxy \<Rightarrow> bool" where
  "proxy_init s \<longleftrightarrow> pool_init (0, []) (py_pool s) \<and> world_init (py_world s)"

section \<open>It refines the sessions\<close>

definition proxy_inv :: "'s proxy \<Rightarrow> bool" where
  "proxy_inv s \<longleftrightarrow> pool_inv (py_pool s) \<and> wd_copies (py_world s) = {}"

definition submitted :: "'s proxy \<Rightarrow> (conn_id \<times> string) set" where
  "submitted s = {x. \<exists>i k. Wrote i k x \<in> set (pl_trace (py_pool s))}"

text \<open>The copies of the sessions are the tasks that were stored in the ring.\<close>

definition proxy_abs :: "'s proxy \<Rightarrow> 's world" where
  "proxy_abs s = (py_world s)\<lparr>wd_copies := submitted s\<rparr>"

definition proxy_rel :: "'s proxy \<Rightarrow> 's world \<Rightarrow> bool" where
  "proxy_rel s w \<longleftrightarrow> w = proxy_abs s"

text \<open>A step of the sessions that leaves the copies alone does not depend on them.\<close>

lemma session_step_copies:
  assumes "world_step H nm w w'" and "wd_copies w = {}" and "wd_copies w' = {}"
  shows "world_step H nm (w\<lparr>wd_copies := C\<rparr>) (w'\<lparr>wd_copies := C\<rparr>)"
  using assms
proof (induction rule: world_step.induct)
  case (w_open w c as srv)
  have e: "w\<lparr>wd_phase := p, wd_server := srv, wd_copies := C\<rparr> = w\<lparr>wd_copies := C, wd_phase := p, wd_server := srv\<rparr>" for p
    by (cases w) simp
  show ?case
    unfolding e using world_step.w_open [of "w\<lparr>wd_copies := C\<rparr>" c nm as srv H] w_open(1,2) by simp
next
  case (w_turn w thr c v now ended v')
  have "task_turn H nm thr now c v (w\<lparr>wd_copies := C\<rparr>) = Inr (ended, v')"
    using w_turn(2) by (simp add: task_turn_def)
  moreover have "(after_turn (nm c) thr c ended v' w)\<lparr>wd_copies := C\<rparr> =
      after_turn (nm c) thr c ended v' (w\<lparr>wd_copies := C\<rparr>)"
    by (simp add: after_turn_def released_def)
  ultimately show ?case using world_step.w_turn [of "w\<lparr>wd_copies := C\<rparr>" thr c v H nm] w_turn(1) by simp
next
  case (w_client w n t up d as t')
  have e: "((handler_effect up d t as w)\<lparr>wd_server := srv\<rparr>)\<lparr>wd_copies := C\<rparr> =
      (handler_effect up d t as (w\<lparr>wd_copies := C\<rparr>))\<lparr>wd_server := srv\<rparr>" for srv
    by (cases w) (simp add: handler_effect_def)
  show ?case
    unfolding e using world_step.w_client [of "w\<lparr>wd_copies := C\<rparr>" n t up d as t' H nm] w_client(1,2) by simp
next
  case (w_orphan i w t up d as t')
  have e: "((handler_effect up d t as w)\<lparr>wd_orphans := os\<rparr>)\<lparr>wd_copies := C\<rparr> =
      (handler_effect up d t as (w\<lparr>wd_copies := C\<rparr>))\<lparr>wd_orphans := os\<rparr>" for os
    by (cases w) (simp add: handler_effect_def)
  show ?case
    unfolding e using world_step.w_orphan [of i "w\<lparr>wd_copies := C\<rparr>" t up d as t' H nm] w_orphan(1-3) by simp
next
  case (w_response w n t now bytes as t' cache e)
  have q: "w\<lparr>wd_renv := e, wd_server := srv, wd_copies := C\<rparr> = w\<lparr>wd_copies := C, wd_renv := e, wd_server := srv\<rparr>" for srv
    by (cases w) simp
  show ?case
    unfolding q using world_step.w_response [of "w\<lparr>wd_copies := C\<rparr>" n t H now bytes as t' cache e nm] w_response(1,2)
    by simp
next
  case (w_close w c as srv)
  have e: "w\<lparr>wd_phase := p, wd_server := srv, wd_orphans := os, wd_dropped := d, wd_copies := C\<rparr> =
      w\<lparr>wd_copies := C, wd_phase := p, wd_server := srv, wd_orphans := os, wd_dropped := d\<rparr>" for p os d
    by (cases w) simp
  show ?case
    unfolding e using world_step.w_close [of "w\<lparr>wd_copies := C\<rparr>" c nm as srv H] w_close(1,2) by simp
qed simp_all

lemma pool_causal: "pool_inv p \<Longrightarrow> causal (pl_trace p)"
  by (auto simp: pool_inv_def pool_good_def trace_ok_def)

lemma proxy_step_inv: "proxy_step H nm s t \<Longrightarrow> proxy_inv s \<Longrightarrow> proxy_inv t"
proof (induction rule: proxy_step.induct)
  case (py_block s p)
  then show ?case using pool.step_inv by (auto simp: proxy_inv_def)
next
  case (py_message s c input bytes p i k)
  then show ?case using pool.step_inv by (auto simp: proxy_inv_def input_of_def)
next
  case (py_call s j p k c copy)
  then show ?case using pool.step_inv by (auto simp: proxy_inv_def start_task_def)
next
  case (py_session s w)
  then show ?case by (simp add: proxy_inv_def)
qed

lemma submitted_simps:
  "submitted (s\<lparr>py_world := w\<rparr>) = submitted s"
  "pl_trace p = pl_trace (py_pool s) \<Longrightarrow> submitted (s\<lparr>py_pool := p\<rparr>) = submitted s"
  "pl_trace p = Wrote i k x # pl_trace (py_pool s) \<Longrightarrow>
     submitted (s\<lparr>py_pool := p, py_world := w\<rparr>) = insert x (submitted s)"
  "pl_trace p = Ran j k x # pl_trace (py_pool s) \<Longrightarrow>
     submitted (s\<lparr>py_pool := p, py_world := w\<rparr>) = submitted s"
  by (auto simp: submitted_def)

lemma proxy_step_sim:
  "proxy_step H nm s t \<Longrightarrow> proxy_inv s \<Longrightarrow> proxy_abs t = proxy_abs s \<or> world_step H nm (proxy_abs s) (proxy_abs t)"
proof (induction rule: proxy_step.induct)
  case (py_block s p)
  then show ?case by (simp add: proxy_abs_def submitted_simps(2))
next
  case (py_message s c input bytes p i k)
  let ?w = "(proxy_abs s)\<lparr>wd_input := (wd_input (proxy_abs s))(c := input),
    wd_copies := insert (c, input) (wd_copies (proxy_abs s))\<rparr>"
  have "world_step H nm (proxy_abs s) ?w"
    using py_message(1-3) by (intro world_step.w_message [where bytes = bytes]) (simp_all add: proxy_abs_def)
  moreover have "proxy_abs (s\<lparr>py_pool := p, py_world := input_of c input (py_world s)\<rparr>) = ?w"
    using py_message(5) by (simp add: proxy_abs_def input_of_def submitted_simps(3))
  ultimately show ?case by simp
next
  case (py_call s j p k c copy)
  have "pool_inv p" using py_call(2,4) pool.step_inv by (auto simp: proxy_inv_def)
  then have "(c, copy) \<in> submitted s"
    using pool_causal [of p] py_call(3) by (auto simp: submitted_def)
  then have "world_step H nm (proxy_abs s) (start_task j c copy (proxy_abs s))"
    using py_call(1) unfolding start_task_def by (intro world_step.w_task) (simp_all add: proxy_abs_def)
  moreover have "proxy_abs (s\<lparr>py_pool := p, py_world := start_task j c copy (py_world s)\<rparr>) =
      start_task j c copy (proxy_abs s)"
    using py_call(3) by (cases "py_world s") (simp add: proxy_abs_def start_task_def submitted_simps(4))
  ultimately show ?case by simp
next
  case (py_session s w)
  then show ?case
    using session_step_copies [OF py_session(1) _ py_session(2)]
    by (simp add: proxy_abs_def proxy_inv_def submitted_simps(1))
qed

lemma proxy_init_abs:
  assumes "proxy_init s"
  shows "world_init (proxy_abs s)"
proof -
  have "submitted s = {}"
    using assms by (simp add: submitted_def proxy_init_def pool_init_def MyThreadPool_new_def)
  then show ?thesis using assms by (simp add: proxy_abs_def proxy_init_def world_init_def)
qed

interpretation proxy: simulation proxy_init "proxy_step H nm" proxy_inv proxy_rel world_init "world_step H nm" for H nm
proof
  fix s t :: "'a proxy" and w :: "'a world"
  show "proxy_inv s" if "proxy_init s"
    using that pool.init_inv by (auto simp: proxy_inv_def proxy_init_def world_init_def)
  show "proxy_inv t" if "proxy_inv s" "proxy_step H nm s t"
    using that proxy_step_inv by blast
  show "\<exists>a. proxy_rel s a \<and> world_init a" if "proxy_init s"
    using proxy_init_abs [OF that] by (simp add: proxy_rel_def)
  show "\<exists>w'. proxy_rel t w' \<and> (w' = w \<or> world_step H nm w w')"
    if "proxy_inv s" "proxy_rel s w" "proxy_step H nm s t"
    using that proxy_step_sim by (fastforce simp: proxy_rel_def)
qed

lemma proxy_reach_abs:
  "reach proxy_init (proxy_step H nm) s \<Longrightarrow> reach world_init (world_step H nm) (proxy_abs s)"
  by (drule proxy.reach_sim) (simp add: proxy_rel_def)

section \<open>A run through the whole ring\<close>

text \<open>
  A worker thread gets a task only when the block that holds it is full: the browser's message is
  stored 1024 times, once with its bytes and then with none, until the producer hands the block on.
\<close>

lemma first_call:
  assumes "filling 0 1024 x p" and "pl_conss p = (\<lambda>_. Consumer_new)" and "readable_queue (pl_circleArray p) = []"
  shows "\<exists>p1 p2 p3. lap_step p p1 \<and> lap_step p1 p2 \<and> lap_step p2 p3 \<and> pl_trace p1 = pl_trace p \<and>
    pl_trace p2 = pl_trace p \<and> pl_trace p3 = Ran 1 0 x # pl_trace p"
proof -
  obtain p1 where p1: "pool_step p p1" "pl_trace p1 = pl_trace p" "pl_conss p1 = pl_conss p"
      "readable_queue (pl_circleArray p1) = [(0, 1024)]"
      "cq_read (pl_circleArray p1) = cq_read (pl_circleArray p)" "filling 1 0 x p1"
    using filling_next [OF assms(1), of x] assms(3) by (auto simp: insort_insert_key_def)
  have lap: "first_lap p1" using filling_first_lap [OF p1(6)] by simp
  let ?p2 = "p1\<lparr>pl_circleArray := (pl_circleArray p1)\<lparr>readable_queue := []\<rparr>,
    pl_conss := (pl_conss p1)(1 := \<lparr>c_readId = 0, c_readableId = 1024\<rparr>)\<rparr>"
  let ?p3 = "?p2\<lparr>pl_conss := (pl_conss ?p2)(1 := \<lparr>c_readId = 0 + 1, c_readableId = 1024\<rparr>),
    pl_trace := Ran 1 0 (cq_read (pl_circleArray ?p2) 0) # pl_trace ?p2\<rparr>"
  have "pool_step p1 ?p2"
    using p1(3,4,6) assms(2) by (intro take_step) (simp_all add: filling_def Consumer_new_def)
  moreover have "pool_step ?p2 ?p3"
    using p1(6) by (intro run_step) (simp_all add: filling_def)
  ultimately have "lap_step p p1" "lap_step p1 ?p2" "lap_step ?p2 ?p3"
    using p1(1) lap by (simp_all add: lap_step_def first_lap_def)
  moreover have "cq_read (pl_circleArray ?p2) 0 = x" using p1(5) assms(1) by (simp add: filling_def)
  ultimately show ?thesis using p1(2) by (intro exI [of _ p1] exI [of _ ?p2] exI [of _ ?p3]) simp
qed

text \<open>The same run with the sessions around it.\<close>

definition proxy_filling :: "nat \<Rightarrow> 's proxy \<Rightarrow> bool" where
  "proxy_filling n s \<longleftrightarrow> filling 0 n (2, demo_request) (py_pool s) \<and>
     pl_conss (py_pool s) = (\<lambda>_. Consumer_new) \<and> readable_queue (pl_circleArray (py_pool s)) = [] \<and> wd_phase (py_world s) 2 = Up \<and>
     wd_context (py_world s) = (\<lambda>_. None) \<and> wd_copies (py_world s) = {} \<and> tunnels_of (py_world s) = Map.empty \<and>
     wd_tasks (py_world s) = (\<lambda>_. None) \<and> wd_input (py_world s) 2 = (if n = 0 then [] else demo_request)"

lemma proxy_opens: "\<exists>s. reach proxy_init (proxy_step H nm) s \<and> proxy_filling 0 (s :: demo_state proxy)"
proof -
  let ?T = "(0, []) :: conn_id \<times> string" and ?step = "proxy_step H nm"
  obtain srv where srv: "ProxyServer_new 0 0 5 1 ''127.0.0.1:6666'' ''proxy''
      \<lparr>pm_shmName = ''m'', pm_mutexFd = 3, pm_owner = False\<rparr> = Inr srv"
    using demo_server by blast
  obtain p1 p2 where p: "lap_step (MyThreadPool_new ?T) p1" "lap_step p1 p2" "pl_trace p1 = []" "pl_trace p2 = []"
      "pl_conss p2 = (\<lambda>_. Consumer_new)" "readable_queue (pl_circleArray p2) = []" "filling 0 0 (2, demo_request) p2"
    using filling_start [of ?T "(2, demo_request)"] by (elim exE conjE) (rule that)
  let ?w = "world_new srv demo_env"
  let ?s0 = "\<lparr>py_pool = MyThreadPool_new ?T, py_world = ?w\<rparr>"
  let ?s1 = "?s0\<lparr>py_pool := p1\<rparr>" and ?s2 = "?s0\<lparr>py_pool := p2\<rparr>"
  let ?w' = "?w\<lparr>wd_phase := (wd_phase ?w)(2 := Up), wd_server := srv\<rparr>"
  have "pl_trace (MyThreadPool_new ?T) = []" by (simp add: MyThreadPool_new_def)
  then have s: "?step ?s0 ?s1" "?step ?s1 ?s2"
    using py_block [of ?s0 p1 H nm] py_block [of ?s1 p2 H nm] p(1-4) by simp_all
  obtain as where "onServerConnection True 2 (nm 2) (wd_server ?w) = (as, srv)"
    by (simp add: onServerConnection_def world_new_def)
  then have "world_step H nm ?w ?w'" by (intro world_step.w_open) (simp_all add: world_new_def)
  then have "?step ?s2 (?s2\<lparr>py_world := ?w'\<rparr>)"
    using py_session [of H nm ?s2 ?w'] by (simp add: world_new_def)
  moreover have "proxy_init ?s0"
    using world_new_init [OF srv] by (simp add: proxy_init_def pool_init_def)
  then have "reach proxy_init ?step ?s0" by (rule reach_init)
  then have "reach proxy_init ?step ?s1" using s(1) by (rule reach_step)
  then have "reach proxy_init ?step ?s2" using s(2) by (rule reach_step)
  ultimately have "reach proxy_init ?step (?s2\<lparr>py_world := ?w'\<rparr>)" by (rule reach_step [rotated])
  moreover have "proxy_filling 0 (?s2\<lparr>py_world := ?w'\<rparr>)"
    using p(5-7) new_server_ok(1) [OF srv] by (simp add: proxy_filling_def world_new_def)
  ultimately show ?thesis by blast
qed

lemma proxy_fills:
  "n \<le> 1024 \<Longrightarrow> \<exists>s. reach proxy_init (proxy_step H nm) s \<and> proxy_filling n (s :: demo_state proxy)"
proof (induction n)
  case 0
  then show ?case by (simp add: proxy_opens)
next
  case (Suc n)
  then obtain s :: "demo_state proxy" where s: "reach proxy_init (proxy_step H nm) s" "proxy_filling n s" by auto
  note f = s(2) [unfolded proxy_filling_def]
  have fill: "filling 0 n (2, demo_request) (py_pool s)" using f by blast
  obtain p where q: "pool_step (py_pool s) p" "pl_trace p = Wrote 3 (int n) (2, demo_request) # pl_trace (py_pool s)"
      "pl_conss p = (\<lambda>_. Consumer_new)" "readable_queue (pl_circleArray p) = []"
      "filling 0 (Suc n) (2, demo_request) p"
    using filling_store [OF fill] f Suc.prems by auto
  have p: "lap_step (py_pool s) p" "pl_trace p = Wrote 3 (int n) (2, demo_request) # pl_trace (py_pool s)"
    using q(1,2) filling_first_lap [OF q(5)] by (simp_all add: lap_step_def)
  have "demo_request = wd_input (py_world s) 2 @ (if n = 0 then demo_request else [])" using f by simp
  then have "proxy_step H nm s (s\<lparr>py_pool := p, py_world := input_of 2 demo_request (py_world s)\<rparr>)"
    using f p(1,2) demo_request_length by (intro py_message) simp_all
  with s(1) have "reach proxy_init (proxy_step H nm) (s\<lparr>py_pool := p, py_world := input_of 2 demo_request (py_world s)\<rparr>)"
    by (rule reach_step)
  moreover have "proxy_filling (Suc n) (s\<lparr>py_pool := p, py_world := input_of 2 demo_request (py_world s)\<rparr>)"
    using f q(3-5) by (simp add: proxy_filling_def input_of_def)
  ultimately show ?case by blast
qed

lemma proxy_connects:
  "\<exists>s v ended v'. reach proxy_init (proxy_step H nm) (s :: demo_state proxy) \<and> wd_tasks (py_world s) 1 = Some (2, v) \<and>
    task_turn H nm 1 0 2 v (py_world s) = Inr (ended, v') \<and> Send 3 demo_request \<in> set (sv_acts v')"
proof -
  let ?step = "proxy_step H nm"
  obtain s :: "demo_state proxy" where s: "reach proxy_init ?step s" "proxy_filling 1024 s"
    using proxy_fills [of 1024] by auto
  note f = s(2) [unfolded proxy_filling_def]
  obtain p1 p2 p3 where p: "lap_step (py_pool s) p1" "lap_step p1 p2" "lap_step p2 p3"
      "pl_trace p1 = pl_trace (py_pool s)" "pl_trace p2 = pl_trace (py_pool s)"
      "pl_trace p3 = Ran 1 0 (2, demo_request) # pl_trace (py_pool s)"
    using first_call [of "(2, demo_request)" "py_pool s"] f by blast
  let ?s2 = "s\<lparr>py_pool := p2\<rparr>"
  let ?w3 = "start_task 1 2 demo_request (py_world s)"
  let ?s3 = "s\<lparr>py_pool := p3, py_world := ?w3\<rparr>"
  have "?step s (s\<lparr>py_pool := p1\<rparr>)" "?step (s\<lparr>py_pool := p1\<rparr>) ?s2"
    using py_block [of s p1 H nm] py_block [of "s\<lparr>py_pool := p1\<rparr>" p2 H nm] p by simp_all
  then have r2: "reach proxy_init ?step ?s2" using s(1) by (blast intro: reach_step)
  have "?step ?s2 ?s3"
    using py_call [of ?s2 1 p3 0 2 demo_request H nm] p f by simp
  then have r3: "reach proxy_init ?step ?s3" by (rule reach_step [OF r2])
  have "task_started ?w3" using f by (simp add: task_started_def start_task_def)
  from task_connects [OF this, of H nm] obtain w4 w5 v
    where w: "world_step H nm ?w3 w4" "world_step H nm w4 w5" "connected_world nm v w5"
      "wd_copies w4 = {}" "wd_copies w5 = {}"
    using f by (auto simp: start_task_def)
  have "?step ?s3 (?s3\<lparr>py_world := w4\<rparr>)" using py_session [of H nm ?s3 w4] w(1,4) by simp
  then have r4: "reach proxy_init ?step (?s3\<lparr>py_world := w4\<rparr>)" by (rule reach_step [OF r3])
  have "?step (?s3\<lparr>py_world := w4\<rparr>) (?s3\<lparr>py_world := w5\<rparr>)"
    using py_session [of H nm "?s3\<lparr>py_world := w4\<rparr>" w5] w(2,5) by simp
  then have r5: "reach proxy_init ?step (?s3\<lparr>py_world := w5\<rparr>)" by (rule reach_step [OF r4])
  note c = w(3) [unfolded connected_world_def]
  have "\<exists>v'. task_turn H nm 1 0 2 v w5 = Inr (False, v') \<and> Send 3 demo_request \<in> set (sv_acts v')"
    unfolding task_turn_def
    using solve_turn_resumes [where d = 3 and nm = "nm 2" and H = H and thr = 1 and conn = 2 and
        ob = "\<lparr>ob_connected = (wd_phase w5 2 = Up), ob_context = wd_context w5 2, ob_arrived = [], ob_now = 0\<rparr>" and
        v = "v\<lparr>sv_buf := wd_input w5 2, sv_tunnels := tunnels_of w5, sv_cache := cache_of w5, sv_renv := wd_renv w5,
          sv_acts := []\<rparr>"] c
    by simp
  then show ?thesis using r5 c by (intro exI [of _ "?s3\<lparr>py_world := w5\<rparr>"]) auto
qed

section \<open>Property\<close>



end
