(* ===== verification/Pool_Safety.thy ===== *)
theory Pool_Safety
  imports Thread_Pool
begin

text \<open>
  What holds of every state of the thread pool during the first lap: the shape of the numbers in
  the queue, the producers and the consumers (\<open>pool_typed\<close>), and that no two threads are about
  to touch the same slot of the shared vector, which they do without a lock
  (\<open>pool_race_free\<close>).
\<close>

section \<open>The shape of the state\<close>

definition block_start :: "int \<Rightarrow> 'a CircleQueue \<Rightarrow> bool" where
  "block_start a q \<longleftrightarrow> 0 \<le> a \<and> a mod 1024 = 0 \<and> a + 1024 \<le> cq_writeId q"

definition queue_typed :: "'a CircleQueue \<Rightarrow> bool" where
  "queue_typed q \<longleftrightarrow> cq_size q = 2 ^ 24 \<and> try_size q = 1024 \<and>
     0 \<le> cq_writeId q \<and> cq_writeId q mod 1024 = 0 \<and> cq_writeId q < 2 ^ 24 \<and>
     sorted (readable_queue q) \<and> distinct (readable_queue q) \<and>
     (\<forall>(a, b) \<in> set (readable_queue q). block_start a q \<and> b = a + 1024)"

definition producer_typed :: "'a CircleQueue \<Rightarrow> Producer \<Rightarrow> bool" where
  "producer_typed q p \<longleftrightarrow> p = Producer_new \<or>
     block_start (p_writeId p) q \<and> p_writableId p = p_writeId p + 1024 \<and>
     p_writeId p \<le> p_curWriteId p \<and> p_curWriteId p \<le> p_writableId p"

definition consumer_typed :: "'a CircleQueue \<Rightarrow> Consumer \<Rightarrow> bool" where
  "consumer_typed q c \<longleftrightarrow> c = Consumer_new \<or>
     block_start (c_readableId c - 1024) q \<and>
     c_readableId c - 1024 \<le> c_readId c \<and> c_readId c \<le> c_readableId c"

definition pool_typed :: "'a MyThreadPool \<Rightarrow> bool" where
  "pool_typed s \<longleftrightarrow> queue_typed (pl_circleArray s) \<and>
     (\<forall>i. producer_typed (pl_circleArray s) (pl_prods s i)) \<and>
     (\<forall>j. consumer_typed (pl_circleArray s) (pl_conss s j))"

text \<open>\<open>std::set\<close> keeps its elements in order, whatever the steps are.\<close>

definition queue_sorted :: "'a MyThreadPool \<Rightarrow> bool" where
  "queue_sorted s \<longleftrightarrow> sorted (readable_queue (pl_circleArray s))"

lemma acquire_sorted:
  assumes "Producer_acquire p q = (ok, p', q')" and "sorted (readable_queue q)"
  shows "sorted (readable_queue q')"
proof -
  have "readable_queue (snd (tryWriteSpace a b q)) =
      (if b \<noteq> 0 then insort_insert (a, b) (readable_queue q) else readable_queue q)" for a b
    by (simp add: tryWriteSpace_def Let_def)
  moreover have "q' = snd (tryWriteSpace (p_writeId p) (p_writableId p) q)"
    using assms(1) by (auto simp: Producer_acquire_def split_def Let_def split: if_splits)
  ultimately show ?thesis using assms(2) by (simp add: sorted_insort_insert)
qed

lemma step_sorted: "pool_step s t \<Longrightarrow> queue_sorted s \<Longrightarrow> queue_sorted t"
proof (induction rule: pool_step.induct)
  case (ps_acquire s i ok p q)
  then show ?case
    using acquire_sorted [OF ps_acquire(2)] by (simp add: queue_sorted_def)
qed (auto simp: queue_sorted_def MyThreadPool_start_def Producer_store_def Consumer_fetch_def
      cq_write_def tryReadSpaceByCV_def split: list.splits)

interpretation pool_order: transition_system "pool_init T" lap_step queue_sorted
proof
  fix s t :: "'a MyThreadPool"
  show "pool_init T s \<Longrightarrow> queue_sorted s"
    by (simp add: pool_init_def queue_sorted_def MyThreadPool_new_def CircleQueue_new_def)
  show "queue_sorted s \<Longrightarrow> lap_step s t \<Longrightarrow> queue_sorted t"
    using step_sorted by (auto simp: lap_step_def)
qed

section \<open>The slots the threads are about to touch\<close>

datatype thread = IO_Thread nat | Worker nat

fun next_access :: "'a MyThreadPool \<Rightarrow> thread \<Rightarrow> int option" where
  "next_access s (IO_Thread i) =
     (let p = pl_prods s i in if p_curWriteId p < p_writableId p then Some (p_curWriteId p) else None)"
| "next_access s (Worker j) =
     (let c = pl_conss s j in if c_readId c < c_readableId c then Some (c_readId c) else None)"

fun thread_owner :: "thread \<Rightarrow> owner" where
  "thread_owner (IO_Thread i) = OProd i"
| "thread_owner (Worker j) = OCons j"

lemma thread_owner_inject [simp]: "thread_owner x = thread_owner y \<longleftrightarrow> x = y"
  by (cases x; cases y) auto

text \<open>A thread that is about to touch a slot owns the block of the slot.\<close>

lemma next_access_owned:
  assumes "pool_good own s" and "next_access s x = Some k"
  shows "own (block_of k) = Some (thread_owner x)"
proof -
  have g: "owns_granted own s" "owns_prods own s" "owns_conss own s"
    using assms(1) by (simp_all add: pool_good_def)
  show ?thesis
  proof (cases x)
    case (IO_Thread i)
    then have k: "k = p_curWriteId (pl_prods s i)" "k < p_writableId (pl_prods s i)"
      using assms(2) by (auto simp: Let_def split: if_splits)
    then have "pl_prods s i \<noteq> Producer_new" by (auto simp: Producer_new_def)
    note p = prodsD(1-3) [OF g(2) this]
    have "block_of k = p_writeId (pl_prods s i)"
      using owned_range(2) [OF g(1), of "p_writeId (pl_prods s i)"] p k by (intro block_of_eq) auto
    then show ?thesis using p(1) IO_Thread by simp
  next
    case (Worker j)
    then have k: "k = c_readId (pl_conss s j)" "k < c_readableId (pl_conss s j)"
      using assms(2) by (auto simp: Let_def split: if_splits)
    then have "pl_conss s j \<noteq> Consumer_new" by (auto simp: Consumer_new_def)
    note c = conssD(1,2) [OF g(3) this]
    have "block_of k = c_readableId (pl_conss s j) - 1024"
      using owned_range(2) [OF g(1), of "c_readableId (pl_conss s j) - 1024"] c k
      by (intro block_of_eq) auto
    then show ?thesis using c(1) Worker by simp
  qed
qed

section \<open>Properties\<close>

text \<open>
  C24: The types of the pool's data are kept. In every reachable state of the first lap the
  published set is in order and without repetition, each of its pairs is an aligned block of
  1024 slots below the write position, and every producer and every consumer is new or stands
  within an aligned block that was granted; the position of the next block stays a multiple of
  1024 within the vector.
\<close>

theorem pool_state_typed:
  assumes "reach (pool_init T) lap_step s"
  shows "pool_typed s"
proof -
  obtain own where good: "pool_good own s" and lap: "first_lap s" using assms by (rule pool_reach_good)
  have g: "owns_granted own s" "owns_prods own s" "owns_queue own s" "owns_conss own s"
    using good by (simp_all add: pool_good_def)
  have start: "block_start a (pl_circleArray s)" if "own a = Some x" for a x
    using owned_range [OF g(1), of a] that by (simp add: block_start_def)
  have "queue_typed (pl_circleArray s)"
    using g(1,3) lap pool_order.reach_inv [OF assms] start
    by (auto simp: queue_typed_def owns_granted_def owns_queue_def cq_ok_def first_lap_def queue_sorted_def)
  moreover have "producer_typed (pl_circleArray s) (pl_prods s i)" for i
    using prodsD(1-4) [OF g(2), of i] start by (auto simp: producer_typed_def)
  moreover have "consumer_typed (pl_circleArray s) (pl_conss s j)" for j
    using conssD(1-3) [OF g(4), of j] start by (auto simp: consumer_typed_def)
  ultimately show ?thesis by (simp add: pool_typed_def)
qed

theorem pool_state_typed_witness: "pool_typed pool_demo"
  by (rule pool_state_typed [OF pool_demo_reach])

text \<open>
  C9: The vector of tasks is free of data races. Threads read and write its slots without the
  lock, but in no reachable state of the first lap are two different threads, IO threads that
  store or worker threads that fetch, about to touch the same slot of the vector.
\<close>

theorem pool_race_free:
  assumes "reach (pool_init T) lap_step s" and "x \<noteq> y"
    and "next_access s x = Some k" and "next_access s y = Some m"
  shows "slot (pl_circleArray s) k \<noteq> slot (pl_circleArray s) m"
proof
  assume same: "slot (pl_circleArray s) k = slot (pl_circleArray s) m"
  obtain own where good: "pool_good own s" and lap: "first_lap s" using assms(1) by (rule pool_reach_good)
  have g: "owns_granted own s" using good by (simp add: pool_good_def)
  note own = next_access_owned [OF good assms(3)] next_access_owned [OF good assms(4)]
  have range: "k \<in> cq_lap (pl_circleArray s)" "m \<in> cq_lap (pl_circleArray s)"
    using stored_lap [OF g _ lap] own by auto
  then have "nat k = nat m" and "0 \<le> k" "0 \<le> m"
    using same by (auto simp: slot_lap) (auto simp: cq_lap_def)
  then have "k = m" by simp
  then show False using own assms(2) by simp
qed

text \<open>A second producer gets a block of its own.\<close>

definition pool_demo2 :: "nat MyThreadPool" where
  "pool_demo2 = pool_demo\<lparr>pl_circleArray := (pl_circleArray pool_demo)\<lparr>cq_writeId := 2048\<rparr>,
     pl_prods := (pl_prods pool_demo)(4 := \<lparr>p_writeId = 1024, p_curWriteId = 1024, p_writableId = 2048\<rparr>)\<rparr>"

lemma pool_demo2_reach: "reach (pool_init 0) lap_step pool_demo2"
proof -
  let ?q = "pl_circleArray pool_demo" and ?p = "\<lparr>p_writeId = 1024, p_curWriteId = 1024, p_writableId = 2048\<rparr>"
  have "cq_ok ?q" and "cq_writeId ?q = 1024" and p: "pl_prods pool_demo 4 = Producer_new"
    by (simp_all add: pool_demo_def cq_ok_def CircleQueue_new_def cq_write_def)
  then have "Producer_acquire Producer_new ?q = (True, ?p, ?q\<lparr>cq_writeId := 2048\<rparr>)"
    using Producer_acquire_grant [of ?q Producer_new] by (simp add: Producer_new_def published_def)
  then have "pool_step pool_demo pool_demo2"
    using ps_acquire [of pool_demo 4 True ?p "?q\<lparr>cq_writeId := 2048\<rparr>"] p
    by (simp add: pool_demo2_def Producer_new_def)
  then have "lap_step pool_demo pool_demo2"
    by (simp add: lap_step_def first_lap_def pool_demo2_def)
  then show ?thesis using pool_demo_reach by (blast intro: reach_step)
qed

theorem pool_race_free_witness:
  "slot (pl_circleArray pool_demo2) 1 \<noteq> slot (pl_circleArray pool_demo2) 1024"
  by (rule pool_race_free [OF pool_demo2_reach, of "IO_Thread 3" "IO_Thread 4"])
    (simp_all add: pool_demo2_def pool_demo_def)

end
