(* ===== verification/Pool_Progress.thy ===== *)
theory Pool_Progress
  imports Pool_Runs
begin

text \<open>
  What the worker threads do when the IO threads pause: every turn of \<open>runInMyThread\<close> calls one
  task, as long as there is one in a published block or in the rest of a worker's block, and then
  all of these have been called. The amount of work is the locale \<open>counted_steps\<close>.
\<close>

section \<open>Turns and the work that is left\<close>

definition worker_turn :: "'a \<Rightarrow> 'a MyThreadPool \<Rightarrow> 'a MyThreadPool \<Rightarrow> bool" where
  "worker_turn T s t \<longleftrightarrow> pl_running s \<and> (\<exists>j < pl_threads s. runInMyThread_turn T j s = Some t)"

definition rest_of_block :: "Consumer \<Rightarrow> nat" where
  "rest_of_block c = nat (c_readableId c - c_readId c)"

definition pending :: "'a MyThreadPool \<Rightarrow> nat" where
  "pending s = 1024 * length (readable_queue (pl_circleArray s)) + (\<Sum>j < pl_threads s. rest_of_block (pl_conss s j))"

lemma rest_new [simp]: "rest_of_block Consumer_new = 0"
  by (simp add: rest_of_block_def Consumer_new_def)

lemma sum_upd:
  fixes f :: "'b \<Rightarrow> nat"
  assumes "j < (n::nat)"
  shows "(\<Sum>i<n. f ((g(j := c)) i)) + f (g j) = (\<Sum>i<n. f (g i)) + f c"
proof -
  have "(\<Sum>i\<in>{..<n} - {j}. f ((g(j := c)) i)) = (\<Sum>i\<in>{..<n} - {j}. f (g i))"
    by (rule sum.cong) auto
  then show ?thesis using assms by (simp add: sum.remove [of "{..<n}" j])
qed

text \<open>Only threads that were started have blocks, and a running pool has threads.\<close>

definition workers_ok :: "'a MyThreadPool \<Rightarrow> bool" where
  "workers_ok s \<longleftrightarrow> (pl_running s \<longrightarrow> 0 < pl_threads s) \<and> (\<forall>j \<ge> pl_threads s. pl_conss s j = Consumer_new)"

lemma workers_step: "pool_step s t \<Longrightarrow> workers_ok s \<Longrightarrow> workers_ok t"
  by (induction rule: pool_step.induct) (auto simp: workers_ok_def MyThreadPool_start_def)

interpretation pool_workers: transition_system "pool_init T" lap_step workers_ok
  by unfold_locales
    (auto simp: workers_ok_def pool_init_def MyThreadPool_new_def lap_step_def dest: workers_step)

definition draining_inv :: "'a MyThreadPool \<Rightarrow> bool" where
  "draining_inv s \<longleftrightarrow> pool_inv s \<and> workers_ok s \<and> pl_running s"

section \<open>The effect of a turn\<close>

text \<open>The task that thread \<open>j\<close> calls, and the number of it.\<close>

lemma turn_effect:
  assumes "pool_inv s" and "pl_running s"
  shows "runInMyThread_turn T j s =
    (let c = pl_conss s j; q = pl_circleArray s
     in if c_readId c < c_readableId c
        then Some (s\<lparr>pl_conss := (pl_conss s)(j := c\<lparr>c_readId := c_readId c + 1\<rparr>),
               pl_trace := Ran j (c_readId c) (cq_read q (c_readId c)) # pl_trace s\<rparr>)
        else (case readable_queue q of
                [] \<Rightarrow> None
              | (a, e) # rs \<Rightarrow> Some (s\<lparr>pl_circleArray := q\<lparr>readable_queue := rs\<rparr>,
                  pl_conss := (pl_conss s)(j := \<lparr>c_readId = a + 1, c_readableId = e\<rparr>),
                  pl_trace := Ran j a (cq_read q a) # pl_trace s\<rparr>)))"
proof -
  let ?c = "pl_conss s j" and ?q = "pl_circleArray s"
  obtain own where good: "pool_good own s" and lap: "first_lap s" using assms(1) by (auto simp: pool_inv_def)
  have g: "owns_granted own s" "owns_queue own s" "owns_conss own s"
    using good by (simp_all add: pool_good_def)
  have small: "to_long (k + 1) = k + 1" if "0 \<le> k" "k < cq_writeId ?q" for k
    using that lap by (intro to_long_id) (simp_all add: first_lap_def)
  show ?thesis
  proof (cases "c_readId ?c < c_readableId ?c")
    case True
    then have "?c \<noteq> Consumer_new" by (auto simp: Consumer_new_def)
    from conssD(1-3) [OF g(3) this] owned_range [OF g(1), of "c_readableId ?c - 1024"] True
    have "to_long (c_readId ?c + 1) = c_readId ?c + 1" by (intro small) auto
    then show ?thesis
      using True assms(2) by (simp add: runInMyThread_turn_def Consumer_read_def Consumer_fetch_def Let_def)
  next
    case False
    show ?thesis
    proof (cases "readable_queue ?q")
      case Nil
      then show ?thesis
        using False assms(2) by (simp add: runInMyThread_turn_def Consumer_read_def tryReadSpaceByCV_def Let_def)
    next
      case (Cons r rs)
      obtain a e where r: "r = (a, e)" by (cases r)
      have "own a = Some OQueue" using g(2) Cons r by (auto simp: owns_queue_def)
      then have a: "0 \<le> a" "a < cq_writeId ?q" using owned_range(1,3) [OF g(1), of a] by auto
      have "cq_read (?q\<lparr>readable_queue := rs\<rparr>) a = cq_read ?q a" by (simp add: cq_read_def slot_def)
      then show ?thesis
        using False assms(2) Cons r a small [OF a]
        by (simp add: runInMyThread_turn_def Consumer_read_def Consumer_fetch_def tryReadSpaceByCV_def Let_def)
    qed
  qed
qed

lemma turn_steps: "draining_inv s \<Longrightarrow> worker_turn T s t \<Longrightarrow> lap_step\<^sup>*\<^sup>* s t"
  by (auto simp: worker_turn_def draining_inv_def pool_inv_def intro: turn_is_steps)

lemma turn_inv: "draining_inv s \<Longrightarrow> worker_turn T s t \<Longrightarrow> draining_inv t"
proof -
  assume inv: "draining_inv s" and turn: "worker_turn T s t"
  note steps = turn_steps [OF inv turn]
  have "pl_running t"
    using turn turn_effect [of s T] inv
    by (auto simp: worker_turn_def draining_inv_def Let_def split: if_splits list.splits)
  then show ?thesis
    using inv pool.steps_inv [OF steps] pool_workers.steps_inv [OF steps] by (simp add: draining_inv_def)
qed

lemma queue_block:
  assumes "pool_inv s" and "readable_queue (pl_circleArray s) = (a, e) # rs"
  shows "e = a + 1024"
  using assms by (auto simp: pool_inv_def pool_good_def owns_queue_def)

lemma turn_pending: "draining_inv s \<Longrightarrow> worker_turn T s t \<Longrightarrow> pending s = Suc (pending t)"
proof -
  assume inv: "draining_inv s" and turn: "worker_turn T s t"
  obtain j where j: "j < pl_threads s" "runInMyThread_turn T j s = Some t" "pl_running s"
    using turn by (auto simp: worker_turn_def)
  have p: "pool_inv s" using inv by (simp add: draining_inv_def)
  let ?c = "pl_conss s j" and ?q = "pl_circleArray s"
  note upd = sum_upd [OF j(1), of rest_of_block "pl_conss s"]
  show ?thesis
  proof (cases "c_readId ?c < c_readableId ?c")
    case True
    then have t: "pl_circleArray t = ?q" "pl_threads t = pl_threads s"
        "pl_conss t = (pl_conss s)(j := ?c\<lparr>c_readId := c_readId ?c + 1\<rparr>)"
      using turn_effect [OF p j(3), of T j] j(2) by (auto simp: Let_def)
    have "rest_of_block ?c = Suc (rest_of_block (?c\<lparr>c_readId := c_readId ?c + 1\<rparr>))"
      using True by (simp add: rest_of_block_def)
    then show ?thesis using upd [of "?c\<lparr>c_readId := c_readId ?c + 1\<rparr>"] by (simp add: pending_def t)
  next
    case False
    obtain a e rs where rq: "readable_queue ?q = (a, e) # rs"
      using False turn_effect [OF p j(3), of T j] j(2) by (auto simp: Let_def split: list.splits)
    then have t: "pl_circleArray t = ?q\<lparr>readable_queue := rs\<rparr>" "pl_threads t = pl_threads s"
        "pl_conss t = (pl_conss s)(j := \<lparr>c_readId = a + 1, c_readableId = e\<rparr>)"
      using False turn_effect [OF p j(3), of T j] j(2) by (auto simp: Let_def)
    have "rest_of_block ?c = 0" "rest_of_block \<lparr>c_readId = a + 1, c_readableId = e\<rparr> = 1023"
      using False queue_block [OF p rq] by (simp_all add: rest_of_block_def)
    then show ?thesis
      using upd [of "\<lparr>c_readId = a + 1, c_readableId = e\<rparr>"] by (simp add: pending_def t rq)
  qed
qed

lemma turn_enabled: "draining_inv s \<Longrightarrow> 0 < pending s \<Longrightarrow> \<exists>t. worker_turn T s t"
proof -
  assume inv: "draining_inv s" and work: "0 < pending s"
  have p: "pool_inv s" "pl_running s" "0 < pl_threads s"
    using inv by (auto simp: draining_inv_def workers_ok_def)
  show ?thesis
  proof (cases "\<exists>j < pl_threads s. 0 < rest_of_block (pl_conss s j)")
    case True
    then obtain j where j: "j < pl_threads s" "c_readId (pl_conss s j) < c_readableId (pl_conss s j)"
      by (auto simp: rest_of_block_def)
    then show ?thesis using turn_effect [OF p(1,2), of T j] p(2) by (auto simp: worker_turn_def Let_def)
  next
    case False
    then have "(\<Sum>j < pl_threads s. rest_of_block (pl_conss s j)) = 0" by simp
    then have "readable_queue (pl_circleArray s) \<noteq> []" using work by (auto simp: pending_def)
    moreover have "\<not> c_readId (pl_conss s 0) < c_readableId (pl_conss s 0)"
      using False p(3) by (auto simp: rest_of_block_def)
    ultimately show ?thesis
      using turn_effect [OF p(1,2), of T 0] p(2,3)
      by (cases "readable_queue (pl_circleArray s)") (auto simp: worker_turn_def Let_def split: prod.splits)
  qed
qed

interpretation drain: counted_steps "worker_turn T" draining_inv pending for T
  by unfold_locales (auto intro: turn_inv turn_enabled dest: turn_pending)

section \<open>When the work is done\<close>

text \<open>A turn leaves the producers, and what was stored, as they are.\<close>

lemma turn_keeps:
  assumes "draining_inv s" and "worker_turn T s t"
  shows "pl_prods t = pl_prods s" and "wrote_ids (pl_trace t) = wrote_ids (pl_trace s)"
    and "pl_running t" and "pl_threads t = pl_threads s"
    and "cq_writeId (pl_circleArray t) = cq_writeId (pl_circleArray s)"
proof -
  obtain j where j: "runInMyThread_turn T j s = Some t" "pl_running s"
    using assms(2) by (auto simp: worker_turn_def)
  have "pool_inv s" using assms(1) by (simp add: draining_inv_def)
  note e = turn_effect [OF this j(2), of T j]
  show "pl_prods t = pl_prods s" "wrote_ids (pl_trace t) = wrote_ids (pl_trace s)" "pl_running t"
    "pl_threads t = pl_threads s" "cq_writeId (pl_circleArray t) = cq_writeId (pl_circleArray s)"
    using e j by (auto simp: Let_def split: if_splits list.splits)
qed

lemma turns_keep:
  "(worker_turn T ^^ n) s t \<Longrightarrow> draining_inv s \<Longrightarrow>
    pl_prods t = pl_prods s \<and> wrote_ids (pl_trace t) = wrote_ids (pl_trace s) \<and> pl_threads t = pl_threads s \<and>
    cq_writeId (pl_circleArray t) = cq_writeId (pl_circleArray s)"
proof (induction n arbitrary: t)
  case (Suc n)
  then obtain u where u: "(worker_turn T ^^ n) s u" "worker_turn T u t" by auto
  then have "draining_inv u" using drain.count [OF u(1) Suc.prems(2)] by simp
  then show ?case using Suc.IH [OF u(1) Suc.prems(2)] turn_keeps [OF _ u(2)] by simp
qed simp

lemma turns_reach:
  "(worker_turn T ^^ n) s t \<Longrightarrow> draining_inv s \<Longrightarrow> reach (pool_init T) lap_step s \<Longrightarrow> reach (pool_init T) pool_step t"
proof -
  have weak: "reach (pool_init T) pool_step s" if "reach (pool_init T) lap_step s" for s
    using that by (induction rule: reach.induct) (auto simp: lap_step_def intro: reach_init reach_step)
  have "reach (pool_init T) lap_step t"
    if "(worker_turn T ^^ n) s t" "draining_inv s" "reach (pool_init T) lap_step s"
    using that
  proof (induction n arbitrary: t)
    case (Suc n)
    then obtain u where u: "(worker_turn T ^^ n) s u" "worker_turn T u t" by auto
    then have "draining_inv u" using drain.count [OF u(1) Suc.prems(2)] by simp
    from steps_reach [OF turn_steps [OF this u(2)] Suc.IH [OF u(1) Suc.prems(2,3)]] show ?case .
  qed simp
  then show "(worker_turn T ^^ n) s t \<Longrightarrow> draining_inv s \<Longrightarrow> reach (pool_init T) lap_step s \<Longrightarrow>
    reach (pool_init T) pool_step t" using weak by blast
qed

text \<open>No published block, and no worker in the middle of one.\<close>

lemma pending_0:
  assumes "draining_inv s" and "pending s = 0"
  shows "readable_queue (pl_circleArray s) = []" and "\<not> c_readId (pl_conss s j) < c_readableId (pl_conss s j)"
proof -
  show "readable_queue (pl_circleArray s) = []" using assms(2) by (simp add: pending_def)
  have "rest_of_block (pl_conss s j) = 0"
    using assms by (cases "j < pl_threads s") (auto simp: pending_def draining_inv_def workers_ok_def)
  then show "\<not> c_readId (pl_conss s j) < c_readableId (pl_conss s j)" by (simp add: rest_of_block_def)
qed

text \<open>Then every task that was stored has been called, or its producer has not handed it on.\<close>

lemma pending_0_called:
  assumes "draining_inv s" and "pending s = 0" and "k \<in> set (wrote_ids (pl_trace s))"
  shows "k \<in> set (ran_ids (pl_trace s)) \<or>
    (\<exists>i. p_writeId (pl_prods s i) \<le> k \<and> k < p_curWriteId (pl_prods s i))"
proof (rule ccontr)
  assume not: "\<not> ?thesis"
  obtain own where "pool_good own s" using assms(1) by (auto simp: draining_inv_def pool_inv_def)
  then have "(\<exists>i. p_writeId (pl_prods s i) \<le> k \<and> k < p_curWriteId (pl_prods s i)) \<or>
      (\<exists>(a, b) \<in> set (readable_queue (pl_circleArray s)). a \<le> k \<and> k < b) \<or>
      (\<exists>j. c_readId (pl_conss s j) \<le> k \<and> k < c_readableId (pl_conss s j))"
    using assms(3) not by (intro stored_where) auto
  moreover have "\<not> (c_readId (pl_conss s j) \<le> k \<and> k < c_readableId (pl_conss s j))" for j
    using pending_0(2) [OF assms(1,2), of j] by linarith
  ultimately show False using not pending_0(1) [OF assms(1,2)] by simp
qed

section \<open>Property\<close>

lemma reach_draining: "reach (pool_init T) lap_step s \<Longrightarrow> pl_running s \<Longrightarrow> draining_inv s"
  using pool.reach_inv pool_workers.reach_inv by (auto simp: draining_inv_def)

text \<open>
  C10: The worker threads drain the ring. From every reachable state of the first lap in which the
  pool runs, and in whatever order the threads take their turns: there are \<open>pending s\<close> turns and no
  more, each of them is possible until the last is done (no thread blocks another), and after them
  every task that had been stored has been called, except those in the block that a producer has
  not handed on yet.
\<close>

theorem workers_drain_ring:
  assumes "reach (pool_init T) lap_step s" and "pl_running s" and "(worker_turn T ^^ n) s t"
  shows "n \<le> pending s \<and> (n < pending s \<longrightarrow> (\<exists>u. worker_turn T t u)) \<and>
    (n = pending s \<longrightarrow> (\<forall>k \<in> set (wrote_ids (pl_trace s)). k \<in> set (ran_ids (pl_trace t)) \<or>
      (\<exists>i. p_writeId (pl_prods s i) \<le> k \<and> k < p_curWriteId (pl_prods s i))))"
proof -
  have inv: "draining_inv s" using reach_draining assms(1,2) .
  have t: "draining_inv t" "pending s = pending t + n" using drain.count [OF assms(3) inv] by simp_all
  show ?thesis
    using drain.stops [OF assms(3) inv] drain.goes_on [OF assms(3) inv] turns_keep [OF assms(3) inv] t
      pending_0_called [OF t(1)]
    by auto
qed

text \<open>A full block has just been handed on.\<close>

lemma block_handed_on:
  "\<exists>p. reach (pool_init T) lap_step p \<and> pl_running p \<and> pending p = 1024 \<and>
    set (wrote_ids (pl_trace p)) = {0..<1024} \<and> (\<forall>i. \<not> p_writeId (pl_prods p i) < p_curWriteId (pl_prods p i))"
proof -
  obtain p where p: "reach (pool_init T) lap_step p" "filling 0 1024 T p" "pl_conss p = (\<lambda>_. Consumer_new)"
      "readable_queue (pl_circleArray p) = []" "set (wrote_ids (pl_trace p)) = {0..<1024}"
    using filling_blocks [of 0 T T] by auto
  obtain p1 where p1: "pool_step p p1" "pl_trace p1 = pl_trace p" "pl_conss p1 = pl_conss p"
      "readable_queue (pl_circleArray p1) = [(0, 1024)]" "filling 1 0 T p1"
    using filling_next [OF p(2), of T] p(4) by (auto simp: insort_insert_key_def)
  have "lap_step p p1"
    using p1(1) filling_first_lap [OF p1(5)] by (simp add: lap_step_def)
  then have "reach (pool_init T) lap_step p1" by (rule reach_step [OF p(1)])
  moreover have "\<not> p_writeId (pl_prods p1 i) < p_curWriteId (pl_prods p1 i)" for i
    using p1(5) by (cases "i = 3") (simp_all add: filling_def Producer_new_def)
  moreover have "pending p1 = 1024" using p1(3,4) p(3) by (simp add: pending_def)
  ultimately show ?thesis
    using p1(2,5) p(5) by (intro exI [of _ p1]) (simp add: filling_def)
qed

theorem workers_drain_ring_witness:
  "\<exists>s t. reach (pool_init (0 :: nat)) lap_step s \<and> (worker_turn 0 ^^ 1024) s t \<and> pending s = 1024 \<and>
    {0..<1024} \<subseteq> set (ran_ids (pl_trace t))"
proof -
  obtain s :: "nat MyThreadPool" where s: "reach (pool_init 0) lap_step s" "pl_running s" "pending s = 1024"
      "set (wrote_ids (pl_trace s)) = {0..<1024}" "\<forall>i. \<not> p_writeId (pl_prods s i) < p_curWriteId (pl_prods s i)"
    using block_handed_on [of 0] by blast
  obtain t where t: "(worker_turn 0 ^^ 1024) s t"
    using drain.run_exists [OF reach_draining [OF s(1,2)], of 1024 0] s(3) by auto
  have all: "\<forall>k \<in> {0..<1024}. k \<in> set (ran_ids (pl_trace t)) \<or>
      (\<exists>i. p_writeId (pl_prods s i) \<le> k \<and> k < p_curWriteId (pl_prods s i))"
    using workers_drain_ring [OF s(1,2) t] s(3,4) by simp
  have "k \<in> set (ran_ids (pl_trace t))" if "k \<in> {0..<1024}" for k
    using all that s(5) le_less_trans by blast
  then show ?thesis using s(1,3) t by blast
qed

end
