(* ===== verification/Pool_Lap.thy ===== *)
theory Pool_Lap
  imports Pool_Progress
begin

text \<open>
  Why the theorems about the ring stop at the end of the first lap: with one block more a single
  IO thread can make a task run twice. The IO thread fills all blocks of the lap, the worker
  threads call all that was handed on, and then the thread asks for space twice more. Each
  request is refused, and publishes its last block once more.
\<close>

text \<open>The last block of the lap, with everything before it called.\<close>

lemma last_block:
  "\<exists>p. reach (pool_init T) pool_step p \<and> filling 16382 1024 T p \<and>
    readable_queue (pl_circleArray p) = [(1024 * 16381, 1024 * 16382)] \<and>
    (\<forall>j. c_readableId (pl_conss p j) \<le> c_readId (pl_conss p j))"
proof -
  obtain p where p: "reach (pool_init T) lap_step p" "filling 16381 1024 T p"
    using filling_blocks [of 16381 T T] by auto
  have "draining_inv p" using reach_draining [OF p(1)] p(2) by (simp add: filling_def)
  then obtain n t where t: "(worker_turn T ^^ n) p t" "draining_inv t" "pending t = 0"
    using drain.run_exists [of p "pending p" T] drain.count [of "pending p" T p] by fastforce
  note k = turns_keep [OF t(1) \<open>draining_inv p\<close>] and d = pending_0 [OF t(2,3)]
  have "filling 16381 1024 (cq_read (pl_circleArray t) (1024 * 16381)) t"
    using p(2) k t(2) by (auto simp: filling_def draining_inv_def pool_inv_def pool_good_def owns_granted_def)
  from filling_next [OF this, of T] d(1)
  obtain p1 where p1: "pool_step t p1" "pl_conss p1 = pl_conss t"
      "readable_queue (pl_circleArray p1) = [(1024 * 16381, 1024 * 16382)]" "filling 16382 0 T p1"
    by (auto simp: insort_insert_key_def)
  obtain p2 where p2: "pool_step\<^sup>*\<^sup>* p1 p2" "pl_conss p2 = pl_conss p1"
      "readable_queue (pl_circleArray p2) = readable_queue (pl_circleArray p1)" "filling 16382 1024 T p2"
    using filling_fill [OF _ p1(4), of 1024] by auto
  have "reach (pool_init T) pool_step t"
    using turns_reach [OF t(1) \<open>draining_inv p\<close>] p(1) .
  then have "reach (pool_init T) pool_step p1" using p1(1) by (rule reach_step)
  from steps_reach [OF p2(1) this] show ?thesis
    using p1(2,3) p2 d(2) by (intro exI [of _ p2]) (simp add: not_less)
qed

text \<open>A worker thread takes the first block of the queue and calls its first task.\<close>

lemma take_and_run:
  assumes "reach (pool_init T) pool_step p" and "pl_running p" and "j < pl_threads p"
    and "c_readableId (pl_conss p j) \<le> c_readId (pl_conss p j)"
    and "readable_queue (pl_circleArray p) = (a, e) # rs" and "0 \<le> a" "a < e" "a < 2 ^ 62"
  shows "\<exists>p'. reach (pool_init T) pool_step p' \<and> ran_ids (pl_trace p') = a # ran_ids (pl_trace p) \<and>
    readable_queue (pl_circleArray p') = rs \<and> (\<forall>i. i \<noteq> j \<longrightarrow> pl_conss p' i = pl_conss p i) \<and>
    (\<forall>b n x. filling b n x p \<longrightarrow> filling b n x p')"
proof -
  let ?p1 = "p\<lparr>pl_circleArray := (pl_circleArray p)\<lparr>readable_queue := rs\<rparr>,
    pl_conss := (pl_conss p)(j := \<lparr>c_readId = a, c_readableId = e\<rparr>)\<rparr>"
  let ?p2 = "?p1\<lparr>pl_conss := (pl_conss ?p1)(j := \<lparr>c_readId = a + 1, c_readableId = e\<rparr>),
    pl_trace := Ran j a (cq_read (pl_circleArray ?p1) a) # pl_trace ?p1\<rparr>"
  have "reach (pool_init T) pool_step ?p1" using take_step [OF assms(2-6)] by (rule reach_step [OF assms(1)])
  moreover have "pool_step ?p1 ?p2" using assms(2,3,6-8) by (intro run_step) simp_all
  ultimately have "reach (pool_init T) pool_step ?p2" by (rule reach_step)
  moreover have "filling b n x ?p2" if "filling b n x p" for b n x
    using that by (simp add: filling_def cq_ok_def)
  ultimately show ?thesis by (intro exI [of _ ?p2]) simp
qed

section \<open>Property\<close>


end
