(* ===== verification/Pool_Lifetime.thy ===== *)
theory Pool_Lifetime
  imports Pool_Lap
begin

text \<open>
  What the ring takes in its whole life, with no bound on the run. Counted are the IO threads that
  have asked for space, and the room that is left in their blocks: what was stored and this room
  together are what was granted. A thread that has a block is not granted another after the lap,
  so that only threads which have never had one can go on.
\<close>

section \<open>Stored tasks, granted blocks and room\<close>

definition active :: "'a MyThreadPool \<Rightarrow> nat set" where
  "active s = {i. pl_prods s i \<noteq> Producer_new}"

definition room :: "Producer \<Rightarrow> int" where
  "room p = p_writableId p - p_curWriteId p"

definition has_block :: "'a CircleQueue \<Rightarrow> Producer \<Rightarrow> bool" where
  "has_block q p \<longleftrightarrow> 0 < p_writableId p \<and> 0 \<le> p_curWriteId p \<and> 0 \<le> room p \<and> p_writableId p \<le> cq_writeId q"

definition life_bound :: "nat \<Rightarrow> int" where
  "life_bound n = (if n = 0 then 0 else 1024 * (16382 + int n))"

definition ledger :: "'a MyThreadPool \<Rightarrow> bool" where
  "ledger s \<longleftrightarrow> cq_ok (pl_circleArray s) \<and> (\<forall>i \<in> active s. has_block (pl_circleArray s) (pl_prods s i)) \<and>
     int (length (wrote_ids (pl_trace s))) + (\<Sum>i \<in> active s. room (pl_prods s i)) = cq_writeId (pl_circleArray s) \<and>
     cq_writeId (pl_circleArray s) \<le> life_bound (card (active s))"

definition lifetime_inv :: "'a MyThreadPool \<Rightarrow> bool" where
  "lifetime_inv s \<longleftrightarrow> finite (active s) \<and> try_size (pl_circleArray s) = 1024 \<and>
     (\<forall>i \<in> active s. p_writeId (pl_prods s i) \<noteq> p_writableId (pl_prods s i)) \<and>
     (card (active s) < 2 ^ 40 \<longrightarrow> ledger s)"

lemma to_long_moves: "to_long (w + 1024) \<noteq> w"
proof
  assume "to_long (w + 1024) = w"
  then have eq: "(w + 2 ^ 63 + 1024) mod 2 ^ 64 = w + 2 ^ 63" by (simp add: to_long_def algebra_simps)
  then have "(w + 2 ^ 63 + 1024) mod 2 ^ 64 = (w + 2 ^ 63) mod 2 ^ 64" by (metis mod_mod_trivial)
  then have "(2 ^ 64 :: int) dvd 1024" by (simp only: mod_eq_dvd_iff) simp
  then show False by simp
qed

lemma active_upd:
  fixes s t :: "'a MyThreadPool"
  shows "p \<noteq> Producer_new \<Longrightarrow> pl_prods t = (pl_prods s)(i := p) \<Longrightarrow> active t = insert i (active s)"
  by (auto simp: active_def)

lemma sum_room_upd:
  assumes "finite A"
  shows "(\<Sum>k \<in> insert i A. room ((g(i := p)) k)) = (\<Sum>k \<in> A. room (g k)) - (if i \<in> A then room (g i) else 0) + room p"
proof -
  have "(\<Sum>k \<in> A - {i}. room ((g(i := p)) k)) = (\<Sum>k \<in> A - {i}. room (g k))" by (rule sum.cong) auto
  then show ?thesis using assms by (cases "i \<in> A") (simp_all add: sum.insert_remove sum_diff1)
qed

text \<open>Steps that touch no producer.\<close>

lemma lifetime_same:
  assumes "lifetime_inv s" and "pl_prods t = pl_prods s" and "wrote_ids (pl_trace t) = wrote_ids (pl_trace s)"
    and "pl_circleArray t = (pl_circleArray s)\<lparr>readable_queue := r\<rparr>"
  shows "lifetime_inv t"
proof -
  have "active t = active s" using assms(2) by (simp add: active_def)
  then show ?thesis
    using assms by (auto simp: lifetime_inv_def ledger_def cq_ok_def has_block_def)
qed

lemma lifetime_acquire:
  assumes "lifetime_inv s" and "p_writableId (pl_prods s i) \<le> p_curWriteId (pl_prods s i)"
    and acq: "Producer_acquire (pl_prods s i) (pl_circleArray s) = (ok, p, q)"
    and t: "pl_circleArray t = q" "pl_prods t = (pl_prods s)(i := p)" "pl_trace t = pl_trace s"
  shows "lifetime_inv t"
proof -
  let ?p = "pl_prods s i" and ?q = "pl_circleArray s" and ?A = "active s"
  have fin: "finite ?A" using assms(1) by (simp add: lifetime_inv_def)
  have size: "try_size ?q = 1024" and owned: "\<forall>k \<in> ?A. p_writeId (pl_prods s k) \<noteq> p_writableId (pl_prods s k)"
    using assms(1) by (simp_all add: lifetime_inv_def)
  have moved: "p = ?p \<or> p_writeId p \<noteq> p_writableId p" and "try_size q = 1024"
    using acq size to_long_moves [of "cq_writeId ?q"]
    by (auto simp: Producer_acquire_def tryWriteSpace_def Let_def split: if_splits)
  have "?A \<subseteq> active t"
    using moved t by (auto simp: active_def Producer_new_def)
  moreover have "active t \<subseteq> insert i ?A" using t by (auto simp: active_def)
  ultimately have fint: "finite (active t)" and card: "card ?A \<le> card (active t)"
    using fin by (auto intro: finite_subset card_mono)
  have "ledger t" if small: "card (active t) < 2 ^ 40"
  proof -
    have l: "ledger s" using assms(1) small card by (simp add: lifetime_inv_def)
    then have ok: "cq_ok ?q" and bound: "cq_writeId ?q \<le> life_bound (card ?A)"
      by (simp_all add: ledger_def)
    let ?r = "published (p_writeId ?p) (p_writableId ?p) ?q" and ?w = "cq_writeId ?q"
    show ?thesis
    proof (cases "?r = [] \<or> ?w + 1024 < 2 ^ 24")
      case False
      then have "p = ?p" "q = ?q\<lparr>readable_queue := ?r\<rparr>"
        using acq ok by (auto simp: Producer_acquire_def tryWriteSpace_ok Let_def)
      then have "lifetime_inv t" using lifetime_same [OF assms(1), of t ?r] t by simp
      then show ?thesis using small by (simp add: lifetime_inv_def)
    next
      case True
      then have p: "p = \<lparr>p_writeId = ?w, p_curWriteId = ?w, p_writableId = ?w + 1024\<rparr>"
        and q: "q = ?q\<lparr>readable_queue := ?r, cq_writeId := ?w + 1024\<rparr>"
        using acq Producer_acquire_grant [OF ok True] by simp_all
      have w: "0 \<le> ?w" using ok by (simp add: cq_ok_def)
      have A: "active t = insert i ?A"
        using w by (intro active_upd [OF _ t(2)]) (auto simp: p Producer_new_def)
      have "i \<in> ?A \<Longrightarrow> room ?p = 0"
        using l assms(2) by (force simp: ledger_def has_block_def room_def)
      moreover have "room p = 1024" by (simp add: p room_def)
      ultimately have "(\<Sum>k \<in> active t. room (pl_prods t k)) = (\<Sum>k \<in> ?A. room (pl_prods s k)) + 1024"
        using sum_room_upd [OF fin, of "pl_prods s" i p] \<open>room p = 1024\<close> \<open>i \<in> ?A \<Longrightarrow> room ?p = 0\<close>
        by (simp add: A t(2))
      moreover have "?w + 1024 \<le> life_bound (card (active t))"
      proof (cases "i \<in> ?A")
        case True
        then have "?r \<noteq> []" using l by (auto simp: ledger_def has_block_def published_def insort_insert_key_def)
        then have "?w + 1024 < 1024 * 16384" using \<open>?r = [] \<or> ?w + 1024 < 2 ^ 24\<close> by simp
        moreover obtain m where "?w = 1024 * m" using ok by (auto simp: cq_ok_def elim: dvdE)
        ultimately have "?w + 1024 \<le> 1024 * 16383" by simp
        moreover have "0 < card (active t)" using fint by (simp add: A card_gt_0_iff)
        ultimately show ?thesis by (simp add: life_bound_def)
      next
        case False
        then show ?thesis using bound fin by (auto simp: A life_bound_def split: if_splits)
      qed
      moreover have "life_bound (card (active t)) < 2 ^ 63 - 1024" using small by (simp add: life_bound_def)
      moreover have "\<forall>k \<in> active t. has_block q (pl_prods t k)"
        using l w by (force simp: A t(2) p q ledger_def has_block_def room_def)
      ultimately show ?thesis
        using l ok A by (simp add: ledger_def t(1,3) q cq_ok_def)
    qed
  qed
  moreover have "\<forall>k \<in> active t. p_writeId (pl_prods t k) \<noteq> p_writableId (pl_prods t k)"
    using moved owned t by (auto simp: active_def)
  ultimately show ?thesis using fint \<open>try_size q = 1024\<close> t by (simp add: lifetime_inv_def)
qed

lemma lifetime_store:
  assumes "lifetime_inv s" and room: "p_curWriteId (pl_prods s i) < p_writableId (pl_prods s i)"
    and "Producer_store x (pl_prods s i) (pl_circleArray s) = (p, q)"
    and t: "pl_circleArray t = q" "pl_prods t = (pl_prods s)(i := p)" "pl_trace t = Wrote i k x # pl_trace s"
  shows "lifetime_inv t"
proof -
  let ?p = "pl_prods s i" and ?q = "pl_circleArray s"
  have i: "i \<in> active s" using room by (auto simp: active_def Producer_new_def)
  have inv: "finite (active s)" "try_size ?q = 1024"
      "\<forall>k \<in> active s. p_writeId (pl_prods s k) \<noteq> p_writableId (pl_prods s k)"
    using assms(1) by (simp_all add: lifetime_inv_def)
  have q: "q = cq_write (p_curWriteId ?p) x ?q" and p: "p = ?p\<lparr>p_curWriteId := to_long (p_curWriteId ?p + 1)\<rparr>"
    using assms(3) by (simp_all add: Producer_store_def)
  have "p_writeId p \<noteq> p_writableId p" using inv(3) i by (simp add: p)
  then have "p \<noteq> Producer_new" by (auto simp: Producer_new_def)
  then have A: "active t = active s"
    using active_upd [OF _ t(2)] i by (simp add: insert_absorb)
  have "ledger t" if "card (active s) < 2 ^ 40"
  proof -
    have l: "ledger s" using assms(1) that by (simp add: lifetime_inv_def)
    then have b: "has_block ?q ?p" "cq_ok ?q" using i by (simp_all add: ledger_def)
    then have long: "to_long (p_curWriteId ?p + 1) = p_curWriteId ?p + 1"
      using room by (intro to_long_id) (simp_all add: has_block_def cq_ok_def)
    then have "room p = room ?p - 1" by (simp add: p room_def)
    have "(\<Sum>k \<in> active t. room (pl_prods t k)) = (\<Sum>k \<in> active s. room (pl_prods s k)) - 1"
      using sum_room_upd [OF inv(1), of "pl_prods s" i p] i \<open>room p = room ?p - 1\<close>
      by (simp add: A t(2) insert_absorb)
    moreover have "\<forall>k \<in> active t. has_block q (pl_prods t k)"
      using l room by (auto simp: A t(2) p q long ledger_def has_block_def room_def)
    ultimately show ?thesis
      using l by (simp add: ledger_def A t(1,3)) (simp add: q cq_ok_def)
  qed
  then show ?thesis using inv i by (auto simp: lifetime_inv_def A t p q)
qed

lemma lifetime_init: "lifetime_inv (MyThreadPool_new T)"
  by (simp add: lifetime_inv_def ledger_def active_def MyThreadPool_new_def CircleQueue_new_ok)
    (simp add: CircleQueue_new_def life_bound_def)

lemma lifetime_step:
  assumes "pool_step s t" and "lifetime_inv s"
  shows "lifetime_inv t"
  using assms
proof (cases rule: pool_step.cases)
  case ps_start
  then show ?thesis
    using lifetime_same [OF assms(2), of t "readable_queue (pl_circleArray s)"] by (simp add: MyThreadPool_start_def)
next
  case (ps_take j st en q)
  then show ?thesis
    using lifetime_same [OF assms(2), of t "readable_queue q"]
    by (auto simp: tryReadSpaceByCV_def Let_def split: list.splits if_splits)
next
  case (ps_run j x ok c q)
  then show ?thesis
    using lifetime_same [OF assms(2), of t "readable_queue (pl_circleArray s)"]
    by (auto simp: Consumer_fetch_def)
next
  case (ps_acquire i ok p q)
  then show ?thesis using lifetime_acquire [OF assms(2), of i ok p q t] by simp
next
  case (ps_store i x p q)
  then show ?thesis using lifetime_store [OF assms(2), of i x p q t] by simp
qed


interpretation lifetime: transition_system "pool_init T" pool_step lifetime_inv for T
  by unfold_locales (auto simp: pool_init_def lifetime_init intro: lifetime_step)

lemma room_nonneg: "ledger s \<Longrightarrow> 0 \<le> (\<Sum>i \<in> active s. room (pl_prods s i))"
  by (intro sum_nonneg) (simp add: ledger_def has_block_def)

section \<open>Property\<close>

text \<open>
  C13: The ring has a bounded life. In every run, with no bound on the run itself, \<open>N\<close> threads that
  write store at most \<open>1024 * (16382 + N)\<close> tasks between them: after the lap only a thread that has
  never had a block can get one.
\<close>

theorem ring_lifetime:
  assumes "reach (pool_init T) pool_step s" and "card {i. pl_prods s i \<noteq> Producer_new} < 2 ^ 40"
  shows "length (wrote_ids (pl_trace s)) \<le> 1024 * (16382 + card {i. pl_prods s i \<noteq> Producer_new})"
proof -
  have "ledger s" using lifetime.reach_inv [OF assms(1)] assms(2) by (simp add: lifetime_inv_def active_def)
  with room_nonneg [OF this] show ?thesis by (auto simp: ledger_def active_def life_bound_def split: if_splits)
qed

text \<open>The bound is reached: one IO thread fills the whole lap.\<close>

theorem ring_lifetime_witness:
  "\<exists>s. reach (pool_init (0 :: nat)) pool_step s \<and> {i. pl_prods s i \<noteq> Producer_new} = {3} \<and>
    length (wrote_ids (pl_trace s)) = 1024 * (16382 + 1)"
proof -
  obtain s where s: "reach (pool_init (0 :: nat)) pool_step s" "filling 16382 1024 0 s"
    using last_block [of "0 :: nat"] by blast
  have act: "{i. pl_prods s i \<noteq> Producer_new} = {3}" using s(2) by (auto simp: filling_def Producer_new_def)
  then have "ledger s" using lifetime.reach_inv [OF s(1)] by (simp add: lifetime_inv_def active_def)
  then have "1024 * 16383 \<le> length (wrote_ids (pl_trace s))"
    using s(2) act by (simp add: ledger_def active_def room_def filling_def)
  then show ?thesis using ring_lifetime [OF s(1)] s(1) act by (intro exI [of _ s]) simp
qed

end
