(* ===== verification/Tcp_Runs.thy ===== *)
theory Tcp_Runs
  imports Tcp_Server
begin

text \<open>
  The whole life of a \<open>TcpServer\<close>: from its start on, connections are accepted while the acceptor
  reads, stored connections are removed in any order, listening is switched, and the function
  that notifies another worker is set. The state has the names of all connections that were ever
  established, as history.
\<close>

section \<open>The steps\<close>

inductive server_step :: "('h, 'w) TcpServer \<times> string list \<Rightarrow> ('h, 'w) TcpServer \<times> string list \<Rightarrow> bool" where
  sv_accept: "ac_reading (ts_acceptor s) \<Longrightarrow> newConnection now s = Inr (acts, s') \<Longrightarrow>
     server_step (s, h) (s', conn_name s # h)"
| sv_remove: "(nm, l) \<in> set (ts_connections s) \<Longrightarrow> removeConnectionInLoop nm l s = Inr (acts, s') \<Longrightarrow>
     server_step (s, h) (s', h)"
| sv_schedule: "server_step (s, h) (acceptorSchedulingHandler now s, h)"
| sv_handler: "server_step (s, h) (setSchedulCallback cb s, h)"

inductive server_init :: "('h, 'w) TcpServer \<times> string list \<Rightarrow> bool" where
  "TcpServer_new junk loop address nm idle = Inr s0 \<Longrightarrow> TcpServer_setThreadNum n s0 = Inr s1 \<Longrightarrow>
     TcpServer_start addr junk_producer now s1 w = Inr (s, w') \<Longrightarrow>
     length address \<le> 40 \<Longrightarrow> NUL \<notin> set address \<Longrightarrow> server_init (s, [])"

inductive_cases server_stepE: "server_step x y"

section \<open>The invariant\<close>

definition loop_of_pool :: "EventLoopThreadPool \<Rightarrow> loop_ptr \<Rightarrow> bool" where
  "loop_of_pool p l \<longleftrightarrow> l \<in> set (if ep_loops p = [] then [ep_baseLoop p] else ep_loops p)"

definition server_inv :: "('h, 'w) TcpServer \<times> string list \<Rightarrow> bool" where
  "server_inv = (\<lambda>(s, h). tcp_inv s \<and> ep_started (ts_threadPool s) \<and>
     distinct h \<and> set h \<subseteq> name_at s ` {i. int i < ts_nextConnId s} \<and>
     fst ` set (ts_connections s) \<subseteq> set h \<and>
     (\<forall>(nm, l) \<in> set (ts_connections s). loop_of_pool (ts_threadPool s) l) \<and>
     (ac_reading (ts_acceptor s) \<longleftrightarrow> ac_listenning (ts_acceptor s)))"

lemma next_loop:
  assumes "getNextLoop p = Inr (l, p')"
  shows "loop_of_pool p l" and "loop_of_pool p' = loop_of_pool p"
  using assms by (auto simp: getNextLoop_def loop_of_pool_def fun_eq_iff split: if_splits)

lemma accept_reading:
  assumes "newConnection now s = Inr (acts, s')" and "ac_reading (ts_acceptor s) \<longleftrightarrow> ac_listenning (ts_acceptor s)"
  shows "ac_reading (ts_acceptor s') \<longleftrightarrow> ac_listenning (ts_acceptor s')"
  using assms
  by (auto simp: newConnection_def acceptorSchedulingHandler_def Acceptor_disableListen_def
      Acceptor_enableListen_def Let_def split: if_splits option.splits)

lemma name_unused: "tcp_inv s \<Longrightarrow> set h \<subseteq> name_at s ` {i. int i < ts_nextConnId s} \<Longrightarrow> conn_name s \<notin> set h"
  using name_not_given_out by blast

lemma accept_inv:
  assumes "server_inv (s, h)" and "newConnection now s = Inr (acts, s')"
  shows "server_inv (s', conn_name s # h)"
proof -
  have inv: "tcp_inv s" "ep_started (ts_threadPool s)" "distinct h" "set h \<subseteq> name_at s ` {i. int i < ts_nextConnId s}"
    "fst ` set (ts_connections s) \<subseteq> set h" "\<forall>(nm, l) \<in> set (ts_connections s). loop_of_pool (ts_threadPool s) l"
    "ac_reading (ts_acceptor s) \<longleftrightarrow> ac_listenning (ts_acceptor s)"
    using assms(1) by (simp_all add: server_inv_def)
  obtain l p where lp: "getNextLoop (ts_threadPool s) = Inr (l, p)"
    and c: "ts_connections s' = (conn_name s, l) # ts_connections s"
    and i: "ts_nextConnId s' = ts_nextConnId s + 1"
    and e: "ts_threadPool s' = p" "name_at s' = name_at s"
    using newConnection_core [OF inv(1) assms(2)] by metis
  have "0 < ts_nextConnId s" using inv(1) by (simp add: tcp_inv_def)
  then have "conn_name s \<in> name_at s ` {i. int i < ts_nextConnId s'}"
    using conn_name_at [of s] i by (intro image_eqI [of _ _ "nat (ts_nextConnId s)"]) simp_all
  moreover have "name_at s ` {i. int i < ts_nextConnId s} \<subseteq> name_at s ` {i. int i < ts_nextConnId s'}"
    using i by (intro image_mono) auto
  ultimately have "set (conn_name s # h) \<subseteq> name_at s' ` {i. int i < ts_nextConnId s'}"
    using inv(4) unfolding e(2) by (simp only: list.set insert_subset) blast
  moreover have "\<forall>(nm, l) \<in> set (ts_connections s'). loop_of_pool (ts_threadPool s') l"
    using inv(6) next_loop [OF lp] by (auto simp: c e(1))
  ultimately show ?thesis
    using newConnection_inv [OF inv(1) assms(2)] getNextLoop_cursor [OF lp] inv name_unused [OF inv(1,4)]
      accept_reading [OF assms(2) inv(7)]
    by (auto simp: server_inv_def c e(1))
qed

lemma server_step_inv: "server_step x y \<Longrightarrow> server_inv x \<Longrightarrow> server_inv y"
proof (induction rule: server_step.induct)
  case (sv_accept s now acts s' h)
  then show ?case using accept_inv by blast
next
  case (sv_remove nm l s acts s' h)
  then have "tcp_inv s'" using removeConnection_inv by (auto simp: server_inv_def)
  moreover have "s' = s\<lparr>ts_connections := filter (\<lambda>c. fst c \<noteq> nm) (ts_connections s)\<rparr>"
    using sv_remove(2) by (auto simp: removeConnectionInLoop_def Let_def split: if_splits)
  ultimately show ?case using sv_remove(3) by (auto simp: server_inv_def)
next
  case (sv_schedule s h now)
  then have "tcp_inv (acceptorSchedulingHandler now s)" by (simp add: server_inv_def tcp_inv_def)
  then show ?case
    using sv_schedule
    by (simp add: server_inv_def)
      (simp add: acceptorSchedulingHandler_def Acceptor_disableListen_def Acceptor_enableListen_def)
next
  case (sv_handler s h cb)
  have "name_at (setSchedulCallback cb s) = name_at s"
    by (simp add: setSchedulCallback_def name_at_def conn_name_def fun_eq_iff)
  then show ?case
    using sv_handler by (simp add: server_inv_def tcp_inv_def) (simp add: setSchedulCallback_def)
qed

lemma server_init_inv: "server_init x \<Longrightarrow> server_inv x"
proof (induction rule: server_init.induct)
  case (1 junk loop address nm idle s0 n s1 addr junk_producer now w s w')
  have pool: "ts_threadPool s1 = fresh_pool loop nm (nat n)" "ts_nextConnId s1 = 1" "ts_connections s1 = []"
      "ts_ipPort s1 = address" "\<not> ac_listenning (ts_acceptor s1)" "\<not> ts_started s1"
    using 1(1,2)
    by (auto simp: TcpServer_new_def TcpServer_setThreadNum_def Acceptor_new_def setNewConnectionCallback_def
        fresh_pool_def split: if_splits)
  obtain p where p: "pool_start (ts_threadInitWithProducerCallback s1) addr junk_producer (ts_threadPool s1) w = Inr (p, w')"
      "s = s1\<lparr>ts_started := True, ts_threadPool := p, ts_acceptor := Acceptor_listen now (ts_acceptor s1)\<rparr>"
    using 1(3) pool(5,6) by (auto simp: TcpServer_start_def)
  then have "ep_started p" "ep_next p = 0"
    using pool_start_fresh [of "ts_threadInitWithProducerCallback s1" addr junk_producer loop nm "nat n" w] pool(1)
    by auto
  then show ?case
    using p(2) pool 1(4,5)
    by (simp add: server_inv_def tcp_inv_def Acceptor_listen_def Let_def)
qed

interpretation server_runs: transition_system server_init server_step server_inv
  by unfold_locales (auto intro: server_init_inv server_step_inv)

section \<open>Property\<close>

lemma removal_passes:
  assumes "server_inv (s, h)" and "(nm, l) \<in> set (ts_connections s)"
  shows "\<exists>s'. removeConnectionInLoop nm l s = Inr ([Destroyed nm l], s')"
proof -
  have d: "distinct (map fst (ts_connections s))" using assms(1) by (simp add: server_inv_def tcp_inv_def)
  obtain xs ys where x: "ts_connections s = xs @ (nm, l) # ys" using assms(2) by (auto simp: in_set_conv_decomp)
  then have "filter (\<lambda>c. fst c \<noteq> nm) (ts_connections s) = xs @ ys"
    using d by (auto simp: filter_fresh)
  then show ?thesis by (simp add: removeConnectionInLoop_def x)
qed

lemma accept_faults:
  assumes "server_inv (s, h)" and "newConnection now s = Inl f"
  shows "f = Int_Overflow \<and> ts_nextConnId s = 2 ^ 31 - 1 \<or> f = Empty_Call \<and> ts_notifyOther s = None"
proof -
  have "tcp_inv s" "ep_started (ts_threadPool s)" using assms(1) by (simp_all add: server_inv_def)
  then obtain l p where "getNextLoop (ts_threadPool s) = Inr (l, p)" using newConnection_runs by blast
  then show ?thesis
    using assms(2) by (auto simp: newConnection_def Let_def split: if_splits option.splits)
qed

text \<open>
  C21: The life of a TCP server. After any sequence of accepted connections, removals, switches of
  listening and settings of the handler, from the start of a server on: no two connections that
  were ever established had the same name, every stored connection has one of these names and a
  loop of the pool, its removal passes the assertion that exactly one entry was erased, the
  acceptor's channel reads just when the server listens, and accepting fails only when the
  counter of connections has reached its last value or no handler was set.
\<close>

theorem server_life:
  assumes "reach server_init server_step (s, h)"
  shows "distinct h \<and> fst ` set (ts_connections s) \<subseteq> set h \<and> conn_name s \<notin> set h \<and>
    (\<forall>(nm, l) \<in> set (ts_connections s). loop_of_pool (ts_threadPool s) l \<and>
      (\<exists>s'. removeConnectionInLoop nm l s = Inr ([Destroyed nm l], s'))) \<and>
    (ac_reading (ts_acceptor s) \<longleftrightarrow> ac_listenning (ts_acceptor s)) \<and>
    (\<forall>now f. newConnection now s = Inl f \<longrightarrow>
      f = Int_Overflow \<and> ts_nextConnId s = 2 ^ 31 - 1 \<or> f = Empty_Call \<and> ts_notifyOther s = None)"
proof -
  have inv: "server_inv (s, h)" using server_runs.reach_inv [OF assms] .
  then have "tcp_inv s" "set h \<subseteq> name_at s ` {i. int i < ts_nextConnId s}" by (simp_all add: server_inv_def)
  from name_unused [OF this] show ?thesis
    using inv removal_passes [OF inv] accept_faults [OF inv] by (auto simp: server_inv_def)
qed

text \<open>Two connections are accepted, and the first one goes.\<close>

definition started_server :: "(nat, nat) TcpServer result" where
  "started_server =
     rbind (TcpServer_new 0 1 ''127.0.0.1:6666'' ''proxy'' 9) (\<lambda>s0. rbind (TcpServer_setThreadNum 2 s0) (\<lambda>s1.
       rbind (TcpServer_start (\<lambda>i. 4 + i) (\<lambda>i. 0) 5 s1 0) (\<lambda>(s, w). Inr s)))"

definition accept_twice :: "(nat, nat) TcpServer \<Rightarrow> ((nat, nat) TcpServer \<times> (nat, nat) TcpServer) result" where
  "accept_twice s = rbind (newConnection 6 s) (\<lambda>(as, s1). rbind (newConnection 7 s1) (\<lambda>(as, s2). Inr (s1, s2)))"

lemma two_accepted:
  "case started_server of Inl f \<Rightarrow> False | Inr s \<Rightarrow> ac_reading (ts_acceptor s) \<and>
    conn_name s = ''proxy-127.0.0.1:6666#1'' \<and>
    (case accept_twice s of Inl f \<Rightarrow> False | Inr (s1, s2) \<Rightarrow> ac_reading (ts_acceptor s1) \<and>
      conn_name s1 = ''proxy-127.0.0.1:6666#2'' \<and>
      ts_connections s2 = [(''proxy-127.0.0.1:6666#2'', 5), (''proxy-127.0.0.1:6666#1'', 4)])"
  by code_simp

lemma two_accepted_reach:
  "\<exists>s. reach server_init server_step (s :: (nat, nat) TcpServer, [''proxy-127.0.0.1:6666#2'', ''proxy-127.0.0.1:6666#1'']) \<and>
    ts_connections s = [(''proxy-127.0.0.1:6666#2'', 5), (''proxy-127.0.0.1:6666#1'', 4)]"
proof -
  obtain s where s: "started_server = Inr s" "ac_reading (ts_acceptor s)" "conn_name s = ''proxy-127.0.0.1:6666#1''"
    using two_accepted by (auto split: sum.splits)
  have "case accept_twice s of Inl f \<Rightarrow> False | Inr (s1, s2) \<Rightarrow> ac_reading (ts_acceptor s1) \<and>
      conn_name s1 = ''proxy-127.0.0.1:6666#2'' \<and>
      ts_connections s2 = [(''proxy-127.0.0.1:6666#2'', 5), (''proxy-127.0.0.1:6666#1'', 4)]"
    using two_accepted unfolding s(1) by simp
  then obtain s1 s2 as1 as2 where n: "newConnection 6 s = Inr (as1, s1)" "newConnection 7 s1 = Inr (as2, s2)"
      "ac_reading (ts_acceptor s1)" "conn_name s1 = ''proxy-127.0.0.1:6666#2''"
      "ts_connections s2 = [(''proxy-127.0.0.1:6666#2'', 5), (''proxy-127.0.0.1:6666#1'', 4)]"
    by (auto simp: accept_twice_def split: sum.splits)
  have "server_init (s, [])"
    using s(1) by (auto simp: started_server_def intro!: server_init.intros [where address = "''127.0.0.1:6666''"] simp: NUL_def)
  then have "reach server_init server_step (s, [])" by (rule reach_init)
  then have "reach server_init server_step (s1, [''proxy-127.0.0.1:6666#1''])"
    using sv_accept [OF s(2) n(1), of "[]"] s(3) by (auto intro: reach_step)
  then have "reach server_init server_step (s2, [''proxy-127.0.0.1:6666#2'', ''proxy-127.0.0.1:6666#1''])"
    using sv_accept [OF n(3,2), of "[''proxy-127.0.0.1:6666#1'']"] n(4) by (auto intro: reach_step)
  then show ?thesis using n(5) by blast
qed

theorem server_life_witness:
  "\<exists>(s :: (nat, nat) TcpServer) s'. reach server_init server_step (s, [''proxy-127.0.0.1:6666#2'', ''proxy-127.0.0.1:6666#1'']) \<and>
    removeConnectionInLoop ''proxy-127.0.0.1:6666#1'' 4 s = Inr ([Destroyed ''proxy-127.0.0.1:6666#1'' 4], s')"
proof -
  obtain s :: "(nat, nat) TcpServer" where s: "reach server_init server_step (s, [''proxy-127.0.0.1:6666#2'', ''proxy-127.0.0.1:6666#1''])"
      "ts_connections s = [(''proxy-127.0.0.1:6666#2'', 5), (''proxy-127.0.0.1:6666#1'', 4)]"
    using two_accepted_reach by blast
  from server_life [OF s(1)] s show ?thesis by auto
qed

end
