(* ===== verification/Lru_Runs.thy ===== *)
theory Lru_Runs
  imports Lru
begin

text \<open>
  Whole runs of the LRU cache. A run is a sequence of calls with the times at which they are
  made. The specification keeps one list of (url, content, time of storing), least recently
  used first; \<open>Lru_run_equiv\<close> shows that the cache gives the same answers, ends with the same
  list, and leaves defined behaviour exactly when a new url is stored in a full cache.
\<close>

section \<open>Runs of the cache\<close>

datatype lru_op = LPut string string | LGet string | LErase string

fun lru_do :: "64 word \<times> lru_op \<Rightarrow> Lru \<Rightarrow> (string option \<times> Lru) result" where
  "lru_do (now, LPut u c) s = rbind (Lru_put now u c s) (\<lambda>s'. Inr (None, s'))"
| "lru_do (now, LGet u) s = rbind (Lru_get now u s) (\<lambda>(v, s'). Inr (Some v, s'))"
| "lru_do (now, LErase u) s = rbind (Lru_erase u s) (\<lambda>s'. Inr (None, s'))"

section \<open>The specification\<close>

type_synonym timed = "(string \<times> string \<times> 64 word) list"

text \<open>
  \<open>put\<close> moves the url to the end with a new content and time; \<open>get\<close> moves it with the content
  and the time it has, or removes it when it is older than \<open>E\<close>.
\<close>

fun spec_do :: "nat \<Rightarrow> 64 word \<Rightarrow> 64 word \<times> lru_op \<Rightarrow> timed \<Rightarrow> (string option \<times> timed) result" where
  "spec_do cap E (now, LPut u c) l =
     (if u \<in> fst ` set l \<or> length l < cap
      then Inr (None, filter (\<lambda>e. fst e \<noteq> u) l @ [(u, c, now)]) else Inl Deref_End)"
| "spec_do cap E (now, LGet u) l =
     (case map_of l u of
        None \<Rightarrow> Inr (Some [], l)
      | Some (c, t) \<Rightarrow>
          if now - t \<le> E then Inr (Some c, filter (\<lambda>e. fst e \<noteq> u) l @ [(u, c, t)])
          else Inr (Some [], filter (\<lambda>e. fst e \<noteq> u) l))"
| "spec_do cap E (now, LErase u) l = Inr (None, filter (\<lambda>e. fst e \<noteq> u) l)"

section \<open>The abstraction\<close>

definition time_of :: "Lru \<Rightarrow> string \<Rightarrow> 64 word" where
  "time_of s u = (case lru_map s u of None \<Rightarrow> 0 | Some n \<Rightarrow> time n)"

definition lru_timed :: "Lru \<Rightarrow> timed" where
  "lru_timed s = map (\<lambda>(u, c). (u, c, time_of s u)) (lru_entries s)"

lemma lru_timed_keys [simp]: "fst ` set (lru_timed s) = fst ` set (lru_entries s)"
  by (force simp: lru_timed_def)

lemma lru_timed_length [simp]: "length (lru_timed s) = length (lru_entries s)"
  by (simp add: lru_timed_def)

lemma lru_timed_entries: "map (\<lambda>(u, c, t). (u, c)) (lru_timed s) = lru_entries s"
  by (simp add: lru_timed_def split_def o_def)

lemma lru_timed_lookup:
  "map_of (lru_timed s) u = map_option (\<lambda>c. (c, time_of s u)) (map_of (lru_entries s) u)"
proof -
  have "map_of (map (\<lambda>(u, c). (u, c, f u)) l) u = map_option (\<lambda>c. (c, f u)) (map_of l u)"
    for f :: "string \<Rightarrow> 64 word" and l :: "(string \<times> string) list"
    by (induction l) auto
  then show ?thesis by (simp add: lru_timed_def)
qed

text \<open>Every operation removes one url and may put it back at the end; the other times stay.\<close>

lemma lru_timed_step:
  assumes "lru_entries s' = drop_key u (lru_entries s) @ xs"
    and "\<And>w. w \<noteq> u \<Longrightarrow> lru_map s' w = lru_map s w"
  shows "lru_timed s' =
    filter (\<lambda>e. fst e \<noteq> u) (lru_timed s) @ map (\<lambda>(w, c). (w, c, time_of s' w)) xs"
proof -
  have t: "time_of s' w = time_of s w" if "w \<noteq> u" for w
    using assms(2) [OF that] by (simp add: time_of_def)
  have "map (\<lambda>(w, c). (w, c, time_of s' w)) (drop_key u l) =
      filter (\<lambda>e. fst e \<noteq> u) (map (\<lambda>(w, c). (w, c, time_of s w)) l)" for l :: "(string \<times> string) list"
    by (induction l) (auto simp: t)
  then show ?thesis by (simp add: lru_timed_def assms(1))
qed

lemma drop_key_id: "u \<notin> fst ` set l \<Longrightarrow> filter (\<lambda>e. fst e \<noteq> u) l = l"
  by (auto simp: filter_id_conv)

section \<open>One call\<close>

text \<open>The states of a run: well-formed, and not above the capacity.\<close>

definition lru_good :: "nat \<Rightarrow> 64 word \<Rightarrow> Lru \<Rightarrow> bool" where
  "lru_good n E s \<longleftrightarrow> lru_inv s \<and> unat (lru_maxSize s) = n \<and> lru_expiredTime s = E \<and>
     length (lru_entries s) \<le> n"

text \<open>A call that commutes with the abstraction and keeps the run good.\<close>

definition call_ok :: "nat \<Rightarrow> 64 word \<Rightarrow> 64 word \<times> lru_op \<Rightarrow> Lru \<Rightarrow> bool" where
  "call_ok n E op s \<longleftrightarrow>
     (case lru_do op s of
        Inl e \<Rightarrow> spec_do n E op (lru_timed s) = Inl e
      | Inr (a, s') \<Rightarrow> spec_do n E op (lru_timed s) = Inr (a, lru_timed s') \<and> lru_good n E s')"

lemma put_call_ok:
  assumes "lru_good n E s" and "n < 2 ^ 31 - 1"
  shows "call_ok n E (now, LPut u c) s"
proof -
  have inv: "lru_inv s" and cap: "unat (lru_maxSize s) = n" and E: "lru_expiredTime s = E"
    and len: "length (lru_entries s) \<le> n" "length (lru_entries s) < 2 ^ 31 - 1"
    using assms by (auto simp: lru_good_def)
  show ?thesis
  proof (cases "lru_map s u")
    case None
    then have new: "u \<notin> fst ` set (lru_entries s)"
      using lru_key_stored [OF inv] by simp
    note push = push_inv [OF inv None refl, where content = c and now = now]
    have dk: "drop_key u (lru_entries s) = lru_entries s" using new by (rule drop_key_id)
    show ?thesis
    proof (cases "length (lru_entries s) < n")
      case True
      then show ?thesis
        using Lru_put_new [OF inv None len(2), of now c] cap E new push
          lru_timed_step [of _ u s "[(u, c)]"]
        by (simp add: call_ok_def lru_good_def Let_def dk time_of_def)
    next
      case False
      then show ?thesis
        using Lru_put_new [OF inv None len(2), of now c] cap new
        by (simp add: call_ok_def Let_def)
    qed
  next
    case (Some m)
    then have old: "u \<in> fst ` set (lru_entries s)"
      using lru_key_stored [OF inv] by simp
    obtain s' where s': "Lru_put now u c s = Inr s'" "lru_inv s'"
      and e: "lru_entries s' = drop_key u (lru_entries s) @ [(u, c)]"
      and m: "lru_map s' = (lru_map s)(u \<mapsto> m\<lparr>time := now\<rparr>)"
      and k: "lru_maxSize s' = lru_maxSize s" "lru_expiredTime s' = lru_expiredTime s"
      using Lru_put_existing [OF inv Some, of now c] by blast
    have "length (drop_key u (lru_entries s)) < length (lru_entries s)"
      using old by (auto intro!: length_filter_less)
    then have "lru_good n E s'" using s'(2) cap E k len(1) by (simp add: lru_good_def e)
    moreover have "lru_timed s' = filter (\<lambda>e. fst e \<noteq> u) (lru_timed s) @ [(u, c, now)]"
      using lru_timed_step [OF e] by (simp add: m time_of_def)
    ultimately show ?thesis using s'(1) old by (simp add: call_ok_def)
  qed
qed

lemma get_call_ok:
  assumes "lru_good n E s"
  shows "call_ok n E (now, LGet u) s"
proof -
  have inv: "lru_inv s" and E: "lru_expiredTime s = E" using assms by (auto simp: lru_good_def)
  note good = assms [unfolded lru_good_def]
  show ?thesis
  proof (cases "lru_map s u")
    case None
    then have "map_of (lru_entries s) u = None" using lru_map_None [OF inv] by simp
    with None assms show ?thesis by (simp add: call_ok_def lru_timed_lookup Lru_get_miss)
  next
    case (Some m)
    then have old: "u \<in> fst ` set (lru_entries s)" using lru_key_stored [OF inv] by simp
    have less: "length (drop_key u (lru_entries s)) < length (lru_entries s)"
      using old by (auto intro!: length_filter_less)
    obtain v where v: "map_of (lru_entries s) u = Some v"
      using inv Some by (rule lru_map_Some)
    then have t: "map_of (lru_timed s) u = Some (v, time m)"
      using Some by (simp add: lru_timed_lookup time_of_def)
    show ?thesis
    proof (cases "Lru_expired now s m")
      case True
      obtain s' where s': "Lru_get now u s = Inr ([], s')" "lru_inv s'" "lru_map s' = (lru_map s)(u := None)"
        "lru_entries s' = drop_key u (lru_entries s) @ []"
        "lru_maxSize s' = lru_maxSize s" "lru_expiredTime s' = lru_expiredTime s"
        using Lru_get_expired [OF inv Some True] by auto
      then show ?thesis
        using True good less t lru_timed_step [OF s'(4)]
        by (simp add: call_ok_def lru_good_def Lru_expired_def not_le)
    next
      case False
      obtain s' where s': "Lru_get now u s = Inr (v, s')" "lru_inv s'" "lru_map s' = lru_map s"
        "lru_entries s' = drop_key u (lru_entries s) @ [(u, v)]"
        "lru_maxSize s' = lru_maxSize s" "lru_expiredTime s' = lru_expiredTime s"
        using Lru_get_hit [OF inv Some False] v by auto
      then show ?thesis
        using False good less t Some lru_timed_step [OF s'(4)]
        by (simp add: call_ok_def lru_good_def Lru_expired_def not_less time_of_def)
    qed
  qed
qed

lemma erase_call_ok:
  assumes "lru_good n E s"
  shows "call_ok n E (now, LErase u) s"
proof -
  have inv: "lru_inv s" using assms by (simp add: lru_good_def)
  obtain s' where s': "Lru_erase u s = Inr s'" "lru_inv s'" "lru_map s' = (lru_map s)(u := None)"
    "lru_entries s' = drop_key u (lru_entries s) @ []"
    "lru_maxSize s' = lru_maxSize s" "lru_expiredTime s' = lru_expiredTime s"
    using Lru_erase_entries [OF inv, of u] by auto
  have "length (drop_key u (lru_entries s)) \<le> length (lru_entries s)" by simp
  also have "\<dots> \<le> n" using assms by (simp add: lru_good_def)
  finally show ?thesis
    using s' assms lru_timed_step [OF s'(4)] by (simp add: call_ok_def lru_good_def)
qed

lemma lru_call_ok: "lru_good n E s \<Longrightarrow> n < 2 ^ 31 - 1 \<Longrightarrow> call_ok n E op s"
  using put_call_ok get_call_ok erase_call_ok by (cases op; cases "snd op") auto

interpretation lru_spec: functional_refinement "\<lambda>s. lru_good n E s \<and> n < 2 ^ 31 - 1" lru_timed lru_do
  "spec_do n E" for n E
proof
  fix s op a s'
  assume good: "lru_good n E s \<and> n < 2 ^ 31 - 1"
  then have ok: "call_ok n E op s" using lru_call_ok by blast
  then show "spec_do n E op (lru_timed s) = map_sum id (map_prod id lru_timed) (lru_do op s)"
    by (auto simp: call_ok_def split: sum.splits)
  show "lru_do op s = Inr (a, s') \<Longrightarrow> lru_good n E s' \<and> n < 2 ^ 31 - 1"
    using ok good by (simp add: call_ok_def)
qed

lemma Lru_new_good: "lru_good (unat n) INT_MAX (Lru_new junk n)"
  by (simp add: lru_good_def Lru_new_inv) (simp add: Lru_new_def)

lemma Lru_new_timed: "lru_timed (Lru_new junk n) = []"
  by (simp add: lru_timed_def)

section \<open>Runs that fit the capacity\<close>

text \<open>The urls that a run stores; when they are at most \<open>n\<close>, nothing can go wrong.\<close>

fun put_url :: "lru_op \<Rightarrow> string set" where
  "put_url (LPut u c) = {u}"
| "put_url _ = {}"

definition put_urls :: "(64 word \<times> lru_op) list \<Rightarrow> string set" where
  "put_urls ops = (\<Union>p \<in> set ops. put_url (snd p))"

definition timed_within :: "string set \<Rightarrow> timed \<Rightarrow> bool" where
  "timed_within U l \<longleftrightarrow> distinct (map fst l) \<and> fst ` set l \<subseteq> U"

lemma finite_put_urls: "finite (put_urls ops)"
proof -
  have "finite (put_url op)" for op by (cases op) auto
  then show ?thesis by (simp add: put_urls_def)
qed

lemma timed_within_length: "timed_within U l \<Longrightarrow> finite U \<Longrightarrow> length l \<le> card U"
  using card_mono [of U "fst ` set l"] distinct_card [of "map fst l"] by (simp add: timed_within_def)

lemma timed_within_room:
  assumes "timed_within U l" and "finite U" and "u \<in> U" and "u \<notin> fst ` set l"
  shows "length l < card U"
proof -
  have "timed_within U ((u, x) # l)" for x
    using assms by (simp add: timed_within_def)
  then show ?thesis using timed_within_length [of U "(u, _) # l"] assms(2) by fastforce
qed

lemma timed_within_move:
  "timed_within U l \<Longrightarrow> timed_within U (filter (\<lambda>e. fst e \<noteq> u) l)"
  "timed_within U l \<Longrightarrow> u \<in> U \<Longrightarrow> timed_within U (filter (\<lambda>e. fst e \<noteq> u) l @ [(u, x)])"
  by (auto simp: timed_within_def distinct_map inj_on_filter_key_eq intro: inj_on_subset)

lemma spec_do_within:
  assumes "timed_within U l" and "finite U" and "card U \<le> n" and "put_url (snd op) \<subseteq> U"
  shows "\<exists>a l'. spec_do n E op l = Inr (a, l') \<and> timed_within U l'"
proof (cases "(n, E, op, l)" rule: spec_do.cases)
  case (1 n' E' now u c l')
  then have "u \<in> fst ` set l \<or> length l < n"
    using timed_within_room [OF assms(1,2), of u] assms(3,4) by fastforce
  then show ?thesis using 1 assms by (auto intro: timed_within_move)
next
  case (2 n' E' now u l')
  have "u \<in> U" if "map_of l' u = Some x" for x
    using that 2 assms(1) map_of_SomeD [OF that] by (force simp: timed_within_def)
  then show ?thesis
    using 2 assms by (auto intro: timed_within_move split: option.splits)
next
  case (3 n' E' now u l')
  then show ?thesis using assms by (simp add: timed_within_move)
qed

lemma spec_run_within:
  "timed_within U l \<Longrightarrow> finite U \<Longrightarrow> card U \<le> n \<Longrightarrow> put_urls ops \<subseteq> U \<Longrightarrow>
   \<exists>as l'. run_ops (spec_do n E) ops l = Inr (as, l') \<and> timed_within U l'"
proof (induction ops arbitrary: l)
  case (Cons op ops)
  have sub: "put_url (snd op) \<subseteq> U" "put_urls ops \<subseteq> U"
    using Cons.prems(4) by (auto simp: put_urls_def)
  obtain a l' where l': "spec_do n E op l = Inr (a, l')" "timed_within U l'"
    using spec_do_within [OF Cons.prems(1-3) sub(1)] by blast
  then show ?case using Cons.IH [OF l'(2) Cons.prems(2,3) sub(2)] by auto
qed auto

text \<open>
  Starting from an empty cache of capacity \<open>n\<close>, any sequence of calls that stores at most \<open>n\<close>
  different urls runs without a fault and ends in a well-formed cache of at most \<open>n\<close> entries,
  all of them urls that were stored.
\<close>

lemma Lru_run_bounded:
  assumes "card (put_urls ops) \<le> unat n" and "unat n < 2 ^ 31 - 1"
  shows "\<exists>as s. run_ops lru_do ops (Lru_new junk n) = Inr (as, s) \<and> lru_inv s \<and>
    length (lru_entries s) \<le> unat n \<and> fst ` set (lru_entries s) \<subseteq> put_urls ops"
proof -
  have good: "lru_good (unat n) INT_MAX (Lru_new junk n) \<and> unat n < 2 ^ 31 - 1"
    using assms(2) by (simp add: Lru_new_good)
  obtain as l where l: "run_ops (spec_do (unat n) INT_MAX) ops [] = Inr (as, l)"
    "timed_within (put_urls ops) l"
    using spec_run_within [of "put_urls ops" "[]" "unat n" ops INT_MAX] finite_put_urls assms(1)
    by (auto simp: timed_within_def)
  then obtain s where s: "run_ops lru_do ops (Lru_new junk n) = Inr (as, s)" "l = lru_timed s"
    using lru_spec.run_commutes [OF good, of ops] Lru_new_timed
    by (cases "run_ops lru_do ops (Lru_new junk n)") auto
  moreover have "lru_good (unat n) INT_MAX s"
    using lru_spec.run_keeps [OF good s(1)] by simp
  ultimately show ?thesis using l(2) by (auto simp: lru_good_def timed_within_def)
qed

section \<open>Properties\<close>

text \<open>
  C3: A cache of capacity \<open>n\<close> (below \<open>2^31 - 1\<close>) is indistinguishable from the specification:
  every sequence of \<open>put\<close>, \<open>get\<close> and \<open>erase\<close> calls, at any times, gives the same answers and
  the same final sequence of (url, content, time of storing), or the same fault, which is the one
  of a new url stored when \<open>n\<close> others are present. In particular a \<open>get\<close> never prolongs the
  life of an entry, and an entry that is too old is removed by the \<open>get\<close> that meets it.
\<close>

theorem Lru_run_equiv:
  assumes "unat n < 2 ^ 31 - 1"
  shows "map_sum id (map_prod id lru_timed) (run_ops lru_do ops (Lru_new junk n)) =
    run_ops (spec_do (unat n) INT_MAX) ops []"
  using lru_spec.run_commutes [of "unat n" INT_MAX "Lru_new junk n" ops] assms
  by (simp add: Lru_new_good Lru_new_timed)

theorem Lru_run_equiv_witness:
  "map_sum id (map_prod id lru_timed) (run_ops lru_do
     [(1, LPut ''/a'' ''x''), (5, LGet ''/a''), (2147483649, LGet ''/a''), (7, LPut ''/b'' ''y''), (8, LPut ''/c'' ''z'')]
     (Lru_new 0 1)) = Inl Deref_End"
  by (subst Lru_run_equiv) (simp_all add: INT_MAX_def)

end
