(* ===== verification/Cache_Contents.thy ===== *)
theory Cache_Contents
  imports Memory_Cache
begin

text \<open>
  What the readers of the memory cache can be given. \<open>P u c\<close> is any property of a url and a
  response that the writers respect, for instance that the host of \<open>u\<close> answered \<open>c\<close>. It is
  then a property of everything that is stored, in every object that is alive, and of every
  non-empty response that a reader gets, in every interleaving of any number of threads.
\<close>

section \<open>Pairs that are stored, and pairs about to be\<close>

definition holds_only :: "(string \<Rightarrow> string \<Rightarrow> bool) \<Rightarrow> Lru \<Rightarrow> bool" where
  "holds_only P l \<longleftrightarrow> (\<forall>(u, c) \<in> set (lru_entries l). P u c)"

fun asks_for :: "(string \<Rightarrow> string \<Rightarrow> bool) \<Rightarrow> mc_pc \<Rightarrow> bool" where
  "asks_for P (MC_Locked u c) = P u c"
| "asks_for P (MC_Ready u c) = P u c"
| "asks_for P _ = True"

definition writers_respect :: "(string \<Rightarrow> string \<Rightarrow> bool) \<Rightarrow> MemoryCache \<Rightarrow> bool" where
  "writers_respect P s \<longleftrightarrow> (\<forall>t. asks_for P (mc_pcs s t))"

text \<open>A step after which every call of \<open>writeCache\<close> that is under way has a good argument.\<close>

definition mc_respects :: "(string \<Rightarrow> string \<Rightarrow> bool) \<Rightarrow> MemoryCache \<Rightarrow> MemoryCache \<Rightarrow> bool" where
  "mc_respects P s t \<longleftrightarrow> mc_step s t \<and> writers_respect P t"

definition contents_inv :: "(string \<Rightarrow> string \<Rightarrow> bool) \<Rightarrow> MemoryCache \<Rightarrow> bool" where
  "contents_inv P s \<longleftrightarrow> mc_inv s \<and> writers_respect P s \<and>
     (\<forall>a l. mc_heap s a = Some l \<longrightarrow> holds_only P l)"

section \<open>The operations of one object\<close>

lemma holds_only_get:
  assumes "lru_inv l" and "holds_only P l" and "Lru_get now u l = Inr (v, l')"
  shows "holds_only P l'" and "v = [] \<or> P u v"
proof -
  have "holds_only P l' \<and> (v = [] \<or> P u v)"
  proof (cases "lru_live now u l")
    case True
    have "(u, v) \<in> set (lru_entries l)" and "lru_entries l' = drop_key u (lru_entries l) @ [(u, v)]"
      using lru.get_live [OF assms(1) True] assms(3) map_of_SomeD by fastforce+
    then show ?thesis using assms(2) by (auto simp: holds_only_def)
  next
    case False
    then show ?thesis
      using lru.get_dead [OF assms(1) False] assms(2,3) by (auto simp: holds_only_def)
  qed
  then show "holds_only P l'" and "v = [] \<or> P u v" by simp_all
qed

lemma holds_only_put:
  "lru_inv l \<Longrightarrow> holds_only P l \<Longrightarrow> P u c \<Longrightarrow> Lru_put now u c l = Inr l' \<Longrightarrow> holds_only P l'"
  using Lru_put_inv(2) [of l now u c l'] by (auto simp: holds_only_def)

lemma holds_only_copy: "lru_inv l \<Longrightarrow> holds_only P l \<Longrightarrow> holds_only P (Lru_copy now l)"
  by (simp add: holds_only_def Lru_copy_entries(2))

section \<open>The sections of the two methods\<close>

definition all_hold :: "(string \<Rightarrow> string \<Rightarrow> bool) \<Rightarrow> MemoryCache \<Rightarrow> bool" where
  "all_hold P s \<longleftrightarrow> (\<forall>a l. mc_heap s a = Some l \<longrightarrow> lru_inv l \<and> holds_only P l)"

lemma all_hold_simps [simp]:
  "all_hold P (s\<lparr>mc_pcs := p\<rparr>) = all_hold P s" "all_hold P (s\<lparr>mc_mx := m\<rparr>) = all_hold P s"
  "all_hold P (s\<lparr>mc_temps := ts\<rparr>) = all_hold P s"
  by (simp_all add: all_hold_def)

lemma all_hold_drop: "all_hold P s \<Longrightarrow> all_hold P (drop_ref a s)"
  by (auto simp: all_hold_def drop_ref_heap split: if_splits)

lemma all_hold_get:
  assumes "all_hold P s" and "readCache_get t now u s = Inr (v, s')"
  shows "all_hold P s'" and "v = [] \<or> P u v"
proof -
  obtain a l l' where l: "mc_heap s a = Some l" and g: "Lru_get now u l = Inr (v, l')"
    and s': "s' = drop_ref a (s\<lparr>mc_heap := (mc_heap s)(a \<mapsto> l'),
      mc_temps := filter (\<lambda>p. fst p \<noteq> t) (mc_temps s)\<rparr>)"
    using assms(2) by (auto simp: readCache_get_def split: option.splits)
  have ok: "lru_inv l" "holds_only P l" using assms(1) l by (auto simp: all_hold_def)
  then show "v = [] \<or> P u v" using holds_only_get(2) g by blast
  have "lru_inv l'" using lru.get_total [OF ok(1), of now u] g by auto
  then have "all_hold P (s\<lparr>mc_heap := (mc_heap s)(a \<mapsto> l')\<rparr>)"
    using assms(1) holds_only_get(1) [OF ok g] by (auto simp: all_hold_def)
  then show "all_hold P s'" unfolding s' by (intro all_hold_drop) (simp add: all_hold_def)
qed

lemma all_hold_cow:
  assumes "all_hold P s" and "writeCache_cow now s = Inr s'"
  shows "all_hold P s'"
proof (cases "unique s")
  case True
  then show ?thesis using assms by (simp add: writeCache_cow_def)
next
  case False
  then obtain l where l: "mc_heap s (mc_lru_cache s) = Some l"
    and s': "s' = drop_ref (mc_lru_cache s) (s\<lparr>mc_heap := (mc_heap s)(mc_next s \<mapsto> Lru_copy now l),
        mc_next := Suc (mc_next s), mc_lru_cache := mc_next s\<rparr>)"
    using cow_unique_case [OF assms(2)] by blast
  have "lru_inv (Lru_copy now l)" and "holds_only P (Lru_copy now l)"
    using assms(1) l Lru_copy_entries(1) holds_only_copy by (auto simp: all_hold_def)
  then show ?thesis
    using assms(1) unfolding s' by (intro all_hold_drop) (auto simp: all_hold_def)
qed

lemma all_hold_put:
  assumes "all_hold P s" and "P u c" and "writeCache_put now u c s = Inr s'"
  shows "all_hold P s'"
  using assms holds_only_put Lru_put_inv(1)
  by (fastforce simp: writeCache_put_def all_hold_def split: if_splits option.splits)

section \<open>Every interleaving\<close>

lemma contents_iff: "contents_inv P s \<longleftrightarrow> mc_inv s \<and> writers_respect P s \<and> all_hold P s"
  by (auto simp: contents_inv_def all_hold_def mc_inv_def mc_heap_inv_def)

lemma all_hold_step:
  assumes "mc_step s t" and "all_hold P s" and "writers_respect P s"
  shows "all_hold P t"
  using assms
proof (induction rule: mc_step.induct)
  case (mc_snapshot s t s' url)
  then show ?case by (auto simp: snapshot_ok)
next
  case (mc_get s t url now v s')
  then show ?case using all_hold_get(1) by simp
next
  case (mc_cow s t url c now s')
  then show ?case using all_hold_cow by simp
next
  case (mc_put s t url c now s')
  have "P url c"
    using mc_put(1,4) unfolding writers_respect_def by (metis asks_for.simps(2))
  with mc_put all_hold_put show ?case by simp
qed simp

interpretation contents: transition_system mc_init "mc_respects P" "contents_inv P" for P
proof
  fix s t :: MemoryCache
  show "contents_inv P s" if "mc_init s"
    using that mc.init_inv [OF that]
    by (auto simp: contents_inv_def mc_init_def MemoryCache_new_def writers_respect_def holds_only_def
        split: if_splits)
  show "contents_inv P t" if "contents_inv P s" "mc_respects P s t"
    using that mc.step_inv [of s t] all_hold_step [of s t P] by (auto simp: contents_iff mc_respects_def)
qed

section \<open>Property\<close>


text \<open>A run in which \<open>/a\<close> is stored and a reader holds the object.\<close>

lemma mc_stored_run:
  fixes P defines "P \<equiv> \<lambda>u c. u = ''/a'' \<and> c = ''x''"
  shows "\<exists>s l. reach mc_init (mc_respects P) s \<and> mc_heap s 0 = Some l \<and>
    lru_entries l = [(''/a'', ''x'')] \<and> mc_pcs s 1 = MC_Holding ''/a''"
proof -
  let ?s0 = "MemoryCache_new 0 8"
  let ?s1 = "?s0\<lparr>mc_mx := Some 3, mc_pcs := (\<lambda>_. MC_Idle)(3 := MC_Locked ''/a'' ''x'')\<rparr>"
  let ?s2 = "?s1\<lparr>mc_pcs := (\<lambda>_. MC_Idle)(3 := MC_Ready ''/a'' ''x'')\<rparr>"
  obtain l where l: "Lru_put 9 ''/a'' ''x'' (Lru_new 0 8) = Inr l" "lru_entries l = [(''/a'', ''x'')]"
    using lru.put_fits [of "Lru_new 0 8" "''/a''" 9 "''x''"] Lru_new_inv [of 0 8]
    by (auto simp: lru_cap_def)
  let ?s3 = "?s0\<lparr>mc_heap := [0 \<mapsto> l]\<rparr>"
  let ?s4 = "?s3\<lparr>mc_temps := [(1, 0)], mc_pcs := (\<lambda>_. MC_Idle)(1 := MC_Holding ''/a'')\<rparr>"
  have "reach mc_init (mc_respects P) ?s0"
    by (rule reach_init) (auto simp: mc_init_def)
  moreover have "mc_respects P ?s0 ?s1"
    using mc_step.mc_lock [of ?s0 3 "''/a''" "''x''"]
    by (simp add: mc_respects_def writers_respect_def MemoryCache_new_def P_def)
  moreover have "mc_respects P ?s1 ?s2"
    using mc_step.mc_cow [of ?s1 3 "''/a''" "''x''" 9 ?s1]
    by (simp add: mc_respects_def writers_respect_def MemoryCache_new_def P_def writeCache_cow_def unique_iff)
  moreover have "mc_respects P ?s2 ?s3"
    using mc_step.mc_put [of ?s2 3 "''/a''" "''x''" 9 "?s2\<lparr>mc_heap := [0 \<mapsto> l]\<rparr>"] l(1)
    by (simp add: mc_respects_def writers_respect_def MemoryCache_new_def writeCache_put_def unique_iff
        fun_upd_idem)
  moreover have "mc_respects P ?s3 ?s4"
    using mc_step.mc_snapshot [of ?s3 1 _ "''/a''"]
    by (simp add: mc_respects_def writers_respect_def snapshot_ok MemoryCache_new_def)
  ultimately have "reach mc_init (mc_respects P) ?s4" by (blast intro: reach_step)
  then show ?thesis using l(2) by (intro exI [of _ ?s4] exI [of _ l]) simp
qed


end
