(* ===== verification/Spec2Isabelle.thy ===== *)
theory Spec2Isabelle
  imports Handover Cached_Requests Proxy_System Pool_Safety Pool_Lifetime Tcp_Runs Lru_Runs Cache_Contents
begin

text \<open>
  A model of EnhancedProxy, a caching reverse proxy in C++ on top of the muduo network library,
  with the theorems about it.

  \<^bold>\<open>The program.\<close> A master process (\<open>src/Process/MasterProcess.cpp\<close>) forks workers
  (\<open>WorkerProcess.cpp\<close>). The workers share one byte, the process mutex (\<open>ProcessMutex.h\<close>), and
  an array of eventfds: the worker that owns the mutex accepts connections, and one that has too
  many is to hand the task on by releasing the mutex and writing to the eventfd of the next. A
  worker runs a proxy server (\<open>src/ProxyServer/ProxyServer.cpp\<close>): a TCP server
  (\<open>src/ModifiedMuduo\<close>: acceptor, pool of IO loops, map of connections), a pool of worker threads
  behind a queue of tasks (\<open>src/ThreadPool\<close>), a request parser (\<open>src/Http\<close>), a memory cache
  (\<open>src/cache\<close>) in front of a Redis cache (\<open>src/Cache\<close>), and one tunnel to the web server per
  connection (\<open>src/ProxyServer/Tunnel.h\<close>). A message of a browser becomes a task; the task parses
  the request, answers it from the cache or sends it through the tunnel, and the tunnel is to
  cache the response and pass it back.

  \<^bold>\<open>The theories\<close>, each after those it uses, with the sources they model:

  \<^item> \<open>Prelude\<close>: the faults (every way to leave defined behaviour is a value of \<open>fault\<close>, a
    routine that can do so returns \<open>fault + 'a\<close>), C integer conversions, the C string functions,
    \<open>reach\<close> and the locale \<open>transition_system\<close> for step relations with an invariant, its extension
    \<open>simulation\<close> by an abstract system, \<open>counted_steps\<close> for steps that use up a finite amount of
    work, and \<open>functional_refinement\<close> for runs of operations.
  \<^item> \<open>Std_List\<close>, \<open>Lru\<close> (\<open>cache/LRU.h\<close>): \<open>std::list\<close> with stable iterators (locale
    \<open>iterator_list\<close>) and the LRU cache on it. \<open>lru_entries\<close> is the abstraction to a list of pairs
    in order of use, and the laws of \<open>put\<close> and \<open>get\<close> on it are the locale \<open>recency_store\<close>.
    \<open>Lru_Runs\<close>: whole runs of calls are equal to those of a specification on one list.
  \<^item> \<open>Memory_Cache\<close> (\<open>cache/memoryCache.h\<close>): copy-on-write of an \<open>Lru\<close> behind a \<open>shared_ptr\<close>, one
    step per critical section; reference counts, isolation of readers, no leak. \<open>Cache_Contents\<close>:
    every snapshot holds only what was written.
  \<^item> \<open>Redis\<close> (\<open>Cache/Redis.h\<close>), \<open>Two_Level_Cache\<close> (\<open>cache/cache.h\<close>): the second level over an
    arbitrary client library, with a server whose keys expire, and both levels together.
  \<^item> \<open>Circle_Queue\<close> (\<open>CircleQueue.{h,cpp}\<close>, \<open>Producer.h\<close>, \<open>Consumer.h\<close>), \<open>Thread_Pool\<close>
    (\<open>MyThreadPool.{h,cpp}\<close>): the ring of blocks of tasks, and its interleavings with any number of
    producers and worker threads; ownership of slots is the invariant. \<open>Pool_Safety\<close>: the shape of
    every reachable state, and no data race on the slots. \<open>Pool_Runs\<close> builds long runs of one IO
    thread; with them \<open>Pool_Progress\<close> shows that the worker threads drain the ring, and \<open>Pool_Lap\<close>
    that the bound of the first lap is exact. \<open>Pool_Lifetime\<close> has no such bound: it limits what the
    ring takes in all.
  \<^item> \<open>Http_Context\<close> (\<open>Http/_HttpContext.{h,cpp}\<close>): the incremental parser, and a specification on
    lines to which the loop is equal.
  \<^item> \<open>Process_Mutex\<close> (\<open>ProcessMutex.h\<close>): the shared byte under all interleavings; the interface
    that the proxy uses is the locale \<open>exclusive_lock\<close>.
  \<^item> \<open>Round_Robin\<close>: a locale for choosing in turn, which the loop pool and the master interpret.
  \<^item> \<open>Event_Loop_Pool\<close> (\<open>EventLoopThread.{h,cpp}\<close>, \<open>EventLoopThreadPool.{h,cpp}\<close>), \<open>Acceptor\<close>
    (\<open>Acceptor.{h,cpp}\<close>), \<open>Tcp_Server\<close> (\<open>TcpServer.{h,cpp}\<close>): IO threads, listening and its
    interruption, the life of a connection, the decision to hand over. \<open>Tcp_Runs\<close>: everything that
    can happen to a server from its start on.
  \<^item> \<open>Tunnel\<close> (\<open>Tunnel.h\<close>): what each handler does to the two connections, and flow control over
    every sequence of events.
  \<^item> \<open>Proxy_Server\<close> (\<open>ProxyServer.{h,cpp}\<close>): the server object and the loop of \<open>solveOnMessage\<close>.
  \<^item> \<open>Cached_Requests\<close>: the loop, the parser and both cache levels together.
  \<^item> \<open>Solve_Ends\<close>: the measure of that loop; \<open>Session\<close>: any number of tasks, tunnels and browsers
    over one server object as a transition system; \<open>Proxy_System\<close>: the ring and the worker threads
    of \<open>Thread_Pool\<close> with these sessions, which they refine.
  \<^item> \<open>System_Checker\<close> (\<open>SystemChecker.h\<close>), \<open>Master_Worker\<close> (\<open>MasterProcess.{h,cpp}\<close>,
    \<open>WorkerProcess.{h,cpp}\<close>, \<open>TestProcess/Test.cpp\<close>): master and worker processes.
  \<^item> \<open>Handover\<close>: all workers, any of which may die, as one transition system; it refines a token.

  \<^bold>\<open>How code is represented.\<close> A class is a record with the members as fields, a method a function
  from the object to its result and the new object. An object that several threads share is the
  state of a step relation with one rule per section that runs without interruption. Whatever
  the code asks of muduo, the operating system or the clock is an argument; what it does to them
  is a list of actions in its result. Uninitialised members are arguments named \<open>junk\<close>. A wait on
  a condition variable is the result \<open>None\<close>. \<open>size_t\<close> and \<open>uint8_t\<close> values whose wrap-around
  matters are words, others are \<open>int\<close> with the conversion written out.

  \<^bold>\<open>What is shown.\<close> The LRU cache is equal to its specification over every run, faults included;
  the caches do what their interface says as long as they are not over-filled, invent nothing, and
  concurrent readers are isolated from writers; Redis keeps the first response that was stored
  until it expires; the task queue runs each task at most once, loses none and has no data race
  on its slots, and the worker threads, in whatever order, call all that was handed on; the parser is equal to its specification, ends on every input and accepts what
  is rendered; the mutex excludes, and the workers with it implement a token; names of
  connections are fresh and connections are spread evenly; flow control wakes up every side that it
  stopped; a request is forwarded unchanged, cached requests are answered in order, the task ends
  when the web server is there, and its faults are known. From the browser through the ring to the
  web server, browsers are kept apart: the bytes of one reach only its own tunnel. A second
  group of theorems states where the code does less than it means to: the eviction loop that
  empties the cache, the ring that repeats blocks, and so tasks, with the
  last block of its first lap and takes no more tasks than fit into it, but for the first block of a
  new thread, a tunnel that never answers, producers that are lost, tasks that spin or abort, a handover that cannot arrive,
  dead workers that keep the mutex and are not replaced, so that nobody
  listens any more.

  \<^bold>\<open>Bounds.\<close> Loops are structural recursions or have a measure; none uses fuel. The loop of
  \<open>solveOnMessage\<close>, which may not end, runs over a list of observations, and not ending is the
  flag \<open>False\<close> for every such list. Theorems about the queue hold in its first lap, for fewer than
  16383 granted blocks of 1024 tasks (the ring has \<open>2^24\<close> slots); with one more, they are false. \<open>ring_lifetime\<close>
  needs no lap, but fewer than \<open>2^40\<close> threads that write, so that positions stay \<open>long\<close>. Parser theorems need buffers
  below \<open>2^63\<close> bytes, or \<open>2^31\<close> where the length is returned as an \<open>int\<close>; ids of connections and
  the counter of \<open>notify\<close> stay below \<open>2^31\<close>.

  \<^bold>\<open>Parameters.\<close> hiredis is the argument \<open>H\<close>; \<open>redis_laws\<close> states the documented behaviour of the
  commands and of the server's clock, and a concrete server satisfies it. \<open>acceptor_emfile\<close> assumes that system calls give
  the lowest free descriptor.

  \<^bold>\<open>Not modelled.\<close> Logging and printing; the poller and timers of muduo and the order in which it
  runs callbacks of different connections; the lifetime of tunnels and connections beyond null
  pointers; socket options and thread names; \<open>parseRequest(Buffer*)\<close> and the indexed access of the
  thread pool, which are declared without a body; what other threads do within one turn of
  \<open>solveOnMessage\<close> (a turn is one step, and reads the context of its connection once); weak memory (the swap is atomic and the steps
  are interleaved).

  \<^bold>\<open>To be extended.\<close> Which tasks run after the first lap, where blocks repeat; the accesses
  of several tasks to the map \<open>tunnels\<close> inside one turn, which no lock guards; the names that
  \<open>TcpServer\<close> gives to connections as the names \<open>nm\<close> of the sessions; deaths of single processes
  together with the sessions they served.
\<close>

end
